(* ===== verification/GS_Prelude.thy ===== *)
theory GS_Prelude
  imports Complex_Main "HOL-Library.Sublist" "HOL-Library.Multiset"
begin

text \<open>
  Shared ground of the development: the fact collections the component theories
  feed, the model of JavaScript values as far as \<^verbatim>\<open>src/index.js\<close> handles them
  (numbers, strings, the arrays of the configuration), and the built-in array and
  string operations the program calls (\<^verbatim>\<open>indexOf\<close>, \<^verbatim>\<open>splice\<close>, \<^verbatim>\<open>slice\<close>,
  \<^verbatim>\<open>includes\<close>, \<^verbatim>\<open>Array.isArray\<close>), each with the lemmas the components need.

  The last section holds the facts on lists and multisets the components share.

  Numbers are exact rationals: every IEEE double is one, so the arithmetic of the
  program is modelled without rounding, and without \<^verbatim>\<open>NaN\<close> or infinities.
  Strings are lists of characters; an array is a list.
\<close>

section \<open>Fact collections\<close>

named_theorems gs_defs "unfolding equations of the non-recursive definitions of the model"
named_theorems gs_inv "facts about the invariants of the scheduler"

section \<open>Numbers and values\<close>

type_synonym num = rat

datatype jsval = JNull | JBool bool | JNum num | JStr string | JArr "jsval list"

definition isArray :: "jsval \<Rightarrow> bool" where
  "isArray v = (case v of JArr _ \<Rightarrow> True | _ \<Rightarrow> False)"

definition elems :: "jsval \<Rightarrow> jsval list" where
  "elems v = (case v of JArr xs \<Rightarrow> xs | _ \<Rightarrow> [])"

definition array_includes :: "'a list \<Rightarrow> 'a \<Rightarrow> bool" where
  "array_includes xs x = (x \<in> set xs)"

lemma isArray_simps [simp]:
  "isArray (JArr xs)" "\<not> isArray JNull" "\<not> isArray (JBool b)"
  "\<not> isArray (JNum n)" "\<not> isArray (JStr s)"
  by (simp_all add: isArray_def)

lemma elems_JArr [simp]: "elems (JArr xs) = xs"
  by (simp add: elems_def)

lemma isArray_elems: "isArray v \<Longrightarrow> v = JArr (elems v)"
  by (cases v) simp_all

lemma array_includes_simps [simp]:
  "array_includes [] x = False"
  "array_includes (y # ys) x = (y = x \<or> array_includes ys x)"
  by (auto simp: array_includes_def)

lemma array_includes_iff: "array_includes xs x \<longleftrightarrow> x \<in> set xs"
  by (simp add: array_includes_def)

section \<open>Arrays: indexOf and splice\<close>

text \<open>
  \<^verbatim>\<open>xs.indexOf(x)\<close> is the position of the first element equal to \<^verbatim>\<open>x\<close>, or \<^verbatim>\<open>-1\<close>.
  \<^verbatim>\<open>xs.splice(start, n)\<close> removes \<^verbatim>\<open>n\<close> elements from position \<^verbatim>\<open>start\<close>; a negative
  \<^verbatim>\<open>start\<close> counts from the end of the array, so \<^verbatim>\<open>splice(-1, 1)\<close> removes the last
  element. The model returns the array after the removal.
\<close>

primrec indexOf :: "'a list \<Rightarrow> 'a \<Rightarrow> int" where
  "indexOf [] x = - 1"
| "indexOf (y # ys) x =
     (if y = x then 0 else if indexOf ys x < 0 then - 1 else indexOf ys x + 1)"

definition array_splice :: "int \<Rightarrow> nat \<Rightarrow> 'a list \<Rightarrow> 'a list" where
  "array_splice start deleteCount xs =
     (let len = int (length xs);
          actualStart = nat (if start < 0 then max (len + start) 0 else min start len)
      in take actualStart xs @ drop (actualStart + deleteCount) xs)"

lemma indexOf_ge: "- 1 \<le> indexOf xs x"
  by (induction xs) auto

lemma indexOf_neg_iff: "indexOf xs x < 0 \<longleftrightarrow> x \<notin> set xs"
  by (induction xs) auto

lemma indexOf_absent_iff: "indexOf xs x = - 1 \<longleftrightarrow> x \<notin> set xs"
  using indexOf_ge [of xs x] indexOf_neg_iff [of xs x] by arith

lemma indexOf_less_length: "indexOf xs x < int (length xs)"
  by (induction xs) auto

lemma nth_indexOf: "x \<in> set xs \<Longrightarrow> xs ! nat (indexOf xs x) = x"
proof (induction xs)
  case Nil
  then show ?case by simp
next
  case (Cons y ys)
  show ?case
  proof (cases "y = x")
    case True
    then show ?thesis by simp
  next
    case False
    with Cons.prems have mem: "x \<in> set ys" by simp
    then have "0 \<le> indexOf ys x" using indexOf_neg_iff [of ys x] by arith
    then have "nat (indexOf ys x + 1) = Suc (nat (indexOf ys x))" by arith
    with False mem Cons.IH show ?thesis by (simp add: indexOf_neg_iff)
  qed
qed

lemma splice_Nil [simp]: "array_splice i n [] = []"
  by (simp add: array_splice_def)

lemma splice_0_Cons [simp]: "array_splice 0 (Suc n) (x # xs) = drop n xs"
  by (simp add: array_splice_def)

lemma splice_pos_Cons:
  "0 \<le> i \<Longrightarrow> array_splice (i + 1) n (x # xs) = x # array_splice i n xs"
  by (simp add: array_splice_def Let_def nat_add_distrib min_def)

text \<open>Removing one element at the position \<open>indexOf\<close> reports removes its first occurrence.\<close>

lemma splice_indexOf: "x \<in> set xs \<Longrightarrow> array_splice (indexOf xs x) 1 xs = remove1 x xs"
proof (induction xs)
  case Nil
  then show ?case by simp
next
  case (Cons y ys)
  show ?case
  proof (cases "y = x")
    case True
    then show ?thesis by simp
  next
    case False
    with Cons.prems have mem: "x \<in> set ys" by simp
    then have "0 \<le> indexOf ys x" using indexOf_neg_iff [of ys x] by arith
    with False mem Cons.IH show ?thesis
      by (simp add: indexOf_neg_iff splice_pos_Cons)
  qed
qed

lemma splice_indexOf_Suc_0 [simp]:
  "x \<in> set xs \<Longrightarrow> array_splice (indexOf xs x) (Suc 0) xs = remove1 x xs"
  using splice_indexOf [of x xs] by simp

text \<open>The hazard of the idiom: for an absent element the last one is removed instead.\<close>

lemma splice_minus1: "array_splice (- 1) 1 xs = butlast xs"
  by (cases xs rule: rev_cases) (simp_all add: array_splice_def Let_def)

lemma splice_indexOf_absent:
  assumes "x \<notin> set xs"
  shows "array_splice (indexOf xs x) 1 xs = butlast xs"
proof -
  from assms have "indexOf xs x = - 1" by (simp add: indexOf_absent_iff)
  then show ?thesis by (simp only: splice_minus1)
qed

lemma set_splice_subset: "set (array_splice i n xs) \<subseteq> set xs"
  by (auto simp: array_splice_def Let_def dest: in_set_takeD in_set_dropD)

lemma length_splice_le: "length (array_splice i n xs) \<le> length xs"
  by (simp add: array_splice_def Let_def)

section \<open>Strings: slice\<close>

text \<open>
  \<^verbatim>\<open>s.slice(0, e)\<close>: the characters before position \<^verbatim>\<open>e\<close>, a negative \<^verbatim>\<open>e\<close> counting
  from the end and both bounds clamped to the string.
\<close>

definition slice_to :: "int \<Rightarrow> 'a list \<Rightarrow> 'a list" where
  "slice_to e xs =
     (let len = int (length xs)
      in take (nat (if e < 0 then max (len + e) 0 else min e len)) xs)"

lemma slice_to_neg: "0 < k \<Longrightarrow> slice_to (- int k) xs = take (length xs - k) xs"
  by (auto simp: slice_to_def Let_def max_def nat_diff_distrib')

lemma slice_to_append [simp]:
  "length ys = k \<Longrightarrow> 0 < k \<Longrightarrow> slice_to (- int k) (xs @ ys) = xs"
  by (simp add: slice_to_neg)

lemma slice_to_prefix: "prefix (slice_to e xs) xs"
  by (simp add: slice_to_def Let_def take_is_prefix)

lemma slice_to_append_drop:
  "0 < k \<Longrightarrow> slice_to (- int k) xs @ drop (length xs - k) xs = xs"
  by (simp add: slice_to_neg)

section \<open>Lists\<close>

lemma takeWhile_neq_all [simp]: "x \<notin> set ys \<Longrightarrow> takeWhile (\<lambda>c. c \<noteq> x) ys = ys"
  by (induction ys) auto

lemma takeWhile_neq_append [simp]:
  "x \<notin> set ys \<Longrightarrow> takeWhile (\<lambda>c. c \<noteq> x) (ys @ x # zs) = ys"
  by (induction ys) auto

lemma dropWhile_eq_none [simp]: "x \<notin> set ys \<Longrightarrow> dropWhile (\<lambda>c. c = x) ys = ys"
  by (cases ys) auto

text \<open>The positions of a list that satisfy a predicate, after an append and after an update.\<close>

lemma Collect_nth_snoc:
  "{j. j < Suc (length xs) \<and> P ((xs @ [x]) ! j)} =
     {j. j < length xs \<and> P (xs ! j)} \<union> (if P x then {length xs} else {})"
proof -
  have "j < Suc (length xs) \<and> P ((xs @ [x]) ! j) \<longleftrightarrow>
        (j < length xs \<and> P (xs ! j)) \<or> (j = length xs \<and> P x)" for j
    by (cases "j < length xs") (auto simp: nth_append)
  then show ?thesis by auto
qed

lemma Collect_nth_update:
  assumes "j < length xs"
  shows "{k. k < length xs \<and> P (xs[j := y] ! k)} =
     ({k. k < length xs \<and> P (xs ! k)} - {j}) \<union> (if P y then {j} else {})"
proof -
  have "k < length xs \<and> P (xs[j := y] ! k) \<longleftrightarrow>
        (k < length xs \<and> P (xs ! k) \<and> k \<noteq> j) \<or> (k = j \<and> P y)" for k
    using assms by (cases "k = j") auto
  then show ?thesis by auto
qed

lemma map_update_same: "f y = f (xs ! k) \<Longrightarrow> map f (xs[k := y]) = map f xs"
  by (induction xs arbitrary: k) (auto split: nat.splits)

lemma list_all_updateI: "list_all P xs \<Longrightarrow> P y \<Longrightarrow> list_all P (xs[j := y])"
  by (induction xs arbitrary: j) (auto split: nat.splits)

text \<open>Counting the elements that satisfy a predicate, after an update.\<close>

lemma length_filter_update:
  "j < length xs \<Longrightarrow>
     length (filter P (xs[j := y])) + (if P (xs ! j) then 1 else 0)
       = length (filter P xs) + (if P y then 1 else 0)"
proof (induction xs arbitrary: j)
  case Nil
  then show ?case by simp
next
  case (Cons x xs)
  show ?case
  proof (cases j)
    case 0
    then show ?thesis by simp
  next
    case (Suc k)
    with Cons.prems have "k < length xs" by simp
    from Cons.IH [OF this] Suc show ?thesis by (simp split: if_splits)
  qed
qed

lemma mset_filter_update:
  "j < length xs \<Longrightarrow>
     mset (map f (filter P (xs[j := y]))) + (if P (xs ! j) then {#f (xs ! j)#} else {#})
       = mset (map f (filter P xs)) + (if P y then {#f y#} else {#})"
proof (induction xs arbitrary: j)
  case Nil
  then show ?case by simp
next
  case (Cons x xs)
  show ?case
  proof (cases j)
    case 0
    then show ?thesis by simp
  next
    case (Suc k)
    with Cons.prems have "k < length xs" by simp
    from Cons.IH [OF this] Suc show ?thesis by (simp split: if_splits)
  qed
qed

lemma mset_subset_add_mset: "A \<subseteq># B \<Longrightarrow> A \<subseteq># add_mset x B"
  by (simp add: subseteq_mset_def le_Suc_eq)

lemma mset_subset_size_eq: "A \<subseteq># B \<Longrightarrow> size A = size B \<Longrightarrow> A = B"
  using mset_subset_size [of A B] by (auto simp: subset_mset.less_le)

lemma distinct_mset_subset:
  assumes "mset xs \<subseteq># mset ys" and "distinct ys"
  shows "distinct xs"
proof -
  from assms(2) have "count (mset ys) a \<le> 1" for a
    by (simp add: distinct_count_atmost_1)
  then have "count (mset xs) a \<le> 1" for a
    using mset_subset_eq_count [OF assms(1), of a] by (rule order_trans [rotated])
  then have "count (mset xs) a = (if a \<in> set xs then 1 else 0)" for a
    using count_mset_0_iff [of xs a] by (cases "a \<in> set xs") (auto simp: le_Suc_eq)
  then show ?thesis by (simp add: distinct_count_atmost_1)
qed

lemma distinct_map_inj_onI:
  "distinct xs \<Longrightarrow> (\<And>x y. x \<in> set xs \<Longrightarrow> y \<in> set xs \<Longrightarrow> f x = f y \<Longrightarrow> x = y) \<Longrightarrow>
     distinct (map f xs)"
  by (auto simp: distinct_map intro: inj_onI)

lemma length_remove1_less [simp]: "x \<in> set xs \<Longrightarrow> length (remove1 x xs) < length xs"
  using length_pos_if_in_set [of x xs] by (simp add: length_remove1)

lemma length_remove1_Suc: "x \<in> set xs \<Longrightarrow> Suc (length (remove1 x xs)) = length xs"
  using length_pos_if_in_set [of x xs] by (simp add: length_remove1)

end
