(* ===== verification/GS_Path.thy ===== *)
theory GS_Path
  imports GS_Prelude
begin

text \<open>
  The path functions of \<^verbatim>\<open>node:path\<close> (POSIX flavour) that \<^verbatim>\<open>src/index.js\<close> calls on
  the names of the extracted directory, on the paths of the archive and on the paths
  it hands to the browser: \<^verbatim>\<open>basename\<close>, \<^verbatim>\<open>extname\<close>, \<^verbatim>\<open>dirname\<close>, \<^verbatim>\<open>normalize\<close> and
  \<^verbatim>\<open>join\<close>. The first three scan the path from its end: trailing slashes are skipped
  and the last component is what stands after the last remaining slash.
  \<^verbatim>\<open>normalize\<close> walks the segments between slashes with a stack: empty segments and
  \<^verbatim>\<open>.\<close> are dropped, \<^verbatim>\<open>..\<close> pops a segment (or is kept, for a relative path with
  nothing to pop). The lemmas say what the selection needs: a name whose extension is
  \<^verbatim>\<open>.html\<close> is a non-empty stem followed by \<^verbatim>\<open>.html\<close>, and conversely; what the render
  loop needs: \<^verbatim>\<open>join\<close> of a directory and a file name ends with that name, so
  different names give different paths; and what the archive needs: \<^verbatim>\<open>dirname\<close> of a
  file in a directory is that directory, and a path lies below its \<^verbatim>\<open>dirname\<close>; a
  name of ordinary segments (\<open>safe_name\<close>) joined to a directory in normal form
  (\<open>normal_dir\<close>) lies below it, while a name that starts with \<^verbatim>\<open>../\<close> lands beside
  the directory.
\<close>

section \<open>The last component of a path\<close>

definition last_part :: "string \<Rightarrow> string" where
  "last_part p =
     rev (takeWhile (\<lambda>c. c \<noteq> CHR ''/'') (dropWhile (\<lambda>c. c = CHR ''/'') (rev p)))"

definition basename :: "string \<Rightarrow> string" where
  "basename p = last_part p"

text \<open>
  \<^verbatim>\<open>extname\<close>: from the last dot of the last component to its end; empty when the
  component has no dot, when its only dot is its first character, and for \<^verbatim>\<open>..\<close>.
\<close>

definition extname :: "string \<Rightarrow> string" where
  "extname p =
     (let part = last_part p;
          ext = rev (takeWhile (\<lambda>c. c \<noteq> CHR ''.'') (rev part))
      in if CHR ''.'' \<notin> set part then []
         else if length ext + 1 = length part then []
         else if part = ''..'' then []
         else CHR ''.'' # ext)"

text \<open>
  \<^verbatim>\<open>dirname\<close>: the path up to the slash before the last component. The scan from
  the end stops before the first character, skips trailing slashes and then the
  last component; repeated slashes before it are kept.
\<close>

definition dirname :: "string \<Rightarrow> string" where
  "dirname p =
     (if p = [] then ''.''
      else let hasRoot = (hd p = CHR ''/'');
               front = dropWhile (\<lambda>c. c \<noteq> CHR ''/'')
                          (dropWhile (\<lambda>c. c = CHR ''/'') (rev (tl p)))
           in if front = [] then (if hasRoot then ''/'' else ''.'')
              else if hasRoot \<and> length front = 1 then ''//''
              else take (length front) p)"

definition plain_name :: "string \<Rightarrow> bool" where
  "plain_name n \<longleftrightarrow> CHR ''/'' \<notin> set n"

section \<open>normalize and join\<close>

fun split_on :: "char \<Rightarrow> string \<Rightarrow> string list" where
  "split_on c [] = [[]]"
| "split_on c (x # xs) =
     (if x = c then [] # split_on c xs
      else (case split_on c xs of s # ss \<Rightarrow> (x # s) # ss | [] \<Rightarrow> [[x]]))"

fun join_with :: "string \<Rightarrow> string list \<Rightarrow> string" where
  "join_with sep [] = []"
| "join_with sep [s] = s"
| "join_with sep (s # t # ss) = s @ sep @ join_with sep (t # ss)"

text \<open>
  One segment of \<^verbatim>\<open>normalizeString\<close>; \<open>res\<close> is the result so far as a stack of
  segments, the last one first.
\<close>

definition norm_step :: "bool \<Rightarrow> string list \<Rightarrow> string \<Rightarrow> string list" where
  "norm_step allowAboveRoot res seg =
     (if seg = [] \<or> seg = ''.'' then res
      else if seg = ''..'' then
        (case res of
           [] \<Rightarrow> if allowAboveRoot then [''..''] else []
         | s # rest \<Rightarrow>
             if s = ''..'' then (if allowAboveRoot then seg # res else res) else rest)
      else seg # res)"

definition normalizeString :: "string \<Rightarrow> bool \<Rightarrow> string" where
  "normalizeString p allowAboveRoot =
     join_with ''/'' (rev (foldl (norm_step allowAboveRoot) [] (split_on CHR ''/'' p)))"

definition normalize_path :: "string \<Rightarrow> string" where
  "normalize_path p =
     (if p = [] then ''.''
      else let isAbsolute = (hd p = CHR ''/'');
               trailingSeparator = (last p = CHR ''/'');
               q = normalizeString p (\<not> isAbsolute)
           in if q = []
              then (if isAbsolute then ''/'' else if trailingSeparator then ''./'' else ''.'')
              else (if isAbsolute then ''/'' else []) @ q
                     @ (if trailingSeparator then ''/'' else []))"

definition join :: "string list \<Rightarrow> string" where
  "join args =
     (case filter (\<lambda>a. a \<noteq> []) args of
        [] \<Rightarrow> ''.''
      | a # as \<Rightarrow> normalize_path (join_with ''/'' (a # as)))"

text \<open>
  A segment that \<^verbatim>\<open>normalize\<close> keeps as it is (\<open>ordinary\<close>), and what \<^verbatim>\<open>join\<close> puts
  before such a segment when it is the last of two arguments (\<open>dir_prefix\<close>).
\<close>

definition ordinary :: "string \<Rightarrow> bool" where
  "ordinary seg \<longleftrightarrow> seg \<noteq> [] \<and> plain_name seg \<and> seg \<noteq> ''.'' \<and> seg \<noteq> ''..''"

definition dir_prefix :: "string \<Rightarrow> string" where
  "dir_prefix d =
     (if d = [] then []
      else let isAbsolute = (hd d = CHR ''/'');
               st = foldl (norm_step (\<not> isAbsolute)) [] (split_on CHR ''/'' d)
           in (if isAbsolute then ''/'' else [])
                @ (if st = [] then [] else join_with ''/'' (rev st) @ ''/''))"

text \<open>A directory name in normal form: \<^verbatim>\<open>normalize\<close> leaves it as it is, and it names a directory
  other than the root and the current one.\<close>

definition normal_dir :: "string \<Rightarrow> bool" where
  "normal_dir d \<longleftrightarrow> normalize_path d = d \<and> d \<noteq> ''.'' \<and> last d \<noteq> CHR ''/''"

text \<open>
  The name of an entry that stays where it is put: one or more segments that
  \<^verbatim>\<open>normalize\<close> keeps, with a slash between them and possibly one at the end.
\<close>

definition safe_name :: "string \<Rightarrow> bool" where
  "safe_name f \<longleftrightarrow>
     (let segs = split_on CHR ''/'' f;
          body = (if last segs = [] then butlast segs else segs)
      in body \<noteq> [] \<and> list_all ordinary body)"

text \<open>A path that does not end with a slash, or the root.\<close>

definition tidy_path :: "string \<Rightarrow> bool" where
  "tidy_path q \<longleftrightarrow> q = ''/'' \<or> (q \<noteq> [] \<and> last q \<noteq> CHR ''/'')"

lemmas path_defs [gs_defs] =
  last_part_def basename_def extname_def dirname_def normalizeString_def normalize_path_def
  join_def norm_step_def

section \<open>Names without a slash\<close>

lemma last_part_plain [simp]: "plain_name n \<Longrightarrow> last_part n = n"
  by (simp add: plain_name_def last_part_def)

lemma basename_plain [simp]: "plain_name n \<Longrightarrow> basename n = n"
  by (simp add: basename_def)

lemma plain_name_last_part [simp]: "plain_name (last_part p)"
  by (auto simp: plain_name_def last_part_def dest: set_takeWhileD)

lemma plain_name_append [simp]:
  "plain_name (a @ b) \<longleftrightarrow> plain_name a \<and> plain_name b"
  by (auto simp: plain_name_def)

lemma plain_name_html [simp]: "plain_name ''.html''" "plain_name ''.jpg''"
  by (simp_all add: plain_name_def)

section \<open>The extension of a component\<close>

lemma takeWhile_rev_ext:
  "CHR ''.'' \<notin> set e \<Longrightarrow>
     rev (takeWhile (\<lambda>c. c \<noteq> CHR ''.'') (rev (n @ CHR ''.'' # e))) = e"
  by simp

lemma extname_stem_ext:
  assumes "plain_name n" and "plain_name e" and "CHR ''.'' \<notin> set e"
    and "n \<noteq> []" and "n \<noteq> ''.'' \<or> e \<noteq> []"
  shows "extname (n @ CHR ''.'' # e) = CHR ''.'' # e"
proof -
  have plain: "plain_name (n @ CHR ''.'' # e)"
    using assms(1,2) by (auto simp: plain_name_def)
  have ext: "rev (takeWhile (\<lambda>c. c \<noteq> CHR ''.'') (rev (n @ CHR ''.'' # e))) = e"
    using assms(3) by (rule takeWhile_rev_ext)
  have "n @ CHR ''.'' # e \<noteq> ''..''"
    using assms(4,5) by (cases n) (auto simp: append_eq_Cons_conv)
  with plain ext assms(4) show ?thesis
    by (simp add: extname_def Let_def del: rev_append rev.simps)
qed

lemma extname_html [simp]:
  "plain_name n \<Longrightarrow> n \<noteq> [] \<Longrightarrow> extname (n @ ''.html'') = ''.html''"
  using extname_stem_ext [of n "''html''"] by (simp add: plain_name_def)

text \<open>Conversely, the extension is a suffix of the last component, with a stem before it.\<close>

lemma extname_decomp:
  assumes "extname p \<noteq> []"
  shows "\<exists>n. n \<noteq> [] \<and> last_part p = n @ extname p"
proof -
  define part where "part = last_part p"
  define ext where "ext = rev (takeWhile (\<lambda>c. c \<noteq> CHR ''.'') (rev part))"
  from assms have dot: "CHR ''.'' \<in> set part" and len: "length ext + 1 \<noteq> length part"
    and e: "extname p = CHR ''.'' # ext"
    by (auto simp: extname_def Let_def part_def ext_def split: if_splits)
  from dot have "CHR ''.'' \<in> set (rev part)" by simp
  from split_list_first [OF this]
  obtain ys zs where split: "rev part = ys @ CHR ''.'' # zs" and "CHR ''.'' \<notin> set ys"
    by blast
  then have tw: "takeWhile (\<lambda>c. c \<noteq> CHR ''.'') (rev part) = ys"
    by simp
  from split have "part = rev zs @ CHR ''.'' # rev ys"
    by (metis rev_rev_ident rev_append rev.simps(2) append.assoc append_Cons append_Nil)
  with tw have part: "part = rev zs @ CHR ''.'' # ext"
    by (simp add: ext_def)
  with len have "rev zs \<noteq> []" by auto
  with part e show ?thesis
    by (auto simp: part_def)
qed

lemma extname_html_decomp:
  "extname p = ''.html'' \<Longrightarrow> \<exists>n. n \<noteq> [] \<and> basename p = n @ ''.html''"
  using extname_decomp [of p] by (auto simp: basename_def)

lemma extname_plain_html_iff:
  "plain_name x \<Longrightarrow> extname x = ''.html'' \<longleftrightarrow> (\<exists>n. n \<noteq> [] \<and> x = n @ ''.html'')"
  using extname_html_decomp [of x] by (auto simp: basename_def)

section \<open>join with a final segment\<close>

lemma last_neq: "x \<notin> set xs \<Longrightarrow> xs \<noteq> [] \<Longrightarrow> last xs \<noteq> x"
  by (induction xs) auto

lemma split_on_nonempty [simp]: "split_on c xs \<noteq> []"
  by (induction xs) (auto split: list.splits)

lemma split_on_plain: "c \<notin> set seg \<Longrightarrow> split_on c seg = [seg]"
  by (induction seg) auto

lemma split_on_append:
  "c \<notin> set seg \<Longrightarrow> split_on c (p @ c # seg) = split_on c p @ [seg]"
proof (induction p)
  case Nil
  then show ?case by (simp add: split_on_plain)
next
  case (Cons x xs)
  then show ?case
    by (cases "split_on c xs") auto
qed

lemma norm_step_ordinary [simp]: "ordinary seg \<Longrightarrow> norm_step a res seg = seg # res"
  by (simp add: norm_step_def ordinary_def)

lemma join_with_snoc:
  "join_with sep (xs @ [s]) = (if xs = [] then s else join_with sep xs @ sep @ s)"
  by (induction sep xs rule: join_with.induct) auto

lemma ordinary_ext [simp]:
  "plain_name n \<Longrightarrow> ordinary (n @ ''.jpg'')" "plain_name n \<Longrightarrow> ordinary (n @ ''.html'')"
  by (auto simp: ordinary_def append_eq_Cons_conv)

lemma normalize_path_snoc:
  assumes "ordinary seg"
  shows "normalize_path (d @ CHR ''/'' # seg) = dir_prefix (d @ ''/'') @ seg"
proof -
  from assms have seg: "seg \<noteq> []" "CHR ''/'' \<notin> set seg"
    by (simp_all add: ordinary_def plain_name_def)
  then have last: "last (d @ CHR ''/'' # seg) \<noteq> CHR ''/''"
    by (simp add: last_neq)
  have hd: "hd (d @ CHR ''/'' # seg) = hd (d @ ''/'')" by (cases d) simp_all
  have sp: "split_on CHR ''/'' (d @ CHR ''/'' # seg) = split_on CHR ''/'' d @ [seg]"
    using seg(2) by (rule split_on_append)
  have sp': "split_on CHR ''/'' (d @ ''/'') = split_on CHR ''/'' d @ [[]]"
    using split_on_append [of "CHR ''/''" "[]" d] by simp
  have empty: "norm_step a res [] = res" for a res by (simp add: norm_step_def)
  show ?thesis
    using assms seg(1) last
    by (simp add: normalize_path_def normalizeString_def dir_prefix_def Let_def hd sp sp' empty
        join_with_snoc del: hd_append2)
qed

lemma join_ordinary:
  assumes "ordinary seg" and "d \<noteq> []"
  shows "join [d, seg] = dir_prefix (d @ ''/'') @ seg"
  using assms normalize_path_snoc [OF assms(1), of d]
  by (simp add: join_def ordinary_def)

lemma join_inj:
  assumes "ordinary a" "ordinary b" "d \<noteq> []" and "join [d, a] = join [d, b]"
  shows "a = b"
  using assms by (simp add: join_ordinary)

lemma normalize_path_nonempty [simp]: "normalize_path p \<noteq> []"
  by (auto simp: normalize_path_def Let_def)

section \<open>Files in a directory in normal form\<close>

lemma normal_dir_nonempty: "normal_dir d \<Longrightarrow> d \<noteq> []"
  using normalize_path_nonempty [of d] by (auto simp: normal_dir_def)

lemma dir_prefix_normal:
  assumes "normal_dir d"
  shows "dir_prefix (d @ ''/'') = d @ ''/''"
proof -
  from assms have d: "d \<noteq> []" by (rule normal_dir_nonempty)
  have hd: "hd (d @ ''/'') = hd d" using d by simp
  have sp: "split_on CHR ''/'' (d @ ''/'') = split_on CHR ''/'' d @ [[]]"
    using split_on_append [of "CHR ''/''" "[]" d] by simp
  have empty: "norm_step a res [] = res" for a res by (simp add: norm_step_def)
  from assms d show ?thesis
    by (auto simp: normal_dir_def normalize_path_def normalizeString_def dir_prefix_def Let_def
        hd sp empty split: if_splits)
qed

lemma join_normal:
  assumes "normal_dir d" and "ordinary seg"
  shows "join [d, seg] = d @ CHR ''/'' # seg"
  using join_ordinary [OF assms(2) normal_dir_nonempty [OF assms(1)]] dir_prefix_normal [OF assms(1)]
  by simp

lemma dirname_file:
  assumes "d \<noteq> []" and "d \<noteq> ''/''" and "plain_name seg" and "seg \<noteq> []"
  shows "dirname (d @ CHR ''/'' # seg) = d"
proof -
  from assms(1) obtain c cs where d: "d = c # cs" by (cases d) auto
  from assms(3,4) have seg: "CHR ''/'' \<notin> set (rev seg)" "rev seg \<noteq> []"
    by (simp_all add: plain_name_def)
  then have "dropWhile (\<lambda>x. x = CHR ''/'') (rev seg @ CHR ''/'' # rev cs) = rev seg @ CHR ''/'' # rev cs"
    by (cases "rev seg") auto
  moreover have "dropWhile (\<lambda>x. x \<noteq> CHR ''/'') (rev seg @ CHR ''/'' # rev cs) = CHR ''/'' # rev cs"
    using seg(1) by (auto simp: dropWhile_append3)
  ultimately show ?thesis
    using assms(2) by (auto simp: dirname_def d Let_def)
qed

lemma basename_file: "plain_name seg \<Longrightarrow> seg \<noteq> [] \<Longrightarrow> basename (d @ CHR ''/'' # seg) = seg"
  by (cases "rev seg") (auto simp: basename_def last_part_def plain_name_def)

text \<open>A path lies below its \<^verbatim>\<open>dirname\<close>, unless that is the root or the current directory.\<close>

lemma dirname_prefix:
  assumes "dirname q = d" and "d \<noteq> ''.''" and "d \<noteq> ''/''" and "d \<noteq> ''//''"
  shows "prefix (d @ ''/'') q"
proof -
  define r where "r = dropWhile (\<lambda>c. c = CHR ''/'') (rev (tl q))"
  define front where "front = dropWhile (\<lambda>c. c \<noteq> CHR ''/'') r"
  have dn: "dirname q =
      (if q = [] then ''.''
       else if front = [] then (if hd q = CHR ''/'' then ''/'' else ''.'')
       else if hd q = CHR ''/'' \<and> length front = 1 then ''//''
       else take (length front) q)"
    unfolding dirname_def Let_def front_def r_def ..
  from assms(2-4) have q: "q \<noteq> []" and f: "front \<noteq> []"
    unfolding assms(1) [symmetric] dn by (simp_all split: if_splits)
  from assms(4) have d: "d = take (length front) q"
    unfolding assms(1) [symmetric] dn using q f by (auto split: if_splits)
  from f have "hd front = CHR ''/''"
    using hd_dropWhile [of "\<lambda>c. c \<noteq> CHR ''/''" r] by (simp add: front_def)
  with f obtain f' where front: "front = CHR ''/'' # f'" by (cases front) auto
  from q obtain h tq where hq: "q = h # tq" by (cases q) auto
  have "suffix front (rev tq)"
    unfolding front_def r_def hq list.sel by (blast intro: suffix_dropWhile suffix_order.trans)
  then obtain a where "rev tq = a @ CHR ''/'' # f'" by (auto simp: suffix_def front)
  then have "rev (rev tq) = rev (a @ CHR ''/'' # f')" by (rule arg_cong)
  then have tq: "tq = rev f' @ CHR ''/'' # rev a" by simp
  from d have "d = h # rev f'" by (simp add: hq front tq)
  then show ?thesis by (simp add: hq tq)
qed

text \<open>The first component of a path has no directory of its own.\<close>

lemma split_on_free: "s \<in> set (split_on c p) \<Longrightarrow> c \<notin> set s"
  by (induction p arbitrary: s) (auto split: if_splits list.splits)

lemma dirname_plain:
  assumes "plain_name seg"
  shows "dirname seg = ''.''" and "dirname (CHR ''/'' # seg) = ''/''"
proof -
  have none: "dropWhile (\<lambda>c. c \<noteq> CHR ''/'') (dropWhile (\<lambda>c. c = CHR ''/'') (rev xs)) = []"
    if "CHR ''/'' \<notin> set xs" for xs
    using that by (simp add: dropWhile_eq_Nil_conv) (metis in_set_conv_decomp set_dropWhileD set_rev)
  from assms have seg: "CHR ''/'' \<notin> set seg" by (simp add: plain_name_def)
  show "dirname (CHR ''/'' # seg) = ''/''"
    unfolding dirname_def Let_def list.sel none [OF seg] by simp
  show "dirname seg = ''.''"
  proof (cases seg)
    case Nil
    then show ?thesis by (simp add: dirname_def)
  next
    case (Cons c cs)
    with seg have "CHR ''/'' \<notin> set cs" "c \<noteq> CHR ''/''" by auto
    then show ?thesis
      unfolding dirname_def Let_def Cons list.sel none [OF \<open>CHR ''/'' \<notin> set cs\<close>] by simp
  qed
qed

lemma join_with_plain_hd:
  "segs \<noteq> [] \<Longrightarrow> \<forall>s \<in> set segs. s \<noteq> [] \<and> plain_name s \<Longrightarrow>
     join_with ''/'' segs \<noteq> [] \<and> hd (join_with ''/'' segs) \<noteq> CHR ''/''"
  by (induction "''/''" segs rule: join_with.induct) (auto simp: plain_name_def dest: hd_in_set)

section \<open>Paths without a trailing slash\<close>

text \<open>The segments \<^verbatim>\<open>normalize\<close> keeps are not empty and have no slash.\<close>

lemma norm_step_kept:
  "\<forall>s \<in> set res. s \<noteq> [] \<and> plain_name s \<Longrightarrow> plain_name seg \<Longrightarrow>
     \<forall>s \<in> set (norm_step a res seg). s \<noteq> [] \<and> plain_name s"
  by (auto simp: norm_step_def plain_name_def split: list.splits)

lemma foldl_norm_step_kept:
  "\<forall>s \<in> set res. s \<noteq> [] \<and> plain_name s \<Longrightarrow> \<forall>seg \<in> set segs. plain_name seg \<Longrightarrow>
     \<forall>s \<in> set (foldl (norm_step a) res segs). s \<noteq> [] \<and> plain_name s"
proof (induction segs arbitrary: res)
  case (Cons seg segs)
  from Cons.prems(2) have "plain_name seg" by simp
  with Cons.prems(1) have "\<forall>s \<in> set (norm_step a res seg). s \<noteq> [] \<and> plain_name s"
    by (rule norm_step_kept)
  moreover from Cons.prems(2) have "\<forall>seg \<in> set segs. plain_name seg" by simp
  ultimately have "\<forall>s \<in> set (foldl (norm_step a) (norm_step a res seg) segs). s \<noteq> [] \<and> plain_name s"
    by (rule Cons.IH)
  then show ?case by simp
qed simp

lemma join_with_plain_last:
  "segs \<noteq> [] \<Longrightarrow> \<forall>s \<in> set segs. s \<noteq> [] \<and> plain_name s \<Longrightarrow>
     last (join_with ''/'' segs) \<noteq> CHR ''/''"
proof (induction "''/''" segs rule: join_with.induct)
  case (3 s t ss)
  from 3 join_with_plain_hd [of "t # ss"] have "join_with ''/'' (t # ss) \<noteq> []" by simp
  with 3 show ?case by simp
qed (simp_all add: plain_name_def last_neq)

lemma normalizeString_tidy:
  "normalizeString p a = [] \<or> last (normalizeString p a) \<noteq> CHR ''/''"
proof -
  let ?st = "foldl (norm_step a) [] (split_on CHR ''/'' p)"
  have kept: "\<forall>s \<in> set (rev ?st). s \<noteq> [] \<and> plain_name s"
    using foldl_norm_step_kept [of "[]" "split_on CHR ''/'' p" a]
    by (auto simp: plain_name_def dest: split_on_free)
  show ?thesis
  proof (cases "?st = []")
    case True
    then show ?thesis by (simp add: normalizeString_def)
  next
    case False
    then have "rev ?st \<noteq> []" by simp
    from join_with_plain_last [OF this kept] show ?thesis
      by (simp add: normalizeString_def)
  qed
qed

lemma normalize_path_tidy:
  assumes "p = [] \<or> last p \<noteq> CHR ''/''"
  shows "tidy_path (normalize_path p)"
proof (cases "p = []")
  case True
  then show ?thesis by (simp add: normalize_path_def tidy_path_def)
next
  case False
  with assms have l: "last p \<noteq> CHR ''/''" by simp
  from normalizeString_tidy [of p "hd p \<noteq> CHR ''/''"] False l show ?thesis
    by (auto simp: normalize_path_def tidy_path_def Let_def)
qed

lemma join_tidy:
  assumes "f \<noteq> [] \<longrightarrow> last f \<noteq> CHR ''/''" and "f = [] \<longrightarrow> d = [] \<or> last d \<noteq> CHR ''/''"
  shows "tidy_path (join [d, f])"
proof -
  have "tidy_path (normalize_path p)" if "p \<noteq> []" "last p \<noteq> CHR ''/''" for p
    using that by (intro normalize_path_tidy) simp
  with assms show ?thesis
    by (cases "d = []"; cases "f = []") (simp_all add: join_def tidy_path_def)
qed

text \<open>A path without a trailing slash is its \<^verbatim>\<open>dirname\<close>, a slash and its last component.\<close>

lemma dirname_decomp:
  assumes "dirname q = d" and "d \<noteq> ''.''" and "d \<noteq> ''/''" and "d \<noteq> ''//''" and "tidy_path q"
  obtains seg where "q = d @ CHR ''/'' # seg" and "plain_name seg" and "seg \<noteq> []"
proof -
  define r where "r = dropWhile (\<lambda>c. c = CHR ''/'') (rev (tl q))"
  define front where "front = dropWhile (\<lambda>c. c \<noteq> CHR ''/'') r"
  have dn: "dirname q =
      (if q = [] then ''.''
       else if front = [] then (if hd q = CHR ''/'' then ''/'' else ''.'')
       else if hd q = CHR ''/'' \<and> length front = 1 then ''//''
       else take (length front) q)"
    unfolding dirname_def Let_def front_def r_def ..
  from assms(2-4) have q: "q \<noteq> []" and f: "front \<noteq> []"
    unfolding assms(1) [symmetric] dn by (simp_all split: if_splits)
  from assms(4) have d: "d = take (length front) q"
    unfolding assms(1) [symmetric] dn using q f by (auto split: if_splits)
  from q obtain h tq where hq: "q = h # tq" by (cases q) auto
  from f have tq: "tq \<noteq> []" by (auto simp: front_def r_def hq)
  with assms(5) have "hd (rev tq) \<noteq> CHR ''/''"
    by (simp add: tidy_path_def hq hd_rev)
  with tq have r: "r = rev tq"
    unfolding r_def hq list.sel by (cases "rev tq") simp_all
  define a where "a = takeWhile (\<lambda>c. c \<noteq> CHR ''/'') (rev tq)"
  have split: "rev tq = a @ front"
    by (simp add: a_def front_def r)
  have a: "CHR ''/'' \<notin> set a" "a \<noteq> []"
    using tq \<open>hd (rev tq) \<noteq> CHR ''/''\<close> by (auto simp: a_def dest: set_takeWhileD) (cases "rev tq"; simp)
  from split have "rev (rev tq) = rev (a @ front)" by (rule arg_cong)
  then have t: "tq = rev front @ rev a" by simp
  from f have "hd front = CHR ''/''"
    using hd_dropWhile [of "\<lambda>c. c \<noteq> CHR ''/''" r] by (simp add: front_def)
  with f obtain f' where front: "front = CHR ''/'' # f'" by (cases front) auto
  from d have "d = h # rev f'" by (simp add: hq t front)
  then have "q = d @ CHR ''/'' # rev a" by (simp add: hq t front)
  moreover from a have "plain_name (rev a)" "rev a \<noteq> []" by (simp_all add: plain_name_def)
  ultimately show ?thesis by (rule that)
qed

section \<open>A name that starts with two dots\<close>

text \<open>
  \<^verbatim>\<open>normalize\<close> resolves \<^verbatim>\<open>..\<close> against the segment before it: joined to a directory in
  a directory in normal form, a name that starts with \<^verbatim>\<open>../\<close> lands beside the
  directory, not in it.
\<close>

lemma dir_prefix_dotdot:
  assumes "ordinary g" and "d \<noteq> []"
  shows "dir_prefix (d @ CHR ''/'' # g @ ''/../'') = dir_prefix (d @ ''/'')"
proof -
  from assms(1) have g: "CHR ''/'' \<notin> set g" "g \<noteq> ''..''"
    by (simp_all add: ordinary_def plain_name_def)
  have slash: "split_on CHR ''/'' (p @ CHR ''/'' # []) = split_on CHR ''/'' p @ [[]]" for p
    using split_on_append [of "CHR ''/''" "[]" p] by simp
  have dots: "split_on CHR ''/'' (p @ CHR ''/'' # ''..'') = split_on CHR ''/'' p @ [''..'']" for p
    using split_on_append [of "CHR ''/''" "''..''" p] by simp
  have seg: "split_on CHR ''/'' (d @ CHR ''/'' # g) = split_on CHR ''/'' d @ [g]"
    using g(1) by (rule split_on_append)
  have "d @ CHR ''/'' # g @ ''/../'' = ((d @ CHR ''/'' # g) @ CHR ''/'' # ''..'') @ CHR ''/'' # []"
    by simp
  then have sp: "split_on CHR ''/'' (d @ CHR ''/'' # g @ ''/../'')
      = split_on CHR ''/'' d @ [g, ''..'', []]"
    by (simp only: slash dots seg) simp
  have sp': "split_on CHR ''/'' (d @ ''/'') = split_on CHR ''/'' d @ [[]]"
    using split_on_append [of "CHR ''/''" "[]" d] by simp
  have pop: "norm_step a (g # res) ''..'' = res" for a res
    using g(2) by (simp add: norm_step_def)
  have empty: "norm_step a res [] = res" for a res by (simp add: norm_step_def)
  have hd: "hd (d @ CHR ''/'' # g @ ''/../'') = hd (d @ ''/'')"
    using assms(2) by simp
  from assms(1,2) show ?thesis
    unfolding dir_prefix_def Let_def hd sp sp' by (simp add: pop empty)
qed

lemma join_dotdot:
  assumes "normal_dir d" and "ordinary g" and "ordinary f"
  shows "join [d @ CHR ''/'' # g, ''../'' @ f] = d @ CHR ''/'' # f"
proof -
  from assms(1) have d: "d \<noteq> []" by (rule normal_dir_nonempty)
  have "join [d @ CHR ''/'' # g, ''../'' @ f] = normalize_path ((d @ CHR ''/'' # g @ ''/..'') @ CHR ''/'' # f)"
    by (simp add: join_def)
  also have "\<dots> = dir_prefix ((d @ CHR ''/'' # g @ ''/..'') @ ''/'') @ f"
    using assms(3) by (rule normalize_path_snoc)
  also have "dir_prefix ((d @ CHR ''/'' # g @ ''/..'') @ ''/'') = dir_prefix (d @ ''/'')"
    using dir_prefix_dotdot [OF assms(2) d] by simp
  also have "\<dots> = d @ ''/''" using assms(1) by (rule dir_prefix_normal)
  finally show ?thesis by simp
qed

section \<open>Names of several segments\<close>

lemma join_with_split_on: "join_with [c] (split_on c xs) = xs"
proof (induction xs)
  case (Cons x xs)
  obtain s ss where sp: "split_on c xs = s # ss" by (cases "split_on c xs") simp_all
  with Cons show ?case by (cases ss) auto
qed simp

lemma join_with_append:
  "xs \<noteq> [] \<Longrightarrow> ys \<noteq> [] \<Longrightarrow> join_with sep (xs @ ys) = join_with sep xs @ sep @ join_with sep ys"
  by (induction sep xs rule: join_with.induct) (auto simp: neq_Nil_conv)

text \<open>A safe name is its segments with slashes between them, and a slash at the end if it has one.\<close>

lemma safe_name_segments:
  assumes "safe_name f"
  obtains body where "body \<noteq> []" and "list_all ordinary body"
    and "f = join_with ''/'' body \<or> f = join_with ''/'' body @ ''/''"
proof -
  define segs where "segs = split_on CHR ''/'' f"
  define body where "body = (if last segs = [] then butlast segs else segs)"
  from assms have b: "body \<noteq> []" "list_all ordinary body"
    unfolding safe_name_def Let_def segs_def [symmetric] body_def [symmetric] by simp_all
  have f: "f = join_with ''/'' segs"
    unfolding segs_def by (rule join_with_split_on [symmetric])
  have "f = join_with ''/'' body \<or> f = join_with ''/'' body @ ''/''"
  proof (cases "last segs = []")
    case True
    with b(1) have "segs \<noteq> []" by (auto simp: body_def)
    from append_butlast_last_id [OF this] True have "segs = body @ [[]]"
      by (simp add: body_def)
    with b(1) f show ?thesis by (simp add: join_with_snoc)
  next
    case False
    with f show ?thesis by (simp add: body_def)
  qed
  with b show ?thesis by (rule that)
qed

text \<open>A directory in normal form followed by a segment is a directory in normal form.\<close>

lemma normal_dir_snoc:
  assumes "normal_dir d" and "ordinary seg"
  shows "normal_dir (d @ CHR ''/'' # seg)"
proof -
  from assms(2) have seg: "seg \<noteq> []" "CHR ''/'' \<notin> set seg" "seg \<noteq> ''.''"
    by (simp_all add: ordinary_def plain_name_def)
  have "normalize_path (d @ CHR ''/'' # seg) = d @ CHR ''/'' # seg"
    using normalize_path_snoc [OF assms(2), of d] dir_prefix_normal [OF assms(1)] by simp
  moreover from seg(1,2) have "last (d @ CHR ''/'' # seg) \<noteq> CHR ''/''"
    by (simp add: last_neq)
  moreover have "d @ CHR ''/'' # seg \<noteq> ''.''"
    by (simp add: append_eq_Cons_conv)
  ultimately show ?thesis by (simp add: normal_dir_def)
qed

lemma normal_dir_below:
  "normal_dir d \<Longrightarrow> body \<noteq> [] \<Longrightarrow> list_all ordinary body \<Longrightarrow>
     normal_dir (d @ CHR ''/'' # join_with ''/'' body)"
proof (induction body rule: rev_induct)
  case (snoc seg body)
  show ?case
  proof (cases "body = []")
    case True
    with snoc.prems show ?thesis by (simp add: normal_dir_snoc)
  next
    case False
    with snoc have "normal_dir (d @ CHR ''/'' # join_with ''/'' body)" by simp
    from normal_dir_snoc [OF this, of seg] snoc.prems(3) False show ?thesis
      by (simp add: join_with_snoc)
  qed
qed simp

text \<open>\<^verbatim>\<open>normalize\<close> keeps the slash at the end of a directory in normal form.\<close>

lemma normalize_path_trailing:
  assumes "normal_dir d"
  shows "normalize_path (d @ ''/'') = d @ ''/''"
proof -
  from assms have d: "d \<noteq> []" by (rule normal_dir_nonempty)
  have sp: "split_on CHR ''/'' (d @ ''/'') = split_on CHR ''/'' d @ [[]]"
    using split_on_append [of "CHR ''/''" "[]" d] by simp
  have empty: "norm_step a res [] = res" for a res by (simp add: norm_step_def)
  from assms d show ?thesis
    by (auto simp: normal_dir_def normalize_path_def normalizeString_def Let_def sp empty
        split: if_splits)
qed

text \<open>\<^verbatim>\<open>join\<close> of a directory in normal form and a safe name puts the name below the directory.\<close>

lemma join_safe:
  assumes "normal_dir d" and "safe_name f"
  shows "join [d, f] = d @ CHR ''/'' # f"
proof -
  from assms(2) obtain body where body: "body \<noteq> []" "list_all ordinary body"
    and f: "f = join_with ''/'' body \<or> f = join_with ''/'' body @ ''/''"
    by (rule safe_name_segments)
  from assms(1) body have n: "normal_dir (d @ CHR ''/'' # join_with ''/'' body)"
    by (rule normal_dir_below)
  from body have "join_with ''/'' body \<noteq> []"
    using join_with_plain_hd [of body] by (auto simp: list_all_iff ordinary_def)
  with f have fne: "f \<noteq> []" by auto
  from n have "normalize_path (d @ CHR ''/'' # f) = d @ CHR ''/'' # f"
    using f normalize_path_trailing [OF n] by (auto simp: normal_dir_def)
  with fne normal_dir_nonempty [OF assms(1)] show ?thesis
    by (simp add: join_def)
qed

lemma safe_name_nonempty: "safe_name f \<Longrightarrow> f \<noteq> []"
  by (auto simp: safe_name_def)

text \<open>The directory of a file with a safe name below a directory is that directory or below it.\<close>

lemma dirname_safe:
  assumes "normal_dir d" and "safe_name f" and "last f \<noteq> CHR ''/''"
  shows "dirname (d @ CHR ''/'' # f) = d \<or> (\<exists>rest. dirname (d @ CHR ''/'' # f) = d @ CHR ''/'' # rest)"
proof -
  from assms(2) obtain body where body: "body \<noteq> []" "list_all ordinary body"
    and f: "f = join_with ''/'' body \<or> f = join_with ''/'' body @ ''/''"
    by (rule safe_name_segments)
  from f assms(3) have f: "f = join_with ''/'' body" by auto
  from body(1) obtain bs b where bs: "body = bs @ [b]" by (cases body rule: rev_cases) auto
  with body(2) have b: "plain_name b" "b \<noteq> []" by (simp_all add: ordinary_def)
  from assms(1) have d: "d \<noteq> []" "d \<noteq> ''/''"
    by (auto simp: normal_dir_def dest: normal_dir_nonempty)
  show ?thesis
  proof (cases "bs = []")
    case True
    with f bs have "f = b" by simp
    with dirname_file [OF d b] show ?thesis by simp
  next
    case False
    with f bs have "d @ CHR ''/'' # f = (d @ CHR ''/'' # join_with ''/'' bs) @ CHR ''/'' # b"
      by (simp add: join_with_snoc)
    moreover have "dirname ((d @ CHR ''/'' # join_with ''/'' bs) @ CHR ''/'' # b)
        = d @ CHR ''/'' # join_with ''/'' bs"
      using b d(1) by (intro dirname_file) (simp_all add: append_eq_Cons_conv)
    ultimately show ?thesis by simp
  qed
qed

section \<open>The segments of a directory in normal form\<close>

lemma split_on_app: "split_on c (a @ c # b) = split_on c a @ split_on c b"
proof (induction a)
  case (Cons x xs)
  then show ?case by (cases "split_on c xs") auto
qed simp

lemma split_on_join_with:
  "ss \<noteq> [] \<Longrightarrow> \<forall>s \<in> set ss. plain_name s \<Longrightarrow> split_on CHR ''/'' (join_with ''/'' ss) = ss"
proof (induction "''/''" ss rule: join_with.induct)
  case (2 s)
  then show ?case by (simp add: split_on_plain plain_name_def)
next
  case (3 s t ss)
  then have "split_on CHR ''/'' (s @ CHR ''/'' # join_with ''/'' (t # ss)) = [s] @ (t # ss)"
    unfolding split_on_app by (simp add: split_on_plain plain_name_def)
  then show ?case by simp
qed simp

text \<open>
  A directory in normal form is its segments with slashes between them, after the
  slash of the root if it is absolute; no segment is empty.
\<close>

lemma normal_dir_segments:
  assumes "normal_dir d"
  obtains segs where "segs \<noteq> []" and "\<forall>s \<in> set segs. s \<noteq> [] \<and> plain_name s"
    and "filter (\<lambda>s. s \<noteq> []) (split_on CHR ''/'' d) = segs"
    and "d = (if hd d = CHR ''/'' then ''/'' else []) @ join_with ''/'' segs"
proof -
  define a where "a = (hd d \<noteq> CHR ''/'')"
  define st where "st = foldl (norm_step a) [] (split_on CHR ''/'' d)"
  define root where "root = (if hd d = CHR ''/'' then ''/'' else [])"
  from assms have d: "d \<noteq> []" "last d \<noteq> CHR ''/''" "d \<noteq> ''.''" "normalize_path d = d"
    by (auto simp: normal_dir_def dest: normal_dir_nonempty)
  have n: "normalize_path d =
      (if join_with ''/'' (rev st) = [] then (if hd d = CHR ''/'' then ''/'' else ''.'')
       else root @ join_with ''/'' (rev st))"
    using d(1,2) by (simp add: normalize_path_def normalizeString_def Let_def st_def a_def root_def)
  have kept: "\<forall>s \<in> set (rev st). s \<noteq> [] \<and> plain_name s"
    using foldl_norm_step_kept [of "[]" "split_on CHR ''/'' d" a]
    by (auto simp: st_def plain_name_def dest: split_on_free)
  from n d have q: "join_with ''/'' (rev st) \<noteq> []" and eq: "d = root @ join_with ''/'' (rev st)"
    by (auto split: if_splits)
  from q have ne: "rev st \<noteq> []" by auto
  from kept have plain: "\<forall>s \<in> set (rev st). plain_name s" by simp
  have "split_on CHR ''/'' (root @ join_with ''/'' (rev st)) = (if root = [] then [] else [[]]) @ rev st"
    using split_on_join_with [OF ne plain] by (simp add: root_def)
  with eq have "split_on CHR ''/'' d = (if root = [] then [] else [[]]) @ rev st" by simp
  with kept have "filter (\<lambda>s. s \<noteq> []) (split_on CHR ''/'' d) = rev st"
    by (auto simp: filter_id_conv)
  with ne kept eq show ?thesis
    by (intro that [of "rev st"]) (simp_all add: root_def)
qed

end
