(* ===== verification/GS_Files.thy ===== *)
theory GS_Files
  imports GS_Path "HOL-Library.AList"
begin

text \<open>
  The file system as \<^verbatim>\<open>src/index.js\<close> uses it through \<^verbatim>\<open>node:fs\<close>: \<^verbatim>\<open>mkdtemp\<close>,
  \<^verbatim>\<open>mkdir\<close> with \<^verbatim>\<open>recursive\<close>, \<^verbatim>\<open>createWriteStream\<close> with \<^verbatim>\<open>pipeline\<close>, \<^verbatim>\<open>rm\<close> with
  \<^verbatim>\<open>force\<close> and \<^verbatim>\<open>recursive\<close>, and \<^verbatim>\<open>readdir\<close>. The library is not part of the
  repository; the operations are written from their documented behaviour.

  A file system (\<open>fs\<close>) is the list of the paths that are stored, each with what is
  stored there, in the order of creation. An operation takes the file system and
  returns the one it leaves behind; one that can fail returns an error in place of
  its result, and \<open>mkdirs\<close>, which works in several steps, returns the file system
  it had reached when it failed. The invariant \<open>fs_wf\<close> says that the list is a
  tree: no path twice, and every entry in a directory that is stored; \<open>tidy\<close> says
  that no stored path ends with a slash. The lemmas show that the operations keep
  both (a removal that fails on its way, \<open>rm_rf_stopped\<close>, keeps the second), what
  an operation stores, and what it leaves as it was: \<open>persists\<close> for what was
  stored before, and the lemmas of the last section for what lies outside a
  directory.
\<close>

section \<open>Paths and what is stored\<close>

datatype node = Dir | File string

type_synonym fs = "(string \<times> node) list"

datatype io_error =
  MkdtempError | FetchError | WriteError | OpenError | ReadError | MkdirError | CloseError
  | RmError | ReaddirError

definition lookup :: "fs \<Rightarrow> string \<Rightarrow> node option" where
  "lookup t p = map_of t p"

fun is_dir :: "node \<Rightarrow> bool" where
  "is_dir Dir = True"
| "is_dir (File c) = False"

section \<open>The operations\<close>

text \<open>
  The directories \<^verbatim>\<open>mkdir\<close> with \<^verbatim>\<open>recursive: true\<close> goes through for a path: the path
  itself and the directories above it, from the top. It creates those that are
  missing and fails at the first that is a file.
\<close>

definition chain :: "string \<Rightarrow> string list" where
  "chain p =
     (let segs = filter (\<lambda>s. s \<noteq> []) (split_on CHR ''/'' p);
          root = (if p \<noteq> [] \<and> hd p = CHR ''/'' then ''/'' else [])
      in map (\<lambda>k. root @ join_with ''/'' (take k segs)) [1..<Suc (length segs)])"

fun mkdirs :: "string list \<Rightarrow> fs \<Rightarrow> io_error option \<times> fs" where
  "mkdirs [] t = (None, t)"
| "mkdirs (q # qs) t =
     (case lookup t q of
        None \<Rightarrow> mkdirs qs (t @ [(q, Dir)])
      | Some Dir \<Rightarrow> mkdirs qs t
      | Some (File c) \<Rightarrow> (Some MkdirError, t))"

definition mkdir_p :: "string \<Rightarrow> fs \<Rightarrow> io_error option \<times> fs" where
  "mkdir_p p t = mkdirs (chain p) t"

text \<open>Writing a file needs the directory it is in, and replaces a file of the same name.\<close>

definition write_file :: "string \<Rightarrow> string \<Rightarrow> fs \<Rightarrow> io_error + fs" where
  "write_file p c t =
     (case lookup t (dirname p) of
        Some Dir \<Rightarrow>
          (case lookup t p of
             Some Dir \<Rightarrow> Inl WriteError
           | _ \<Rightarrow> Inr (AList.update p (File c) t))
      | _ \<Rightarrow> Inl WriteError)"

text \<open>\<^verbatim>\<open>rm\<close> with \<^verbatim>\<open>force\<close> and \<^verbatim>\<open>recursive\<close>: the path and everything below it, if it is there.\<close>

definition rm_rf :: "string \<Rightarrow> fs \<Rightarrow> fs" where
  "rm_rf p t = filter (\<lambda>(q, n). q \<noteq> p \<and> \<not> prefix (p @ ''/'') q) t"

text \<open>
  An \<^verbatim>\<open>rm\<close> that fails has removed part of what it was to remove: of the path and
  what lies below it, the paths in \<open>left\<close> are still there.
\<close>

definition rm_rf_stopped :: "string \<Rightarrow> string list \<Rightarrow> fs \<Rightarrow> fs" where
  "rm_rf_stopped p left t =
     filter (\<lambda>(q, n). q \<in> set left \<or> (q \<noteq> p \<and> \<not> prefix (p @ ''/'') q)) t"

text \<open>\<^verbatim>\<open>readdir\<close>: the names of what lies in a directory, in the order of creation.\<close>

definition readdir :: "fs \<Rightarrow> string \<Rightarrow> io_error + string list" where
  "readdir t p =
     (case lookup t p of
        Some Dir \<Rightarrow>
          Inr (map (\<lambda>(q, n). basename q) (filter (\<lambda>(q, n). q \<noteq> p \<and> dirname q = p) t))
      | _ \<Rightarrow> Inl ReaddirError)"

text \<open>\<^verbatim>\<open>mkdtemp\<close> appends characters of its choice to the prefix and creates that directory.\<close>

definition mkdtemp :: "string \<Rightarrow> string \<Rightarrow> fs \<Rightarrow> io_error + string \<times> fs" where
  "mkdtemp pre chosen t =
     (let p = pre @ chosen
      in case lookup t (dirname p) of
           Some Dir \<Rightarrow> if lookup t p = None then Inr (p, t @ [(p, Dir)]) else Inl MkdtempError
         | _ \<Rightarrow> Inl MkdtempError)"

section \<open>Well-formed file systems\<close>

text \<open>
  A file system is well formed when no path is stored twice and every entry lies in
  a directory that is there: the directory \<^verbatim>\<open>dirname\<close> gives for its path is stored as a
  directory, unless it is the root or the current directory (\<open>top_dir\<close>), which
  need not be stored. In particular nothing lies below a file.
\<close>

definition top_dir :: "string \<Rightarrow> bool" where
  "top_dir d \<longleftrightarrow> d = ''/'' \<or> d = ''.'' \<or> d = ''//''"

definition housed :: "fs \<Rightarrow> string \<Rightarrow> bool" where
  "housed t q \<longleftrightarrow> top_dir (dirname q) \<or> lookup t (dirname q) = Some Dir"

definition fs_wf :: "fs \<Rightarrow> bool" where
  "fs_wf t \<longleftrightarrow> distinct (map fst t) \<and> list_all (\<lambda>(q, n). housed t q) t"

text \<open>
  \<open>linked d qs\<close>: each path of the list lies in the one before it, the first in \<open>d\<close>.
  \<open>dirs_exist\<close>: a directory is there with the directories above it. \<open>vacant\<close>:
  nothing is stored at a path or below it. \<open>above_exist\<close>: the directories above a
  path are there.
\<close>

definition linked :: "string \<Rightarrow> string list \<Rightarrow> bool" where
  "linked d qs \<longleftrightarrow> map dirname qs = butlast (d # qs)"

definition dirs_exist :: "fs \<Rightarrow> string \<Rightarrow> bool" where
  "dirs_exist t dir \<longleftrightarrow> list_all (\<lambda>q. lookup t q = Some Dir) (chain dir) \<and> lookup t dir = Some Dir"

definition vacant :: "fs \<Rightarrow> string \<Rightarrow> bool" where
  "vacant t dir \<longleftrightarrow> list_all (\<lambda>(q, n). q \<noteq> dir \<and> \<not> prefix (dir @ ''/'') q) t"

definition above_exist :: "fs \<Rightarrow> string \<Rightarrow> bool" where
  "above_exist t dir \<longleftrightarrow> list_all (\<lambda>q. q = dir \<or> lookup t q = Some Dir) (chain dir)"

text \<open>\<open>tidy\<close>: no stored path ends with a slash, the root apart.\<close>

definition tidy :: "fs \<Rightarrow> bool" where
  "tidy t \<longleftrightarrow> list_all (\<lambda>(q, n). tidy_path q) t"

text \<open>
  \<open>persists t t'\<close>: every path stored in \<open>t\<close> is stored in \<open>t'\<close>, a directory as a
  directory and a file as a file, whose content may have changed.
\<close>

definition persists :: "fs \<Rightarrow> fs \<Rightarrow> bool" where
  "persists t t' \<longleftrightarrow>
     list_all (\<lambda>q. map_option is_dir (lookup t' q) = map_option is_dir (lookup t q)) (map fst t)"

lemmas files_defs [gs_defs] =
  lookup_def chain_def mkdir_p_def write_file_def rm_rf_def rm_rf_stopped_def readdir_def
  mkdtemp_def

section \<open>A file system to try the definitions on\<close>

definition ex_fs :: fs where
  "ex_fs = [(''/'', Dir), (''/tmp'', Dir)]"

section \<open>Lookups\<close>

lemma lookup_Nil [simp]: "lookup [] q = None"
  by (simp add: lookup_def)

lemma lookup_Cons [simp]: "lookup ((p, n) # t) q = (if q = p then Some n else lookup t q)"
  by (simp add: lookup_def)

lemma lookup_append:
  "lookup (t @ u) q = (case lookup t q of None \<Rightarrow> lookup u q | Some n \<Rightarrow> Some n)"
  by (cases "map_of t q") (simp_all add: lookup_def map_add_def)

lemma lookup_None_iff: "lookup t q = None \<longleftrightarrow> q \<notin> fst ` set t"
  by (simp add: lookup_def map_of_eq_None_iff)

lemma lookup_snoc:
  "lookup (t @ [(p, n)]) q =
     (case lookup t q of None \<Rightarrow> if q = p then Some n else None | Some m \<Rightarrow> Some m)"
  by (cases "lookup t q") (simp_all add: lookup_append)

lemma lookup_snoc_new: "lookup t q = None \<Longrightarrow> lookup (t @ [(q, n)]) q = Some n"
  by (simp add: lookup_append)

lemma lookup_snoc_other: "q \<noteq> p \<Longrightarrow> lookup (t @ [(p, n)]) q = lookup t q"
  by (cases "lookup t q") (simp_all add: lookup_append)

lemma lookup_prefix: "prefix t t' \<Longrightarrow> lookup t q = Some n \<Longrightarrow> lookup t' q = Some n"
  by (auto simp: prefix_def lookup_append)

lemma vacant_lookup: "vacant t dir \<Longrightarrow> lookup t dir = None"
  by (force simp: vacant_def lookup_None_iff list_all_iff)

lemma vacant_child: "vacant t dir \<Longrightarrow> lookup t (dir @ CHR ''/'' # f) = None"
  by (force simp: vacant_def lookup_None_iff list_all_iff)

lemma update_fresh: "lookup t p = None \<Longrightarrow> AList.update p v t = t @ [(p, v)]"
  by (induction t) (auto simp: lookup_def split: if_splits)

section \<open>What the operations store\<close>

lemma mkdirs_existing:
  "list_all (\<lambda>q. lookup t q = Some Dir) qs \<Longrightarrow> mkdirs qs t = (None, t)"
  by (induction qs) simp_all

lemma mkdir_p_existing: "dirs_exist t dir \<Longrightarrow> mkdir_p dir t = (None, t)"
  by (simp add: mkdir_p_def dirs_exist_def mkdirs_existing)

lemma mkdirs_prefix: "prefix t (snd (mkdirs qs t))"
proof (induction qs arbitrary: t)
  case (Cons q qs)
  from Cons [of "t @ [(q, Dir)]"] have "prefix t (snd (mkdirs qs (t @ [(q, Dir)])))"
    by (rule append_prefixD)
  with Cons [of t] show ?case
    by (simp split: option.splits node.splits)
qed simp

lemma mkdirs_adds:
  "list_all (\<lambda>(q, n). n = Dir \<and> q \<in> set qs) (drop (length t) (snd (mkdirs qs t)))"
proof (induction qs arbitrary: t)
  case (Cons a qs)
  have mono: "list_all (\<lambda>(q, n). n = Dir \<and> q \<in> set (a # qs)) u"
    if "list_all (\<lambda>(q, n). n = Dir \<and> q \<in> set qs) u" for u
    using that by (rule list.pred_mono_strong) auto
  from mkdirs_prefix [of "t @ [(a, Dir)]" qs] obtain u
    where u: "snd (mkdirs qs (t @ [(a, Dir)])) = (t @ [(a, Dir)]) @ u"
    by (auto simp: prefix_def)
  with Cons [of "t @ [(a, Dir)]"] have "list_all (\<lambda>(q, n). n = Dir \<and> q \<in> set qs) u" by simp
  from mono [OF this] have "list_all (\<lambda>(q, n). n = Dir \<and> q \<in> set (a # qs)) ((a, Dir) # u)"
    by simp
  with u mono [OF Cons [of t]] show ?case
    by (simp split: option.splits node.splits)
qed simp

text \<open>When \<^verbatim>\<open>mkdir\<close> succeeds, the directories it went through are there.\<close>

lemma mkdirs_creates:
  "fst (mkdirs qs t) = None \<Longrightarrow> q \<in> set qs \<Longrightarrow> lookup (snd (mkdirs qs t)) q = Some Dir"
proof (induction qs arbitrary: t)
  case (Cons a qs)
  show ?case
  proof (cases "q = a")
    case True
    have "lookup (snd (mkdirs qs u)) a = Some Dir" if "lookup u a = Some Dir" for u
      using mkdirs_prefix that by (rule lookup_prefix)
    with Cons.prems(1) True show ?thesis
      by (auto simp: lookup_snoc_new split: option.splits node.splits)
  next
    case False
    with Cons show ?thesis
      by (auto split: option.splits node.splits)
  qed
qed simp

text \<open>What \<^verbatim>\<open>mkdir\<close> adds are directories: a file that is there afterwards was there before.\<close>

lemma mkdirs_files:
  "lookup (snd (mkdirs qs t)) q = Some (File c) \<Longrightarrow> lookup t q = Some (File c)"
proof (induction qs arbitrary: t)
  case (Cons a qs)
  have new: "lookup t q = Some (File c)" if "lookup (t @ [(a, Dir)]) q = Some (File c)"
    using that by (simp add: lookup_snoc split: option.splits if_splits)
  show ?case
  proof (cases "lookup t a")
    case None
    with Cons.prems have "lookup (snd (mkdirs qs (t @ [(a, Dir)]))) q = Some (File c)" by simp
    then have "lookup (t @ [(a, Dir)]) q = Some (File c)" by (rule Cons.IH)
    then show ?thesis by (rule new)
  next
    case (Some n)
    with Cons show ?thesis by (cases n) simp_all
  qed
qed simp

lemma write_file_fresh:
  "lookup t (dirname p) = Some Dir \<Longrightarrow> lookup t p = None \<Longrightarrow>
     write_file p c t = Inr (t @ [(p, File c)])"
  by (simp add: write_file_def update_fresh)

lemma write_file_lookup:
  "write_file p c t = Inr t' \<Longrightarrow> lookup t' q = (if q = p then Some (File c) else lookup t q)"
  by (auto simp: write_file_def lookup_def update_conv' split: option.splits node.splits)

lemma write_file_guard:
  "write_file p c t = Inr t' \<Longrightarrow> lookup t (dirname p) = Some Dir \<and> lookup t p \<noteq> Some Dir"
  by (auto simp: write_file_def split: option.splits node.splits)

lemma dirs_exist_append: "dirs_exist t dir \<Longrightarrow> dirs_exist (t @ u) dir"
  by (auto simp: dirs_exist_def lookup_append list_all_iff)

lemma dirs_exist_created:
  assumes "above_exist t dir" and "lookup t dir = None"
  shows "dirs_exist (t @ [(dir, Dir)]) dir"
proof -
  have l: "lookup (t @ [(dir, Dir)]) dir = Some Dir"
    using assms(2) by (rule lookup_snoc_new)
  have "lookup (t @ [(dir, Dir)]) q = Some Dir" if "q \<in> set (chain dir)" for q
  proof (cases "q = dir")
    case True
    with l show ?thesis by simp
  next
    case False
    with assms(1) that have "lookup t q = Some Dir"
      by (auto simp: above_exist_def list_all_iff)
    then show ?thesis by (simp add: lookup_append)
  qed
  with l show ?thesis by (simp add: dirs_exist_def list_all_iff)
qed

lemma mkdtemp_fresh:
  "lookup t (dirname (pre @ chosen)) = Some Dir \<Longrightarrow> lookup t (pre @ chosen) = None \<Longrightarrow>
     mkdtemp pre chosen t = Inr (pre @ chosen, t @ [(pre @ chosen, Dir)])"
  by (simp add: mkdtemp_def Let_def)

lemma mkdtemp_result:
  "mkdtemp pre chosen t = Inr (p, t') \<Longrightarrow>
     p = pre @ chosen \<and> t' = t @ [(p, Dir)] \<and> lookup t p = None \<and> lookup t (dirname p) = Some Dir"
  by (auto simp: mkdtemp_def Let_def split: option.splits node.splits if_splits)

lemma vacant_filter: "vacant t dir \<Longrightarrow> rm_rf dir t = t"
  by (auto simp: vacant_def rm_rf_def list_all_iff intro!: filter_True)

lemma rm_rf_append: "rm_rf p (t @ u) = rm_rf p t @ rm_rf p u"
  by (simp add: rm_rf_def)

lemma lookup_rm_rf:
  "lookup (rm_rf p t) q = (if q = p \<or> prefix (p @ ''/'') q then None else lookup t q)"
proof -
  have "rm_rf p t = filter (\<lambda>x. fst x \<noteq> p \<and> \<not> prefix (p @ ''/'') (fst x)) t"
    by (simp add: rm_rf_def case_prod_unfold)
  then show ?thesis
    by (simp add: lookup_def map_of_filter [of "\<lambda>k. k \<noteq> p \<and> \<not> prefix (p @ ''/'') k"]
        restrict_map_def)
qed

lemma rm_rf_vacant: "vacant (rm_rf p t) p"
  by (auto simp: vacant_def rm_rf_def list_all_iff)

section \<open>What the operations leave in place\<close>

lemma persists_iff:
  "persists t t' \<longleftrightarrow>
     (\<forall>q n. lookup t q = Some n \<longrightarrow> map_option is_dir (lookup t' q) = Some (is_dir n))"
proof
  assume p: "persists t t'"
  show "\<forall>q n. lookup t q = Some n \<longrightarrow> map_option is_dir (lookup t' q) = Some (is_dir n)"
  proof (intro allI impI)
    fix q n assume l: "lookup t q = Some n"
    then have "q \<in> fst ` set t" using lookup_None_iff [of t q] by simp
    with p have "map_option is_dir (lookup t' q) = map_option is_dir (lookup t q)"
      by (auto simp: persists_def list_all_iff)
    with l show "map_option is_dir (lookup t' q) = Some (is_dir n)" by simp
  qed
next
  assume r: "\<forall>q n. lookup t q = Some n \<longrightarrow> map_option is_dir (lookup t' q) = Some (is_dir n)"
  have "map_option is_dir (lookup t' q) = map_option is_dir (lookup t q)" if "q \<in> fst ` set t" for q
  proof -
    from that obtain n where "lookup t q = Some n"
      using lookup_None_iff [of t q] by (cases "lookup t q") auto
    with r show ?thesis by simp
  qed
  then show "persists t t'" by (simp add: persists_def list_all_iff)
qed

lemma persistsD:
  "persists t t' \<Longrightarrow> lookup t q = Some n \<Longrightarrow> \<exists>m. lookup t' q = Some m \<and> is_dir m = is_dir n"
  by (auto simp: persists_iff)

lemma persists_refl [simp]: "persists t t"
  by (simp add: persists_iff)

lemma persists_trans: "persists t u \<Longrightarrow> persists u v \<Longrightarrow> persists t v"
  unfolding persists_iff by (metis (no_types, lifting) map_option_eq_Some)

lemma persists_prefix: "prefix t t' \<Longrightarrow> persists t t'"
  by (auto simp: persists_iff dest: lookup_prefix)

lemma mkdirs_persists: "persists t (snd (mkdirs qs t))"
  using mkdirs_prefix by (rule persists_prefix)

lemma mkdir_p_persists: "persists t (snd (mkdir_p p t))"
  unfolding mkdir_p_def by (rule mkdirs_persists)

lemma write_file_persists: "write_file p c t = Inr t' \<Longrightarrow> persists t t'"
  unfolding persists_iff
proof (intro allI impI)
  fix q n assume w: "write_file p c t = Inr t'" and l: "lookup t q = Some n"
  from write_file_guard [OF w] l show "map_option is_dir (lookup t' q) = Some (is_dir n)"
    by (cases n) (auto simp: write_file_lookup [OF w])
qed

lemma mkdtemp_persists: "mkdtemp pre chosen t = Inr (p, t') \<Longrightarrow> persists t t'"
  by (auto dest!: mkdtemp_result intro: persists_prefix)

section \<open>The operations keep the file system well formed\<close>

lemma fs_wf_iff:
  "fs_wf t \<longleftrightarrow> distinct (map fst t) \<and> (\<forall>q \<in> fst ` set t. housed t q)"
  by (auto simp: fs_wf_def list_all_iff)

lemma housed_append: "housed t q \<Longrightarrow> housed (t @ u) q"
  by (auto simp: housed_def lookup_append)

lemma fs_wf_snoc:
  assumes "fs_wf t" and "lookup t q = None" and "housed t q"
  shows "fs_wf (t @ [(q, n)])"
  using assms by (auto simp: fs_wf_iff lookup_None_iff intro: housed_append)

lemma linked_Cons: "linked d (q # qs) \<longleftrightarrow> dirname q = d \<and> linked q qs"
  by (simp add: linked_def)

lemma mkdirs_wf:
  assumes "fs_wf t" and "linked d qs" and "top_dir d \<or> lookup t d = Some Dir"
  shows "fs_wf (snd (mkdirs qs t))"
  using assms
proof (induction qs arbitrary: t d)
  case Nil
  then show ?case by simp
next
  case (Cons q qs)
  from Cons.prems(2) have q: "dirname q = d" and rest: "linked q qs"
    by (simp_all add: linked_Cons)
  from Cons.prems(3) q have h: "housed t q" by (simp add: housed_def)
  show ?case
  proof (cases "lookup t q")
    case None
    with Cons.prems(1) h have "fs_wf (t @ [(q, Dir)])" by (intro fs_wf_snoc)
    moreover from None have "lookup (t @ [(q, Dir)]) q = Some Dir" by (rule lookup_snoc_new)
    ultimately have "fs_wf (snd (mkdirs qs (t @ [(q, Dir)])))"
      using rest by (intro Cons.IH [of _ q]) simp_all
    with None show ?thesis by simp
  next
    case (Some n)
    show ?thesis
    proof (cases n)
      case Dir
      with Some Cons.prems(1) rest have "fs_wf (snd (mkdirs qs t))"
        by (intro Cons.IH [of t q]) simp_all
      with Some Dir show ?thesis by simp
    next
      case (File c)
      with Some Cons.prems(1) show ?thesis by simp
    qed
  qed
qed

text \<open>The directories \<^verbatim>\<open>mkdir\<close> goes through lie in one another, the first at the top.\<close>

lemma chain_linked:
  "linked (if p \<noteq> [] \<and> hd p = CHR ''/'' then ''/'' else ''.'') (chain p)"
proof -
  define segs where "segs = filter (\<lambda>s. s \<noteq> []) (split_on CHR ''/'' p)"
  define root where "root = (if p \<noteq> [] \<and> hd p = CHR ''/'' then ''/'' else [])"
  define f where "f k = root @ join_with ''/'' (take k segs)" for k
  have chain: "chain p = map f [1..<Suc (length segs)]"
    by (simp add: chain_def Let_def segs_def root_def f_def)
  have seg: "s \<noteq> [] \<and> plain_name s" if "s \<in> set segs" for s
    using that split_on_free [of s "CHR ''/''" p] by (auto simp: segs_def plain_name_def)
  have first: "dirname (f 1) = (if p \<noteq> [] \<and> hd p = CHR ''/'' then ''/'' else ''.'')"
    if "segs \<noteq> []"
  proof -
    from that have "take 1 segs = [hd segs]" and "hd segs \<in> set segs"
      by (cases segs; simp)+
    with seg [of "hd segs"] show ?thesis
      by (simp add: f_def root_def dirname_plain)
  qed
  have later: "dirname (f (Suc k)) = f k" if "0 < k" "k < length segs" for k
  proof -
    from that have t: "take (Suc k) segs = take k segs @ [segs ! k]" and k: "take k segs \<noteq> []"
      by (auto simp: take_Suc_conv_app_nth)
    have "\<forall>s \<in> set (take k segs). s \<noteq> [] \<and> plain_name s"
      using seg by (auto dest: in_set_takeD)
    from join_with_plain_hd [OF k this]
    have "root @ join_with ''/'' (take k segs) \<noteq> []" "root @ join_with ''/'' (take k segs) \<noteq> ''/''"
      by (auto simp: root_def)
    moreover from seg [of "segs ! k"] that have "plain_name (segs ! k)" "segs ! k \<noteq> []"
      by simp_all
    ultimately have "dirname ((root @ join_with ''/'' (take k segs)) @ CHR ''/'' # segs ! k)
        = root @ join_with ''/'' (take k segs)"
      by (rule dirname_file)
    with k show ?thesis by (simp add: f_def t join_with_snoc)
  qed
  have "map dirname (map f [1..<Suc (length segs)]) ! i
      = butlast ((if p \<noteq> [] \<and> hd p = CHR ''/'' then ''/'' else ''.'') # map f [1..<Suc (length segs)]) ! i"
    if "i < length segs" for i
  proof (cases i)
    case 0
    with that first show ?thesis by (simp add: nth_butlast del: upt_Suc)
  next
    case (Suc j)
    with that later [of i] show ?thesis by (auto simp: nth_butlast simp del: upt_Suc)
  qed
  then show ?thesis
    unfolding linked_def chain by (intro nth_equalityI) (simp_all del: upt_Suc)
qed

lemma mkdir_p_wf: "fs_wf t \<Longrightarrow> fs_wf (snd (mkdir_p p t))"
  unfolding mkdir_p_def by (rule mkdirs_wf [OF _ chain_linked]) (simp_all add: top_dir_def)

lemma write_file_wf:
  assumes "fs_wf t" and "write_file p c t = Inr t'"
  shows "fs_wf t'"
proof -
  from assms(2) have dir: "lookup t (dirname p) = Some Dir" and p: "lookup t p \<noteq> Some Dir"
    and t': "t' = AList.update p (File c) t"
    by (auto simp: write_file_def split: option.splits node.splits)
  note look = write_file_lookup [OF assms(2)]
  have "housed t' q" if "q = p \<or> q \<in> fst ` set t" for q
  proof -
    from that assms(1) dir have "housed t q" by (auto simp: fs_wf_iff housed_def)
    with p show ?thesis by (auto simp: housed_def look)
  qed
  with assms(1) show ?thesis
    by (auto simp: fs_wf_iff t' distinct_update dom_update)
qed

lemma mkdtemp_wf: "fs_wf t \<Longrightarrow> mkdtemp pre chosen t = Inr (p, t') \<Longrightarrow> fs_wf t'"
  by (auto simp: housed_def dest!: mkdtemp_result intro!: fs_wf_snoc)

lemma rm_rf_wf:
  assumes "fs_wf t"
  shows "fs_wf (rm_rf p t)"
proof -
  define keep where "keep q \<longleftrightarrow> q \<noteq> p \<and> \<not> prefix (p @ ''/'') q" for q
  have rm: "rm_rf p t = filter (\<lambda>x. keep (fst x)) t"
    by (simp add: rm_rf_def keep_def case_prod_unfold)
  have "housed (rm_rf p t) q" if q: "q \<in> fst ` set t" "keep q" for q
  proof (cases "top_dir (dirname q)")
    case True
    then show ?thesis by (simp add: housed_def)
  next
    case False
    with assms q(1) have d: "lookup t (dirname q) = Some Dir"
      by (auto simp: fs_wf_iff housed_def)
    from False have below: "prefix (dirname q @ ''/'') q"
      by (intro dirname_prefix) (auto simp: top_dir_def)
    then have "prefix (dirname q) q" by (auto simp: prefix_def)
    with below q(2) have "keep (dirname q)"
      unfolding keep_def by (metis prefix_order.trans)
    with d have "lookup (rm_rf p t) (dirname q) = Some Dir"
      by (simp add: rm lookup_def map_of_filter restrict_map_def)
    then show ?thesis by (simp add: housed_def)
  qed
  with assms show ?thesis
    by (auto simp: fs_wf_iff rm distinct_map_filter)
qed

lemma ex_fs_wf: "fs_wf ex_fs"
  by code_simp

section \<open>The operations store tidy paths\<close>

lemma tidy_iff: "tidy t \<longleftrightarrow> (\<forall>q \<in> fst ` set t. tidy_path q)"
  by (auto simp: tidy_def list_all_iff)

lemma chain_mem:
  assumes "q \<in> set (chain p)"
  obtains ss where "ss \<noteq> []" and "\<forall>s \<in> set ss. s \<noteq> [] \<and> plain_name s"
    and "q = join_with ''/'' ss \<or> q = CHR ''/'' # join_with ''/'' ss"
proof -
  define segs where "segs = filter (\<lambda>s. s \<noteq> []) (split_on CHR ''/'' p)"
  from assms have "q \<in> (\<lambda>k. (if p \<noteq> [] \<and> hd p = CHR ''/'' then ''/'' else [])
      @ join_with ''/'' (take k segs)) ` {1..<Suc (length segs)}"
    unfolding chain_def Let_def segs_def set_map set_upt .
  then obtain k where "k \<in> {1..<Suc (length segs)}"
    and q: "q = (if p \<noteq> [] \<and> hd p = CHR ''/'' then ''/'' else []) @ join_with ''/'' (take k segs)"
    by blast
  then have k: "0 < k" "k \<le> length segs" by simp_all
  from k have "take k segs \<noteq> []" by auto
  moreover have "\<forall>s \<in> set (take k segs). s \<noteq> [] \<and> plain_name s"
    using split_on_free [of _ "CHR ''/''" p]
    by (auto simp: segs_def plain_name_def dest!: in_set_takeD)
  moreover from q have "q = join_with ''/'' (take k segs) \<or> q = CHR ''/'' # join_with ''/'' (take k segs)"
    by (simp split: if_splits)
  ultimately show ?thesis by (rule that)
qed

lemma chain_tidy: "q \<in> set (chain p) \<Longrightarrow> tidy_path q"
proof (erule chain_mem)
  fix ss assume ss: "ss \<noteq> []" "\<forall>s \<in> set ss. s \<noteq> [] \<and> plain_name s"
    and q: "q = join_with ''/'' ss \<or> q = CHR ''/'' # join_with ''/'' ss"
  from join_with_plain_hd [OF ss] join_with_plain_last [OF ss] q show "tidy_path q"
    by (auto simp: tidy_path_def)
qed

lemma mkdirs_tidy:
  assumes "tidy t" and "\<forall>q \<in> set qs. tidy_path q"
  shows "tidy (snd (mkdirs qs t))"
proof -
  from mkdirs_prefix [of t qs] obtain u where u: "snd (mkdirs qs t) = t @ u"
    by (auto simp: prefix_def)
  with mkdirs_adds [of qs t] assms(2) have "tidy u"
    by (auto simp: tidy_def list_all_iff)
  with assms(1) show ?thesis by (simp add: u tidy_def)
qed

lemma mkdir_p_tidy: "tidy t \<Longrightarrow> tidy (snd (mkdir_p p t))"
  unfolding mkdir_p_def by (rule mkdirs_tidy) (simp_all add: chain_tidy)

lemma write_file_tidy:
  assumes "tidy t" and "tidy_path p" and "write_file p c t = Inr t'"
  shows "tidy t'"
proof -
  from assms(3) have t': "t' = AList.update p (File c) t"
    by (auto simp: write_file_def split: option.splits node.splits)
  have "tidy_path q" if "q \<in> fst ` set t'" for q
  proof -
    from that have "q \<in> {p} \<union> fst ` set t" unfolding t' dom_update .
    with assms(1,2) show ?thesis unfolding tidy_iff by blast
  qed
  then show ?thesis unfolding tidy_iff by blast
qed

lemma mkdtemp_tidy:
  "tidy t \<Longrightarrow> tidy_path (pre @ chosen) \<Longrightarrow> mkdtemp pre chosen t = Inr (p, t') \<Longrightarrow> tidy t'"
  by (auto simp: tidy_def dest!: mkdtemp_result)

lemma rm_rf_tidy: "tidy t \<Longrightarrow> tidy (rm_rf p t)"
  by (auto simp: tidy_iff rm_rf_def)

lemma rm_rf_stopped_tidy: "tidy t \<Longrightarrow> tidy (rm_rf_stopped p left t)"
  by (auto simp: tidy_iff rm_rf_stopped_def)

text \<open>What \<^verbatim>\<open>readdir\<close> lists are the last components of the paths stored in the directory.\<close>

lemma readdir_mem:
  assumes "readdir t p = Inr files" and "f \<in> set files"
  obtains q n where "(q, n) \<in> set t" and "q \<noteq> p" and "dirname q = p" and "basename q = f"
  using assms by (auto simp: readdir_def split: option.splits node.splits)

lemma stored_lookup: "fs_wf t \<Longrightarrow> (q, n) \<in> set t \<Longrightarrow> lookup t q = Some n"
  by (simp add: fs_wf_def lookup_def)

section \<open>What lies outside a directory\<close>

text \<open>
  The directories \<^verbatim>\<open>mkdir\<close> goes through for a path below a directory in normal form
  are those it goes through for the directory, followed by paths below it. So
  \<^verbatim>\<open>mkdir\<close> for such a path leaves everything outside the directory as it is, once
  the directory is there.
\<close>

lemma join_with_take_length:
  "length (join_with sep (take k ss)) \<le> length (join_with sep ss)"
proof (induction sep ss arbitrary: k rule: join_with.induct)
  case (3 sep s t ss)
  show ?case
  proof (cases k)
    case (Suc j)
    with 3 [of j] show ?thesis by (cases j) simp_all
  qed simp
qed (simp_all add: take_Cons split: nat.splits)

lemma chain_set:
  assumes "d \<noteq> []"
  shows "set (chain d) =
     (\<lambda>k. (if hd d = CHR ''/'' then ''/'' else [])
            @ join_with ''/'' (take k (filter (\<lambda>s. s \<noteq> []) (split_on CHR ''/'' d))))
       ` {1..<Suc (length (filter (\<lambda>s. s \<noteq> []) (split_on CHR ''/'' d)))}"
  using assms unfolding chain_def Let_def set_map set_upt by simp

lemma chain_not_below:
  assumes "normal_dir d" and "q \<in> set (chain d)"
  shows "\<not> prefix (d @ ''/'') q"
proof -
  from assms(1) obtain segs where segs: "filter (\<lambda>s. s \<noteq> []) (split_on CHR ''/'' d) = segs"
    and d: "d = (if hd d = CHR ''/'' then ''/'' else []) @ join_with ''/'' segs"
    by (rule normal_dir_segments)
  from assms(2) obtain k where
    "q = (if hd d = CHR ''/'' then ''/'' else []) @ join_with ''/'' (take k segs)"
    unfolding chain_set [OF normal_dir_nonempty [OF assms(1)]] segs by blast
  with join_with_take_length [of "''/''" k segs] have "length q \<le> length d"
    by (subst d) simp
  then show ?thesis by (auto simp: prefix_def)
qed

lemma chain_below:
  assumes "normal_dir d" and "q \<in> set (chain (d @ CHR ''/'' # rest))"
  shows "q \<in> set (chain d) \<or> prefix (d @ ''/'') q"
proof -
  from assms(1) obtain segs where ne: "segs \<noteq> []"
    and segs: "filter (\<lambda>s. s \<noteq> []) (split_on CHR ''/'' d) = segs"
    and d: "d = (if hd d = CHR ''/'' then ''/'' else []) @ join_with ''/'' segs"
    by (rule normal_dir_segments)
  define root where "root = (if hd d = CHR ''/'' then ''/'' else [])"
  define r where "r = filter (\<lambda>s. s \<noteq> []) (split_on CHR ''/'' rest)"
  from assms(1) have dne: "d \<noteq> []" by (rule normal_dir_nonempty)
  have all: "filter (\<lambda>s. s \<noteq> []) (split_on CHR ''/'' (d @ CHR ''/'' # rest)) = segs @ r"
    by (simp add: split_on_app segs r_def)
  from dne have hd: "hd (d @ CHR ''/'' # rest) = hd d" by simp
  have pne: "d @ CHR ''/'' # rest \<noteq> []" by simp
  from assms(2) obtain k where "k \<in> {1..<Suc (length (segs @ r))}"
    and q: "q = root @ join_with ''/'' (take k (segs @ r))"
    unfolding chain_set [OF pne] all hd root_def [symmetric] by blast
  then have k: "0 < k" "k \<le> length (segs @ r)" by simp_all
  show ?thesis
  proof (cases "k \<le> length segs")
    case True
    with q have "q = root @ join_with ''/'' (take k segs)" by simp
    moreover from True k(1) have "k \<in> {1..<Suc (length segs)}" by simp
    ultimately have "q \<in> set (chain d)"
      unfolding chain_set [OF dne] segs root_def [symmetric] by (rule image_eqI)
    then show ?thesis ..
  next
    case False
    define xs where "xs = take (k - length segs) r"
    from False k(2) have "xs \<noteq> []" by (auto simp: xs_def)
    with ne have "join_with ''/'' (segs @ xs) = join_with ''/'' segs @ ''/'' @ join_with ''/'' xs"
      by (rule join_with_append)
    with False q have "q = (root @ join_with ''/'' segs) @ ''/'' @ join_with ''/'' xs"
      by (simp add: xs_def)
    also have "root @ join_with ''/'' segs = d" unfolding root_def by (rule d [symmetric])
    finally have "prefix (d @ ''/'') q" by simp
    then show ?thesis ..
  qed
qed

lemma mkdirs_frame:
  "q \<notin> set qs \<or> lookup t q = Some Dir \<Longrightarrow> lookup (snd (mkdirs qs t)) q = lookup t q"
proof (induction qs arbitrary: t)
  case (Cons a qs)
  show ?case
  proof (cases "lookup t a")
    case None
    from Cons.prems None have same: "lookup (t @ [(a, Dir)]) q = lookup t q"
      by (cases "q = a") (auto simp: lookup_snoc_other)
    with Cons.prems have "q \<notin> set qs \<or> lookup (t @ [(a, Dir)]) q = Some Dir" by auto
    from Cons.IH [OF this] None same show ?thesis by simp
  next
    case (Some n)
    with Cons.prems Cons.IH [of t] show ?thesis by (cases n) auto
  qed
qed simp

lemma mkdir_p_frame:
  assumes "normal_dir d" and "dirs_exist t d" and "\<not> prefix (d @ ''/'') q"
    and "p = d \<or> (\<exists>rest. p = d @ CHR ''/'' # rest)"
  shows "lookup (snd (mkdir_p p t)) q = lookup t q"
proof -
  have "q \<notin> set (chain p) \<or> lookup t q = Some Dir"
  proof (cases "q \<in> set (chain p)")
    case True
    with assms(1,3,4) have "q \<in> set (chain d)" by (auto dest: chain_below)
    with assms(2) show ?thesis by (simp add: dirs_exist_def list_all_iff)
  qed simp
  then show ?thesis unfolding mkdir_p_def by (rule mkdirs_frame)
qed

text \<open>A directory stays, with the directories above it, when nothing outside it changes.\<close>

lemma dirs_exist_frame:
  assumes "normal_dir d" and "dirs_exist t d"
    and "\<And>q. \<not> prefix (d @ ''/'') q \<Longrightarrow> lookup t' q = lookup t q"
  shows "dirs_exist t' d"
proof -
  have "\<not> prefix (d @ ''/'') d" by (auto simp: prefix_def)
  with assms(2,3) have "lookup t' d = Some Dir" by (simp add: dirs_exist_def)
  moreover have "lookup t' q = Some Dir" if "q \<in> set (chain d)" for q
    using chain_not_below [OF assms(1) that] assms(2,3) that
    by (simp add: dirs_exist_def list_all_iff)
  ultimately show ?thesis by (simp add: dirs_exist_def list_all_iff)
qed

end
