(* ===== verification/GS_Archive.thy ===== *)
theory GS_Archive
  imports GS_Files
begin

text \<open>
  The first two stages of \<^verbatim>\<open>src/index.js\<close>: \<^verbatim>\<open>download\<close> (lines 12 to 18) fetches the
  export of the spreadsheet into a fresh temporary directory, and \<^verbatim>\<open>unzip\<close> (lines 20
  to 43) extracts the archive into a second one, closes the archive whatever
  happens, and removes the first directory when the extraction succeeded.

  What the network and the zip library answer is read from the environment \<open>net\<close>:
  the body of the response, the names \<^verbatim>\<open>mkdtemp\<close> chooses, the entries the library
  finds in a file, whether closing the archive succeeds, and whether the removal of
  line 41 does. Both functions run from
  start to end without interleaving with other code of the program, so each is a
  function from the file system to a result and the file system it leaves behind,
  also when it fails. The lemmas show what a successful extraction stores and
  where, what a failed fetch leaves behind, what the two stages together do for an
  archive of files without directories, that entries with safe names change nothing
  outside the extracted directory, and what happens when the name of the
  spreadsheet starts with \<^verbatim>\<open>../\<close>.
\<close>

section \<open>The network and the archive\<close>

record entry =
  filename :: string
  data :: "string option"

record net =
  tmpdir :: string
  suffix_z :: string
  suffix_x :: string
  fetch_body :: "string option"
  zip_of :: "string \<Rightarrow> entry list option"
  zip_close_ok :: bool
  rm_zip :: "string list option"

section \<open>download\<close>

definition download :: "net \<Rightarrow> string \<Rightarrow> fs \<Rightarrow> (io_error + string) \<times> fs" where
  "download N sheetID t =
     (case mkdtemp (join [tmpdir N, ''gs2imgz-'']) (suffix_z N) t of
        Inl e \<Rightarrow> (Inl e, t)
      | Inr (dir, t1) \<Rightarrow>
          let zipPath = join [dir, sheetID @ ''.zip'']
          in (case fetch_body N of
                None \<Rightarrow> (Inl FetchError, t1)
              | Some body \<Rightarrow>
                  (case write_file zipPath body t1 of
                     Inl e \<Rightarrow> (Inl e, t1)
                   | Inr t2 \<Rightarrow> (Inr zipPath, t2))))"

section \<open>unzip\<close>

definition endsWith_slash :: "string \<Rightarrow> bool" where
  "endsWith_slash f \<longleftrightarrow> f \<noteq> [] \<and> last f = CHR ''/''"

definition targetPath :: "string \<Rightarrow> entry \<Rightarrow> string" where
  "targetPath extractedDir e = join [extractedDir, filename e]"

text \<open>The body of the loop for one entry: a directory is created, a file is read and written.\<close>

definition unzip_entry :: "string \<Rightarrow> entry \<Rightarrow> fs \<Rightarrow> io_error option \<times> fs" where
  "unzip_entry extractedDir e t =
     (if endsWith_slash (filename e) then mkdir_p (targetPath extractedDir e) t
      else (case data e of
              None \<Rightarrow> (Some ReadError, t)
            | Some readStream \<Rightarrow>
                (case mkdir_p (dirname (targetPath extractedDir e)) t of
                   (Some err, t1) \<Rightarrow> (Some err, t1)
                 | (None, t1) \<Rightarrow>
                     (case write_file (targetPath extractedDir e) readStream t1 of
                        Inl err \<Rightarrow> (Some err, t1)
                      | Inr t2 \<Rightarrow> (None, t2)))))"

text \<open>The loop over the entries; it ends at the first entry that fails.\<close>

fun unzip_entries :: "string \<Rightarrow> entry list \<Rightarrow> fs \<Rightarrow> io_error option \<times> fs" where
  "unzip_entries extractedDir [] t = (None, t)"
| "unzip_entries extractedDir (e # es) t =
     (case unzip_entry extractedDir e t of
        (Some err, t1) \<Rightarrow> (Some err, t1)
      | (None, t1) \<Rightarrow> unzip_entries extractedDir es t1)"

definition open_zip :: "net \<Rightarrow> fs \<Rightarrow> string \<Rightarrow> entry list option" where
  "open_zip N t zipPath =
     (case lookup t zipPath of Some (File bytes) \<Rightarrow> zip_of N bytes | _ \<Rightarrow> None)"

text \<open>
  \<^verbatim>\<open>unzip\<close>: the archive is closed after the loop whether it failed or not, and an
  error of closing replaces the error of the loop. The directory of the archive is
  removed only when both succeeded. The removal can fail as well (\<open>rm_zip\<close> names
  what it has left in that case); \<^verbatim>\<open>unzip\<close> then fails after the extraction, with part
  of the directory removed.
\<close>

definition unzip :: "net \<Rightarrow> string \<Rightarrow> fs \<Rightarrow> (io_error + string) \<times> fs" where
  "unzip N zipPath t =
     (case mkdtemp (join [tmpdir N, ''gs2imgx-'']) (suffix_x N) t of
        Inl e \<Rightarrow> (Inl e, t)
      | Inr (extractedDir, t1) \<Rightarrow>
          (case open_zip N t1 zipPath of
             None \<Rightarrow> (Inl OpenError, t1)
           | Some entries \<Rightarrow>
               (case unzip_entries extractedDir entries t1 of
                  (failure, t2) \<Rightarrow>
                    if \<not> zip_close_ok N then (Inl CloseError, t2)
                    else (case failure of
                            Some e \<Rightarrow> (Inl e, t2)
                          | None \<Rightarrow>
                              (case rm_zip N of
                                 Some left \<Rightarrow> (Inl RmError, rm_rf_stopped (dirname zipPath) left t2)
                               | None \<Rightarrow> (Inr extractedDir, rm_rf (dirname zipPath) t2))))))"

text \<open>The two stages in sequence, as the promise chain of lines 74 and 75 runs them.\<close>

definition fetch_archive :: "net \<Rightarrow> string \<Rightarrow> fs \<Rightarrow> (io_error + string) \<times> fs" where
  "fetch_archive N sheetID t =
     (case download N sheetID t of
        (Inl e, t1) \<Rightarrow> (Inl e, t1)
      | (Inr zipPath, t1) \<Rightarrow> unzip N zipPath t1)"

section \<open>Archives of files\<close>

text \<open>
  An archive is flat when its entries are files with different names, none in a
  directory. For such an archive the extraction is described by \<open>extracted_files\<close>:
  one file per entry, in the order of the archive. \<open>is_file\<close> tells the entries
  that are files from those that are directories, as the loop does.
\<close>

definition flat :: "entry list \<Rightarrow> bool" where
  "flat es \<longleftrightarrow>
     distinct (map filename es) \<and> list_all (\<lambda>e. ordinary (filename e) \<and> data e \<noteq> None) es"

definition extracted_files :: "string \<Rightarrow> entry list \<Rightarrow> fs" where
  "extracted_files dir es = map (\<lambda>e. (dir @ CHR ''/'' # filename e, File (the (data e)))) es"

definition is_file :: "entry \<Rightarrow> bool" where
  "is_file e \<longleftrightarrow> \<not> endsWith_slash (filename e)"

text \<open>The two temporary directories, as \<^verbatim>\<open>mkdtemp\<close> names them.\<close>

definition zip_dir :: "net \<Rightarrow> string" where
  "zip_dir N = join [tmpdir N, ''gs2imgz-''] @ suffix_z N"

definition extract_dir :: "net \<Rightarrow> string" where
  "extract_dir N = join [tmpdir N, ''gs2imgx-''] @ suffix_x N"

text \<open>
  \<open>serves\<close>: the server answers with an archive in which the zip library finds the
  given entries. \<open>start_ok\<close>: the file system the program starts on is a tidy tree,
  the names \<^verbatim>\<open>mkdtemp\<close> chooses give directories in normal form, nothing is stored
  yet where the archive will be extracted, and the name of the spreadsheet is a
  plain file name.
\<close>

definition serves :: "net \<Rightarrow> entry list \<Rightarrow> bool" where
  "serves N es \<longleftrightarrow> (case fetch_body N of None \<Rightarrow> False | Some body \<Rightarrow> zip_of N body = Some es)"

definition start_ok :: "net \<Rightarrow> string \<Rightarrow> fs \<Rightarrow> bool" where
  "start_ok N sheetID t \<longleftrightarrow>
     fs_wf t \<and> tidy t \<and> normal_dir (zip_dir N) \<and> normal_dir (extract_dir N)
     \<and> ordinary (sheetID @ ''.zip'') \<and> vacant t (extract_dir N)"

text \<open>
  \<open>fetch_ready\<close>: what a fetch needs to go well. The temporary directory is there,
  nothing is stored at the two names \<^verbatim>\<open>mkdtemp\<close> chooses, the name of the spreadsheet
  is a plain file name, the server answers with an archive the library can read, the
  archive is flat, and closing it and removing its directory succeed.
\<close>

definition fetch_ready :: "net \<Rightarrow> string \<Rightarrow> fs \<Rightarrow> entry list \<Rightarrow> bool" where
  "fetch_ready N sheetID t es \<longleftrightarrow>
     normal_dir (zip_dir N) \<and> normal_dir (extract_dir N) \<and> ordinary (sheetID @ ''.zip'')
     \<and> lookup t (dirname (zip_dir N)) = Some Dir
     \<and> lookup t (dirname (extract_dir N)) = Some Dir \<and> above_exist t (extract_dir N)
     \<and> vacant t (zip_dir N) \<and> vacant t (extract_dir N)
     \<and> serves N es \<and> flat es \<and> zip_close_ok N \<and> rm_zip N = None"

lemmas archive_defs [gs_defs] =
  download_def endsWith_slash_def targetPath_def unzip_entry_def open_zip_def unzip_def
  fetch_archive_def

section \<open>Archives to try the definitions on\<close>

definition ex_entries :: "entry list" where
  "ex_entries =
     [\<lparr>filename = ''A.html'', data = Some ''<a>''\<rparr>,
      \<lparr>filename = ''resources/'', data = None\<rparr>,
      \<lparr>filename = ''resources/sheet.css'', data = Some ''css''\<rparr>,
      \<lparr>filename = ''B.html'', data = Some ''<b>''\<rparr>]"

definition ex_net :: net where
  "ex_net =
     \<lparr> tmpdir = ''/tmp'', suffix_z = ''z1'', suffix_x = ''x1'', fetch_body = Some ''PK'',
       zip_of = (\<lambda>bytes. if bytes = ''PK'' then Some ex_entries else None),
       zip_close_ok = True, rm_zip = None \<rparr>"

definition ex_flat :: "entry list" where
  "ex_flat =
     [\<lparr>filename = ''A.html'', data = Some ''<a>''\<rparr>,
      \<lparr>filename = ''B.html'', data = Some ''<b>''\<rparr>,
      \<lparr>filename = ''notes.txt'', data = Some ''n''\<rparr>]"

definition ex_net_flat :: net where
  "ex_net_flat = ex_net\<lparr>zip_of := (\<lambda>bytes. if bytes = ''PK'' then Some ex_flat else None)\<rparr>"

definition ex_net_unreadable :: net where
  "ex_net_unreadable =
     ex_net\<lparr>zip_of := (\<lambda>bytes. Some [\<lparr>filename = ''A.html'', data = Some ''<a>''\<rparr>,
                                     \<lparr>filename = ''B.html'', data = None\<rparr>])\<rparr>"

section \<open>Both stages keep the file system well formed\<close>

lemma unzip_entry_wf:
  assumes "fs_wf t"
  shows "fs_wf (snd (unzip_entry dir e t))"
proof (cases "endsWith_slash (filename e)")
  case True
  with assms show ?thesis by (simp add: unzip_entry_def mkdir_p_wf)
next
  case False
  let ?m = "mkdir_p (dirname (targetPath dir e)) t"
  from assms have m: "fs_wf (snd ?m)" by (rule mkdir_p_wf)
  show ?thesis
  proof (cases "data e")
    case None
    with False assms show ?thesis by (simp add: unzip_entry_def)
  next
    case (Some c)
    with False m write_file_wf [OF m, of "targetPath dir e" c] show ?thesis
      by (cases ?m) (auto simp: unzip_entry_def split: option.splits sum.splits)
  qed
qed

lemma unzip_entries_wf: "fs_wf t \<Longrightarrow> fs_wf (snd (unzip_entries dir es t))"
proof (induction es arbitrary: t)
  case (Cons e es)
  from Cons.prems have "fs_wf (snd (unzip_entry dir e t))" by (rule unzip_entry_wf)
  with Cons.IH [of "snd (unzip_entry dir e t)"] show ?case
    by (cases "unzip_entry dir e t") (auto split: option.splits)
qed simp

lemma download_wf:
  assumes "fs_wf t"
  shows "fs_wf (snd (download N sheetID t))"
proof (cases "mkdtemp (join [tmpdir N, ''gs2imgz-'']) (suffix_z N) t")
  case (Inl e)
  with assms show ?thesis by (simp add: download_def)
next
  case (Inr r)
  obtain dir t1 where r: "r = (dir, t1)" by (cases r)
  from assms Inr have "fs_wf t1" unfolding r by (rule mkdtemp_wf)
  with Inr r write_file_wf [of t1] show ?thesis
    by (auto simp: download_def Let_def split: option.splits sum.splits)
qed

lemma unzip_wf:
  assumes "fs_wf t" and "rm_zip N = None"
  shows "fs_wf (snd (unzip N zipPath t))"
proof (cases "mkdtemp (join [tmpdir N, ''gs2imgx-'']) (suffix_x N) t")
  case (Inl e)
  with assms show ?thesis by (simp add: unzip_def)
next
  case (Inr r)
  obtain dir t1 where r: "r = (dir, t1)" by (cases r)
  from assms(1) Inr have t1: "fs_wf t1" unfolding r by (rule mkdtemp_wf)
  show ?thesis
  proof (cases "open_zip N t1 zipPath")
    case None
    with Inr r t1 show ?thesis by (simp add: unzip_def)
  next
    case (Some es)
    from t1 have "fs_wf (snd (unzip_entries dir es t1))" by (rule unzip_entries_wf)
    with Inr r Some assms(2) show ?thesis
      by (cases "unzip_entries dir es t1") (auto simp: unzip_def rm_rf_wf split: option.splits)
  qed
qed

section \<open>What an extraction stores\<close>

lemma mkdir_p_persist: "lookup t q = Some n \<Longrightarrow> lookup (snd (mkdir_p p t)) q = Some n"
  unfolding mkdir_p_def using mkdirs_prefix by (rule lookup_prefix)

lemma mkdir_p_files:
  "lookup (snd (mkdir_p p t)) q = Some (File c) \<Longrightarrow> lookup t q = Some (File c)"
  unfolding mkdir_p_def by (rule mkdirs_files)

text \<open>
  One entry: what was stored stays, as a directory or as a file; a file other than
  the one the entry is written to keeps its content; and the file of the entry
  holds its data afterwards.
\<close>

lemma unzip_entry_cases:
  obtains (dir) "endsWith_slash (filename e)"
      "unzip_entry dir e t = mkdir_p (targetPath dir e) t"
    | (unread) "\<not> endsWith_slash (filename e)" "data e = None"
      "unzip_entry dir e t = (Some ReadError, t)"
    | (no_dir) c err where "\<not> endsWith_slash (filename e)" "data e = Some c"
      "fst (mkdir_p (dirname (targetPath dir e)) t) = Some err"
      "unzip_entry dir e t = mkdir_p (dirname (targetPath dir e)) t"
    | (no_file) c err where "\<not> endsWith_slash (filename e)" "data e = Some c"
      "fst (mkdir_p (dirname (targetPath dir e)) t) = None"
      "write_file (targetPath dir e) c (snd (mkdir_p (dirname (targetPath dir e)) t)) = Inl err"
      "unzip_entry dir e t = (Some err, snd (mkdir_p (dirname (targetPath dir e)) t))"
    | (written) c t2 where "\<not> endsWith_slash (filename e)" "data e = Some c"
      "fst (mkdir_p (dirname (targetPath dir e)) t) = None"
      "write_file (targetPath dir e) c (snd (mkdir_p (dirname (targetPath dir e)) t)) = Inr t2"
      "unzip_entry dir e t = (None, t2)"
proof (cases "endsWith_slash (filename e)")
  case True
  then show ?thesis by (intro dir) (simp_all add: unzip_entry_def)
next
  case False
  show ?thesis
  proof (cases "data e")
    case None
    with False show ?thesis by (intro unread) (simp_all add: unzip_entry_def)
  next
    case (Some c)
    obtain r t1 where m: "mkdir_p (dirname (targetPath dir e)) t = (r, t1)"
      by (cases "mkdir_p (dirname (targetPath dir e)) t")
    show ?thesis
    proof (cases r)
      case (Some err)
      with False \<open>data e = Some c\<close> m show ?thesis
        by (intro no_dir [of c err]) (simp_all add: unzip_entry_def)
    next
      case None
      show ?thesis
      proof (cases "write_file (targetPath dir e) c t1")
        case (Inl err)
        with False \<open>data e = Some c\<close> m None show ?thesis
          by (intro no_file [of c err]) (simp_all add: unzip_entry_def)
      next
        case (Inr t2)
        with False \<open>data e = Some c\<close> m None show ?thesis
          by (intro written [of c t2]) (simp_all add: unzip_entry_def)
      qed
    qed
  qed
qed

lemma unzip_entry_persists: "persists t (snd (unzip_entry dir e t))"
proof (cases rule: unzip_entry_cases [of e dir t])
  case (written c t2)
  from mkdir_p_persists write_file_persists [OF written(4)] have "persists t t2"
    by (rule persists_trans)
  with written(5) show ?thesis by simp
qed (simp_all add: mkdir_p_persists)

lemma unzip_entry_keeps_file:
  assumes "lookup t q = Some (File c)" and "is_file e \<Longrightarrow> targetPath dir e \<noteq> q"
  shows "lookup (snd (unzip_entry dir e t)) q = Some (File c)"
proof (cases rule: unzip_entry_cases [of e dir t])
  case (written c' t2)
  from assms(1) have "lookup (snd (mkdir_p (dirname (targetPath dir e)) t)) q = Some (File c)"
    by (rule mkdir_p_persist)
  with write_file_lookup [OF written(4), of q] assms(2) written(1,5)
  show ?thesis by (simp add: is_file_def)
qed (use assms(1) in \<open>simp_all add: mkdir_p_persist\<close>)

lemma unzip_entry_writes:
  assumes "fst (unzip_entry dir e t) = None" and "is_file e"
  shows "lookup (snd (unzip_entry dir e t)) (targetPath dir e) = Some (File (the (data e)))"
proof (cases rule: unzip_entry_cases [of e dir t])
  case (written c t2)
  with write_file_lookup [OF written(4), of "targetPath dir e"] show ?thesis by simp
qed (use assms in \<open>simp_all add: is_file_def\<close>)

lemma unzip_entries_persists: "persists t (snd (unzip_entries dir es t))"
proof (induction es arbitrary: t)
  case (Cons e es)
  obtain r t1 where u: "unzip_entry dir e t = (r, t1)" by (cases "unzip_entry dir e t")
  with unzip_entry_persists [of t dir e] have "persists t t1" by simp
  with Cons [of t1] u show ?case
    by (cases r) (auto intro: persists_trans)
qed simp

lemma unzip_entries_keeps_file:
  "lookup t q = Some (File c) \<Longrightarrow> \<forall>e \<in> set es. is_file e \<longrightarrow> targetPath dir e \<noteq> q \<Longrightarrow>
     lookup (snd (unzip_entries dir es t)) q = Some (File c)"
proof (induction es arbitrary: t)
  case (Cons e es)
  obtain r t1 where u: "unzip_entry dir e t = (r, t1)" by (cases "unzip_entry dir e t")
  from Cons.prems have "lookup (snd (unzip_entry dir e t)) q = Some (File c)"
    by (intro unzip_entry_keeps_file) simp_all
  with u Cons.prems(2) Cons.IH [of t1] show ?case
    by (cases r) simp_all
qed simp

lemma unzip_entries_writes:
  assumes "fst (unzip_entries dir es t) = None" and "e \<in> set es" and "is_file e"
    and "distinct (map (targetPath dir) (filter is_file es))"
  shows "lookup (snd (unzip_entries dir es t)) (targetPath dir e) = Some (File (the (data e)))"
  using assms
proof (induction es arbitrary: t)
  case (Cons a es)
  obtain r t1 where u: "unzip_entry dir a t = (r, t1)" by (cases "unzip_entry dir a t")
  with Cons.prems(1) have r: "r = None" by (cases r) simp_all
  with u Cons.prems(1) have rest: "fst (unzip_entries dir es t1) = None" by simp
  show ?case
  proof (cases "e \<in> set es")
    case True
    from Cons.prems(4) have "distinct (map (targetPath dir) (filter is_file es))"
      by (simp split: if_splits)
    with True Cons.prems(3) rest
    have "lookup (snd (unzip_entries dir es t1)) (targetPath dir e) = Some (File (the (data e)))"
      by (intro Cons.IH)
    with u r show ?thesis by simp
  next
    case False
    with Cons.prems(2) have a: "a = e" by simp
    from unzip_entry_writes [of dir e t] u r Cons.prems(3)
    have "lookup t1 (targetPath dir e) = Some (File (the (data e)))" by (simp add: a)
    moreover from Cons.prems(3,4)
    have "targetPath dir e \<notin> targetPath dir ` {x \<in> set es. is_file x}"
      by (simp add: a)
    then have "\<forall>e' \<in> set es. is_file e' \<longrightarrow> targetPath dir e' \<noteq> targetPath dir e"
      by (metis (mono_tags, lifting) imageI mem_Collect_eq)
    ultimately have "lookup (snd (unzip_entries dir es t1)) (targetPath dir e)
        = Some (File (the (data e)))"
      by (rule unzip_entries_keeps_file)
    with u r show ?thesis by simp
  qed
qed simp

text \<open>A file that is there after the loop was there before, or is the file of an entry.\<close>

lemma unzip_entry_origin:
  assumes "lookup (snd (unzip_entry dir e t)) q = Some (File c)"
  shows "lookup t q = Some (File c) \<or> (is_file e \<and> targetPath dir e = q \<and> data e = Some c)"
proof (cases rule: unzip_entry_cases [of e dir t])
  case (written c' t2)
  with assms write_file_lookup [OF written(4), of q] show ?thesis
    by (auto simp: is_file_def dest: mkdir_p_files split: if_splits)
qed (use assms in \<open>auto dest: mkdir_p_files\<close>)

lemma unzip_entries_origin:
  "lookup (snd (unzip_entries dir es t)) q = Some (File c) \<Longrightarrow>
     lookup t q = Some (File c)
     \<or> (\<exists>e \<in> set es. is_file e \<and> targetPath dir e = q \<and> data e = Some c)"
proof (induction es arbitrary: t)
  case (Cons e es)
  obtain r t1 where u: "unzip_entry dir e t = (r, t1)" by (cases "unzip_entry dir e t")
  show ?case
  proof (cases r)
    case None
    with Cons.prems u have "lookup (snd (unzip_entries dir es t1)) q = Some (File c)" by simp
    from Cons.IH [OF this] unzip_entry_origin [of dir e t q c] u show ?thesis by auto
  next
    case (Some err)
    with Cons.prems u unzip_entry_origin [of dir e t q c] show ?thesis by auto
  qed
qed simp

section \<open>The stages store tidy paths\<close>

lemma targetPath_tidy: "is_file e \<Longrightarrow> normal_dir dir \<Longrightarrow> tidy_path (targetPath dir e)"
  unfolding targetPath_def
  by (rule join_tidy) (auto simp: is_file_def endsWith_slash_def normal_dir_def)

lemma unzip_entry_tidy:
  assumes "tidy t" and "normal_dir dir"
  shows "tidy (snd (unzip_entry dir e t))"
proof (cases rule: unzip_entry_cases [of e dir t])
  case (written c t2)
  from written(1) assms(2) have "tidy_path (targetPath dir e)"
    by (intro targetPath_tidy) (simp add: is_file_def)
  with mkdir_p_tidy [OF assms(1)] have "tidy t2" using written(4) by (rule write_file_tidy)
  with written(5) show ?thesis by simp
qed (use assms(1) in \<open>simp_all add: mkdir_p_tidy\<close>)

lemma unzip_entries_tidy: "tidy t \<Longrightarrow> normal_dir dir \<Longrightarrow> tidy (snd (unzip_entries dir es t))"
proof (induction es arbitrary: t)
  case (Cons e es)
  obtain r t1 where u: "unzip_entry dir e t = (r, t1)" by (cases "unzip_entry dir e t")
  with unzip_entry_tidy [OF Cons.prems, of e] have "tidy t1" by simp
  with Cons.IH [of t1] Cons.prems(2) u show ?case
    by (cases r) simp_all
qed simp

lemma normal_dir_tidy: "normal_dir d \<Longrightarrow> tidy_path d"
  by (auto simp: tidy_path_def normal_dir_def dest: normal_dir_nonempty)

lemma download_tidy:
  assumes "tidy t" and "normal_dir (zip_dir N)"
  shows "tidy (snd (download N sheetID t))"
proof (cases "mkdtemp (join [tmpdir N, ''gs2imgz-'']) (suffix_z N) t")
  case (Inl e)
  with assms show ?thesis by (simp add: download_def)
next
  case (Inr r)
  obtain dir t1 where r: "r = (dir, t1)" by (cases r)
  from assms(2) have "tidy_path (join [tmpdir N, ''gs2imgz-''] @ suffix_z N)"
    unfolding zip_dir_def by (rule normal_dir_tidy)
  with assms(1) have t1: "tidy t1" using Inr unfolding r by (rule mkdtemp_tidy)
  have "tidy_path (join [dir, sheetID @ ''.zip''])"
    by (rule join_tidy) simp_all
  with t1 have "tidy t2" if "write_file (join [dir, sheetID @ ''.zip'']) body t1 = Inr t2" for body t2
    using that by (rule write_file_tidy)
  with Inr r t1 show ?thesis
    by (auto simp: download_def Let_def split: option.splits sum.splits)
qed

lemma unzip_tidy:
  assumes "tidy t" and "normal_dir (extract_dir N)"
  shows "tidy (snd (unzip N zipPath t))"
proof (cases "mkdtemp (join [tmpdir N, ''gs2imgx-'']) (suffix_x N) t")
  case (Inl e)
  with assms show ?thesis by (simp add: unzip_def)
next
  case (Inr r)
  obtain dir t1 where r: "r = (dir, t1)" by (cases r)
  from Inr r have dir: "dir = extract_dir N"
    by (auto simp: extract_dir_def dest: mkdtemp_result)
  from assms(2) have "tidy_path (join [tmpdir N, ''gs2imgx-''] @ suffix_x N)"
    unfolding extract_dir_def by (rule normal_dir_tidy)
  with assms(1) have t1: "tidy t1" using Inr unfolding r by (rule mkdtemp_tidy)
  show ?thesis
  proof (cases "open_zip N t1 zipPath")
    case None
    with Inr r t1 show ?thesis by (simp add: unzip_def)
  next
    case (Some es)
    from t1 assms(2) have "tidy (snd (unzip_entries dir es t1))"
      unfolding dir by (rule unzip_entries_tidy)
    with Inr r Some show ?thesis
      by (cases "unzip_entries dir es t1")
        (auto simp: unzip_def rm_rf_tidy rm_rf_stopped_tidy split: option.splits)
  qed
qed

section \<open>What a successful stage has done\<close>

lemma download_success:
  assumes "download N sheetID t = (Inr zipPath, t2)"
  obtains t1 body where "mkdtemp (join [tmpdir N, ''gs2imgz-'']) (suffix_z N) t = Inr (zip_dir N, t1)"
    and "fetch_body N = Some body" and "zipPath = join [zip_dir N, sheetID @ ''.zip'']"
    and "write_file zipPath body t1 = Inr t2"
proof (cases "mkdtemp (join [tmpdir N, ''gs2imgz-'']) (suffix_z N) t")
  case (Inl e)
  with assms show ?thesis by (simp add: download_def)
next
  case (Inr r)
  obtain dir t1 where r: "r = (dir, t1)" by (cases r)
  from Inr r have dir: "dir = zip_dir N"
    by (auto simp: zip_dir_def dest: mkdtemp_result)
  from assms Inr r obtain body where "fetch_body N = Some body"
    and "zipPath = join [dir, sheetID @ ''.zip'']" and "write_file zipPath body t1 = Inr t2"
    by (auto simp: download_def Let_def split: option.splits sum.splits)
  with Inr r dir show ?thesis by (intro that [of t1 body]) simp_all
qed

lemma unzip_success:
  assumes "unzip N zipPath t = (Inr dir, t')"
  obtains t1 es t2 where "mkdtemp (join [tmpdir N, ''gs2imgx-'']) (suffix_x N) t = Inr (dir, t1)"
    and "dir = extract_dir N" and "open_zip N t1 zipPath = Some es"
    and "unzip_entries dir es t1 = (None, t2)" and "t' = rm_rf (dirname zipPath) t2"
    and "rm_zip N = None"
proof (cases "mkdtemp (join [tmpdir N, ''gs2imgx-'']) (suffix_x N) t")
  case (Inl e)
  with assms show ?thesis by (simp add: unzip_def)
next
  case (Inr r)
  obtain x t1 where r: "r = (x, t1)" by (cases r)
  from Inr r have x: "x = extract_dir N"
    by (auto simp: extract_dir_def dest: mkdtemp_result)
  from assms Inr r obtain es where es: "open_zip N t1 zipPath = Some es"
    by (cases "open_zip N t1 zipPath") (simp_all add: unzip_def)
  obtain f t2 where l: "unzip_entries x es t1 = (f, t2)" by (cases "unzip_entries x es t1")
  with assms Inr r es have "f = None" "dir = x" "t' = rm_rf (dirname zipPath) t2" "rm_zip N = None"
    by (auto simp: unzip_def split: if_splits option.splits)
  with Inr r x es l show ?thesis by (intro that [of t1 es t2]) simp_all
qed

section \<open>The extraction of a flat archive\<close>

lemma targetPath_flat:
  "normal_dir dir \<Longrightarrow> ordinary (filename e) \<Longrightarrow> targetPath dir e = dir @ CHR ''/'' # filename e"
  unfolding targetPath_def by (rule join_normal)

lemma unzip_entry_file:
  assumes "normal_dir dir" and "ordinary (filename e)" and "data e = Some c"
    and "dirs_exist t dir" and "lookup t (dir @ CHR ''/'' # filename e) = None"
  shows "unzip_entry dir e t = (None, t @ [(dir @ CHR ''/'' # filename e, File c)])"
proof -
  from assms(2) have f: "plain_name (filename e)" "filename e \<noteq> []" "\<not> endsWith_slash (filename e)"
    by (auto simp: ordinary_def endsWith_slash_def plain_name_def dest: last_in_set)
  from assms(1) have d: "dir \<noteq> []" "dir \<noteq> ''/''"
    by (auto simp: normal_dir_def dest: normal_dir_nonempty)
  have parent: "dirname (dir @ CHR ''/'' # filename e) = dir"
    using d f(1,2) by (rule dirname_file)
  from assms(4) have "lookup t dir = Some Dir" by (simp add: dirs_exist_def)
  with assms(3,4,5) f(3) show ?thesis
    by (simp add: unzip_entry_def targetPath_flat [OF assms(1,2)] parent mkdir_p_existing
        write_file_fresh)
qed

lemma unzip_entries_flat:
  assumes "normal_dir dir" and "flat es" and "dirs_exist t dir"
    and "\<forall>e \<in> set es. lookup t (dir @ CHR ''/'' # filename e) = None"
  shows "unzip_entries dir es t = (None, t @ extracted_files dir es)"
  using assms(2-4)
proof (induction es arbitrary: t)
  case Nil
  show ?case by (simp add: extracted_files_def)
next
  case (Cons e es)
  from Cons.prems(1) obtain c where e: "ordinary (filename e)" "data e = Some c"
    and rest: "flat es" and new: "filename e \<notin> filename ` set es"
    by (auto simp: flat_def)
  let ?t1 = "t @ [(dir @ CHR ''/'' # filename e, File c)]"
  have step: "unzip_entry dir e t = (None, ?t1)"
    using assms(1) e Cons.prems(2,3) by (intro unzip_entry_file) simp_all
  have "dirs_exist ?t1 dir" using Cons.prems(2) by (rule dirs_exist_append)
  moreover have "\<forall>e' \<in> set es. lookup ?t1 (dir @ CHR ''/'' # filename e') = None"
  proof
    fix e' assume m: "e' \<in> set es"
    with new have "filename e' \<noteq> filename e" by (metis imageI)
    moreover from Cons.prems(3) m have "lookup t (dir @ CHR ''/'' # filename e') = None" by simp
    ultimately show "lookup ?t1 (dir @ CHR ''/'' # filename e') = None"
      by (simp add: lookup_snoc_other)
  qed
  ultimately have "unzip_entries dir es ?t1 = (None, ?t1 @ extracted_files dir es)"
    using rest by (intro Cons.IH)
  with step e(2) show ?case
    by (simp add: extracted_files_def)
qed

lemma download_ok:
  assumes "normal_dir (zip_dir N)" and "ordinary (sheetID @ ''.zip'')"
    and "lookup t (dirname (zip_dir N)) = Some Dir" and "lookup t (zip_dir N) = None"
    and "lookup t (zip_dir N @ CHR ''/'' # sheetID @ ''.zip'') = None"
    and "fetch_body N = Some body"
  shows "download N sheetID t =
     (Inr (zip_dir N @ CHR ''/'' # sheetID @ ''.zip''),
      t @ [(zip_dir N, Dir), (zip_dir N @ CHR ''/'' # sheetID @ ''.zip'', File body)])"
proof -
  let ?z = "zip_dir N" and ?f = "sheetID @ ''.zip''"
  from assms(2) have f: "plain_name ?f" "?f \<noteq> []" by (simp_all add: ordinary_def)
  from assms(1) have d: "?z \<noteq> []" "?z \<noteq> ''/''"
    by (auto simp: normal_dir_def dest: normal_dir_nonempty)
  have tmp: "mkdtemp (join [tmpdir N, ''gs2imgz-'']) (suffix_z N) t = Inr (?z, t @ [(?z, Dir)])"
    using assms(3,4) unfolding zip_dir_def by (rule mkdtemp_fresh)
  have target: "join [?z, ?f] = ?z @ CHR ''/'' # ?f"
    using assms(1,2) by (rule join_normal)
  have parent: "dirname (?z @ CHR ''/'' # ?f) = ?z"
    using d f by (rule dirname_file)
  have "write_file (?z @ CHR ''/'' # ?f) body (t @ [(?z, Dir)])
      = Inr ((t @ [(?z, Dir)]) @ [(?z @ CHR ''/'' # ?f, File body)])"
    using assms(4,5) by (intro write_file_fresh) (simp_all add: parent lookup_snoc)
  with tmp target assms(6) show ?thesis
    by (simp add: download_def Let_def)
qed

lemma unzip_ok:
  assumes "normal_dir (extract_dir N)" and "lookup t (dirname (extract_dir N)) = Some Dir"
    and "above_exist t (extract_dir N)" and "lookup t (extract_dir N) = None"
    and "\<forall>e \<in> set es. lookup t (extract_dir N @ CHR ''/'' # filename e) = None"
    and "lookup t zipPath = Some (File bytes)" and "zip_of N bytes = Some es"
    and "flat es" and "zip_close_ok N" and "rm_zip N = None"
  shows "unzip N zipPath t =
     (Inr (extract_dir N),
      rm_rf (dirname zipPath) (t @ (extract_dir N, Dir) # extracted_files (extract_dir N) es))"
proof -
  let ?x = "extract_dir N"
  let ?t1 = "t @ [(?x, Dir)]"
  have tmp: "mkdtemp (join [tmpdir N, ''gs2imgx-'']) (suffix_x N) t = Inr (?x, ?t1)"
    using assms(2,4) unfolding extract_dir_def by (rule mkdtemp_fresh)
  have zip: "open_zip N ?t1 zipPath = Some es"
    using assms(6,7) by (simp add: open_zip_def lookup_append)
  have "\<forall>e \<in> set es. lookup ?t1 (?x @ CHR ''/'' # filename e) = None"
    using assms(5) by (simp add: lookup_snoc)
  with assms(1,8) dirs_exist_created [OF assms(3,4)]
  have "unzip_entries ?x es ?t1 = (None, ?t1 @ extracted_files ?x es)"
    by (intro unzip_entries_flat)
  with tmp zip assms(9,10) show ?thesis
    by (simp add: unzip_def)
qed

section \<open>The two stages together\<close>

text \<open>The two temporary directories differ where their names do, whatever follows.\<close>

lemma temp_dirs_apart: "zip_dir N @ a \<noteq> extract_dir N @ b"
proof (cases "tmpdir N = []")
  case True
  have "normalize_path ''gs2imgz-'' = ''gs2imgz-''" "normalize_path ''gs2imgx-'' = ''gs2imgx-''"
    by code_simp+
  with True show ?thesis by (simp add: zip_dir_def extract_dir_def join_def)
next
  case False
  have "ordinary ''gs2imgz-''" "ordinary ''gs2imgx-''"
    by (simp_all add: ordinary_def plain_name_def)
  with False show ?thesis
    by (simp add: zip_dir_def extract_dir_def join_ordinary)
qed

lemma not_below_zip_dir: "\<not> prefix (zip_dir N @ a) (extract_dir N @ b)"
proof
  assume "prefix (zip_dir N @ a) (extract_dir N @ b)"
  then obtain zs where "extract_dir N @ b = zip_dir N @ (a @ zs)"
    by (auto simp: prefix_def)
  with temp_dirs_apart [of N "a @ zs" b] show False by simp
qed

lemma extracted_below:
  "(q, n) \<in> set ((dir, Dir) # extracted_files dir es) \<Longrightarrow> \<exists>b. q = dir @ b"
  by (auto simp: extracted_files_def)

lemma vacant_extracted:
  "vacant ((extract_dir N, Dir) # extracted_files (extract_dir N) es) (zip_dir N)"
proof -
  have "q \<noteq> zip_dir N \<and> \<not> prefix (zip_dir N @ ''/'') q"
    if "(q, n) \<in> set ((extract_dir N, Dir) # extracted_files (extract_dir N) es)" for q n
  proof -
    from extracted_below [OF that] obtain b where "q = extract_dir N @ b" ..
    with temp_dirs_apart [of N "[]" b] not_below_zip_dir [of N "''/''" b] show ?thesis
      by simp
  qed
  then show ?thesis
    unfolding vacant_def list_all_iff by blast
qed

lemma fetch_archive_flat:
  assumes "fetch_ready N sheetID t es"
  shows "fetch_archive N sheetID t =
     (Inr (extract_dir N), t @ (extract_dir N, Dir) # extracted_files (extract_dir N) es)"
proof -
  from assms obtain body where assms:
    "normal_dir (zip_dir N)" "normal_dir (extract_dir N)" "ordinary (sheetID @ ''.zip'')"
    "lookup t (dirname (zip_dir N)) = Some Dir"
    "lookup t (dirname (extract_dir N)) = Some Dir" "above_exist t (extract_dir N)"
    "vacant t (zip_dir N)" "vacant t (extract_dir N)"
    "fetch_body N = Some body" "zip_of N body = Some es" "flat es" "zip_close_ok N"
    "rm_zip N = None"
    by (auto simp: fetch_ready_def serves_def split: option.splits)
  let ?z = "zip_dir N" and ?x = "extract_dir N" and ?f = "sheetID @ ''.zip''"
  let ?t2 = "t @ [(?z, Dir), (?z @ CHR ''/'' # ?f, File body)]"
  have down: "download N sheetID t = (Inr (?z @ CHR ''/'' # ?f), ?t2)"
    using assms(1,3,4) vacant_lookup [OF assms(7)] vacant_child [OF assms(7)] assms(9)
    by (rule download_ok)
  from assms(3) have f: "plain_name ?f" "?f \<noteq> []" by (simp_all add: ordinary_def)
  from assms(1) have "?z \<noteq> []" "?z \<noteq> ''/''"
    by (auto simp: normal_dir_def dest: normal_dir_nonempty)
  then have parent: "dirname (?z @ CHR ''/'' # ?f) = ?z"
    using f by (rule dirname_file)
  have apart: "?x @ b \<noteq> ?z @ a" for a b
    using temp_dirs_apart [of N a b] by simp
  have look: "lookup ?t2 (?x @ b) = lookup t (?x @ b)" for b
    using apart [of b "[]"] apart [of b "CHR ''/'' # ?f"]
    by (simp add: lookup_append split: option.splits)
  have "unzip N (?z @ CHR ''/'' # ?f) ?t2
      = (Inr ?x, rm_rf (dirname (?z @ CHR ''/'' # ?f)) (?t2 @ (?x, Dir) # extracted_files ?x es))"
  proof (rule unzip_ok [OF assms(2) _ _ _ _ _ assms(10,11,12,13)])
    show "lookup ?t2 (dirname ?x) = Some Dir"
      using assms(5) by (simp add: lookup_append)
    show "above_exist ?t2 ?x"
      using assms(6) by (auto simp: above_exist_def list_all_iff lookup_append)
    show "lookup ?t2 ?x = None"
      using look [of "[]"] vacant_lookup [OF assms(8)] by simp
    show "\<forall>e \<in> set es. lookup ?t2 (?x @ CHR ''/'' # filename e) = None"
      using look vacant_child [OF assms(8)] by simp
    show "lookup ?t2 (?z @ CHR ''/'' # ?f) = Some (File body)"
      using vacant_child [OF assms(7)] vacant_lookup [OF assms(7)]
      by (simp add: lookup_append)
  qed
  moreover have "rm_rf ?z [(?z, Dir), (?z @ CHR ''/'' # ?f, File body)] = []"
    by (simp add: rm_rf_def)
  then have "rm_rf ?z (?t2 @ (?x, Dir) # extracted_files ?x es)
      = t @ (?x, Dir) # extracted_files ?x es"
    using rm_rf_append [of ?z ?t2 "(?x, Dir) # extracted_files ?x es"]
      rm_rf_append [of ?z t "[(?z, Dir), (?z @ CHR ''/'' # ?f, File body)]"]
    by (simp only: vacant_filter [OF assms(7)] vacant_filter [OF vacant_extracted] append_Nil2)
  ultimately show ?thesis
    by (simp add: fetch_archive_def down parent)
qed

text \<open>The listing of the extracted directory is the list of the entries.\<close>

lemma readdir_extracted:
  assumes "normal_dir dir" and "vacant t dir" and "flat es"
  shows "readdir (t @ (dir, Dir) # extracted_files dir es) dir = Inr (map filename es)"
proof -
  from assms(1) have d: "dir \<noteq> []" "dir \<noteq> ''/''" "dir \<noteq> ''.''" "dir \<noteq> ''//''"
    by (auto simp: normal_dir_def dest: normal_dir_nonempty)
  have "filter (\<lambda>(q, n). q \<noteq> dir \<and> dirname q = dir) t = []"
    using assms(2) dirname_prefix [OF _ d(3,2,4)]
    by (auto simp: vacant_def list_all_iff filter_empty_conv)
  moreover have "dirname (dir @ CHR ''/'' # filename e) = dir
      \<and> basename (dir @ CHR ''/'' # filename e) = filename e" if "e \<in> set es" for e
    using assms(3) that d(1,2) by (auto simp: flat_def list_all_iff ordinary_def dirname_file basename_file)
  then have "filter (\<lambda>(q, n). q \<noteq> dir \<and> dirname q = dir) (extracted_files dir es) = extracted_files dir es"
    and "map (\<lambda>(q, n). basename q) (extracted_files dir es) = map filename es"
    by (auto simp: extracted_files_def intro!: filter_True)
  moreover have "lookup (t @ (dir, Dir) # extracted_files dir es) dir = Some Dir"
    using vacant_lookup [OF assms(2)] by (simp add: lookup_append)
  ultimately show ?thesis
    by (simp add: readdir_def)
qed

section \<open>Failures\<close>

lemma download_persists: "persists t (snd (download N sheetID t))"
proof (cases "mkdtemp (join [tmpdir N, ''gs2imgz-'']) (suffix_z N) t")
  case (Inl e)
  then show ?thesis by (simp add: download_def)
next
  case (Inr r)
  obtain dir t1 where r: "r = (dir, t1)" by (cases r)
  from Inr have t1: "persists t t1" unfolding r by (rule mkdtemp_persists)
  have "persists t t2" if "write_file p c t1 = Inr t2" for p c t2
    using t1 write_file_persists [OF that] by (rule persists_trans)
  with Inr r t1 show ?thesis
    by (auto simp: download_def Let_def split: option.splits sum.splits)
qed

text \<open>The errors of the loop are those of reading an entry, of \<^verbatim>\<open>mkdir\<close> and of writing.\<close>

lemma mkdirs_error: "fst (mkdirs qs t) = Some e \<Longrightarrow> e = MkdirError"
  by (induction qs arbitrary: t) (auto split: option.splits node.splits)

lemma write_file_error: "write_file p c t = Inl e \<Longrightarrow> e = WriteError"
  by (auto simp: write_file_def split: option.splits node.splits)

lemma unzip_entry_error:
  assumes "fst (unzip_entry dir e t) = Some err"
  shows "err = MkdirError \<or> err = ReadError \<or> err = WriteError"
proof (cases rule: unzip_entry_cases [of e dir t])
  case dir
  with assms show ?thesis by (auto simp: mkdir_p_def dest: mkdirs_error)
next
  case (no_dir c err')
  with assms show ?thesis by (auto simp: mkdir_p_def dest: mkdirs_error)
next
  case (no_file c err')
  with assms show ?thesis by (auto dest: write_file_error)
qed (use assms in simp_all)

lemma unzip_entries_error:
  "fst (unzip_entries dir es t) = Some err \<Longrightarrow>
     err = MkdirError \<or> err = ReadError \<or> err = WriteError"
proof (induction es arbitrary: t)
  case (Cons e es)
  obtain r t1 where u: "unzip_entry dir e t = (r, t1)" by (cases "unzip_entry dir e t")
  show ?case
  proof (cases r)
    case None
    with Cons u show ?thesis by simp
  next
    case (Some x)
    with Cons.prems u unzip_entry_error [of dir e t err] show ?thesis by simp
  qed
qed simp

text \<open>
  A failed \<^verbatim>\<open>unzip\<close>, the removal of line 41 apart: either \<^verbatim>\<open>mkdtemp\<close> failed and
  nothing was done, or the directory of the extraction was created and what was
  stored then is still stored.
\<close>

lemma unzip_failure_cases:
  assumes "unzip N zipPath t = (Inl e, t')" and "e \<noteq> RmError"
  obtains (no_dir) "e = MkdtempError" and "t' = t"
    | (dir) "e \<noteq> MkdtempError" and "lookup t (extract_dir N) = None"
        and "persists (t @ [(extract_dir N, Dir)]) t'"
proof (cases "mkdtemp (join [tmpdir N, ''gs2imgx-'']) (suffix_x N) t")
  case (Inl err)
  then have "err = MkdtempError"
    by (auto simp: mkdtemp_def Let_def split: option.splits node.splits if_splits)
  with assms Inl show ?thesis by (intro no_dir) (simp_all add: unzip_def)
next
  case (Inr r)
  obtain x t1 where r: "r = (x, t1)" by (cases r)
  from mkdtemp_result [OF Inr [unfolded r]]
  have x: "x = extract_dir N" "t1 = t @ [(extract_dir N, Dir)]" "lookup t (extract_dir N) = None"
    by (auto simp: extract_dir_def)
  show ?thesis
  proof (cases "open_zip N t1 zipPath")
    case None
    with assms Inr r x show ?thesis by (intro dir) (auto simp: unzip_def)
  next
    case (Some es)
    obtain f t2 where l: "unzip_entries x es t1 = (f, t2)" by (cases "unzip_entries x es t1")
    with unzip_entries_persists [of t1 x es] have p: "persists t1 t2" by simp
    from assms Inr r Some l have res: "t' = t2"
      and e: "e = CloseError \<or> f = Some e"
      by (auto simp: unzip_def split: if_splits option.splits)
    from e unzip_entries_error [of x es t1 e] l have "e \<noteq> MkdtempError" by auto
    with p res x show ?thesis by (intro dir) simp_all
  qed
qed

lemma unzip_failure_persists:
  assumes "unzip N zipPath t = (Inl e, t')" and "e \<noteq> RmError"
  shows "persists t t'"
  using assms
proof (cases rule: unzip_failure_cases)
  case dir
  have "persists t (t @ [(extract_dir N, Dir)])"
    by (rule persists_prefix) simp
  then show ?thesis using dir(3) by (rule persists_trans)
qed simp

lemma unzip_failure_keeps_dir:
  assumes "unzip N zipPath t = (Inl e, t')" and "e \<noteq> RmError" and "e \<noteq> MkdtempError"
  shows "lookup t' (extract_dir N) = Some Dir"
  using assms(1,2)
proof (cases rule: unzip_failure_cases)
  case dir
  from dir(2) have "lookup (t @ [(extract_dir N, Dir)]) (extract_dir N) = Some Dir"
    by (simp add: lookup_snoc)
  from persistsD [OF dir(3) this] show ?thesis by (auto elim: is_dir.elims)
qed (use assms(3) in simp)

text \<open>A stored directory or file is still one after whatever persists.\<close>

lemma persists_Dir: "persists t t' \<Longrightarrow> lookup t q = Some Dir \<Longrightarrow> lookup t' q = Some Dir"
  by (auto dest!: persistsD elim: is_dir.elims)

lemma persists_File:
  "persists t t' \<Longrightarrow> lookup t q = Some (File c) \<Longrightarrow> \<exists>c'. lookup t' q = Some (File c')"
  by (auto dest!: persistsD elim: is_dir.elims)

text \<open>After a download the archive is stored in its directory.\<close>

lemma download_stores:
  assumes "download N sheetID t = (Inr zipPath, t1)"
  shows "lookup t1 (dirname zipPath) = Some Dir" and "\<exists>c. lookup t1 zipPath = Some (File c)"
proof -
  from assms obtain t0 body where w: "write_file zipPath body t0 = Inr t1"
    by (rule download_success)
  from write_file_guard [OF w] have "dirname zipPath \<noteq> zipPath" by auto
  with write_file_guard [OF w] show "lookup t1 (dirname zipPath) = Some Dir"
    by (simp add: write_file_lookup [OF w])
  show "\<exists>c. lookup t1 zipPath = Some (File c)"
    by (simp add: write_file_lookup [OF w])
qed

text \<open>
  When closing the archive fails, \<^verbatim>\<open>unzip\<close> fails with that error whatever the loop
  did, and leaves what the loop had extracted and the directory of the archive.
\<close>

lemma unzip_close_fails:
  assumes "mkdtemp (join [tmpdir N, ''gs2imgx-'']) (suffix_x N) t = Inr (dir, t1)"
    and "open_zip N t1 zipPath = Some es" and "\<not> zip_close_ok N"
  shows "unzip N zipPath t = (Inl CloseError, snd (unzip_entries dir es t1))"
  using assms by (simp add: unzip_def split: prod.splits)

text \<open>
  When the removal of line 41 fails, \<^verbatim>\<open>unzip\<close> fails although every entry is
  extracted, and the extracted directory stays unless the removal went through it.
\<close>

lemma unzip_rm_fails:
  assumes "mkdtemp (join [tmpdir N, ''gs2imgx-'']) (suffix_x N) t = Inr (dir, t1)"
    and "open_zip N t1 zipPath = Some es" and "unzip_entries dir es t1 = (None, t2)"
    and "zip_close_ok N" and "rm_zip N = Some left"
  shows "unzip N zipPath t = (Inl RmError, rm_rf_stopped (dirname zipPath) left t2)"
  using assms by (simp add: unzip_def)

lemma fetch_archive_keeps_wf:
  assumes "fs_wf t" and "rm_zip N = None"
  shows "fs_wf (snd (fetch_archive N sheetID t))"
proof (cases "download N sheetID t")
  case (Pair r t1)
  from assms(1) have "fs_wf (snd (download N sheetID t))" by (rule download_wf)
  with Pair have "fs_wf t1" by simp
  then have "fs_wf (snd (unzip N zipPath t1))" for zipPath using assms(2) by (rule unzip_wf)
  with Pair \<open>fs_wf t1\<close> show ?thesis
    by (cases r) (simp_all add: fetch_archive_def)
qed

lemma fetch_archive_success:
  assumes "fetch_archive N sheetID t = (Inr dir, t')"
  obtains zipPath t1 where "download N sheetID t = (Inr zipPath, t1)"
    and "unzip N zipPath t1 = (Inr dir, t')" and "rm_zip N = None"
proof -
  from assms obtain zipPath t1 where d: "download N sheetID t = (Inr zipPath, t1)"
    and u: "unzip N zipPath t1 = (Inr dir, t')"
    by (auto simp: fetch_archive_def split: prod.splits sum.splits)
  from u have "rm_zip N = None" by (rule unzip_success)
  with d u show ?thesis by (rule that)
qed

lemma fetch_archive_tidy:
  assumes "tidy t" and "normal_dir (zip_dir N)" and "normal_dir (extract_dir N)"
  shows "tidy (snd (fetch_archive N sheetID t))"
proof (cases "download N sheetID t")
  case (Pair r t1)
  from assms(1,2) have "tidy (snd (download N sheetID t))" by (rule download_tidy)
  with Pair have "tidy t1" by simp
  then have "tidy (snd (unzip N zipPath t1))" for zipPath using assms(3) by (rule unzip_tidy)
  with Pair \<open>tidy t1\<close> show ?thesis
    by (cases r) (simp_all add: fetch_archive_def)
qed

text \<open>
  A file that is there after a successful \<^verbatim>\<open>unzip\<close> lies outside the directory of the
  archive, and was there before or is the file of an entry.
\<close>

lemma unzip_origin:
  assumes "unzip N zipPath t = (Inr dir, t')" and "lookup t zipPath = Some (File body)"
    and "zip_of N body = Some es" and "lookup t' q = Some (File c)"
  shows "q \<noteq> dirname zipPath" and "\<not> prefix (dirname zipPath @ ''/'') q"
    and "lookup t q = Some (File c)
      \<or> (\<exists>e \<in> set es. is_file e \<and> targetPath dir e = q \<and> data e = Some c)"
proof -
  from assms(1) obtain t1 es' t2 where
    mx: "mkdtemp (join [tmpdir N, ''gs2imgx-'']) (suffix_x N) t = Inr (dir, t1)"
    and op: "open_zip N t1 zipPath = Some es'"
    and loop: "unzip_entries dir es' t1 = (None, t2)" and t': "t' = rm_rf (dirname zipPath) t2"
    by (rule unzip_success)
  from mkdtemp_result [OF mx] have t1: "t1 = t @ [(dir, Dir)]" by blast
  with assms(2) have "lookup t1 zipPath = Some (File body)" by (simp add: lookup_append)
  with op assms(3) have es': "es' = es" by (simp add: open_zip_def)
  from assms(4) have q: "lookup t2 q = Some (File c)"
    and keep: "q \<noteq> dirname zipPath" "\<not> prefix (dirname zipPath @ ''/'') q"
    by (simp_all add: t' lookup_rm_rf split: if_splits)
  from keep show "q \<noteq> dirname zipPath" and "\<not> prefix (dirname zipPath @ ''/'') q" .
  from unzip_entries_origin [of dir es t1 q c] loop q es'
  have "lookup t1 q = Some (File c)
      \<or> (\<exists>e \<in> set es. is_file e \<and> targetPath dir e = q \<and> data e = Some c)"
    by simp
  moreover have "lookup t q = Some (File c)" if "lookup t1 q = Some (File c)"
    using that by (simp add: t1 lookup_snoc split: option.splits if_splits)
  ultimately show "lookup t q = Some (File c)
      \<or> (\<exists>e \<in> set es. is_file e \<and> targetPath dir e = q \<and> data e = Some c)"
    by blast
qed

text \<open>
  After a successful fetch the extracted directory is the one \<^verbatim>\<open>mkdtemp\<close> named, and
  a file that is stored was stored before or is the file of an entry of the archive.
\<close>

lemma fetch_archive_origin:
  assumes "fetch_archive N sheetID t = (Inr dir, t')"
    and "normal_dir (zip_dir N)" and "ordinary (sheetID @ ''.zip'')" and "serves N es"
  shows "dir = extract_dir N"
    and "lookup t' q = Some (File c) \<Longrightarrow>
      lookup t q = Some (File c)
      \<or> (\<exists>e \<in> set es. is_file e \<and> targetPath dir e = q \<and> data e = Some c)"
proof -
  let ?z = "zip_dir N" and ?f = "sheetID @ ''.zip''"
  from assms(4) obtain body where body: "fetch_body N = Some body" "zip_of N body = Some es"
    by (auto simp: serves_def split: option.splits)
  from assms(1) obtain zipPath t2 where down: "download N sheetID t = (Inr zipPath, t2)"
    and un: "unzip N zipPath t2 = (Inr dir, t')"
    by (rule fetch_archive_success)
  from down obtain t1 b where mk: "mkdtemp (join [tmpdir N, ''gs2imgz-'']) (suffix_z N) t = Inr (?z, t1)"
    and b: "fetch_body N = Some b" and zp: "zipPath = join [?z, ?f]"
    and wr: "write_file zipPath b t1 = Inr t2"
    by (rule download_success)
  from assms(2,3) have zp: "zipPath = ?z @ CHR ''/'' # ?f"
    unfolding zp by (rule join_normal)
  from assms(2,3) have parent: "dirname zipPath = ?z"
    unfolding zp by (intro dirname_file) (auto simp: ordinary_def normal_dir_def dest: normal_dir_nonempty)
  from un show "dir = extract_dir N" by (rule unzip_success)
  from mkdtemp_result [OF mk] have t1: "t1 = t @ [(?z, Dir)]" by blast
  from b body(1) have zfile: "lookup t2 zipPath = Some (File body)"
    using write_file_lookup [OF wr, of zipPath] by simp
  assume "lookup t' q = Some (File c)"
  note origin = unzip_origin [OF un zfile body(2) this, unfolded parent]
  from origin(2) have "q \<noteq> zipPath" by (auto simp: zp)
  then have "lookup t q = Some (File c)" if "lookup t2 q = Some (File c)"
    using that by (simp add: write_file_lookup [OF wr] t1 lookup_snoc split: option.splits if_splits)
  with origin(3) show "lookup t q = Some (File c)
      \<or> (\<exists>e \<in> set es. is_file e \<and> targetPath dir e = q \<and> data e = Some c)"
    by blast
qed

section \<open>The extraction stays in the extracted directory\<close>

text \<open>
  An entry whose name is made of ordinary segments is written below the extracted
  directory, and the directories created for it lie below it as well: whatever is
  stored outside the directory is as it was.
\<close>

lemma targetPath_safe:
  "normal_dir dir \<Longrightarrow> safe_name (filename e) \<Longrightarrow> targetPath dir e = dir @ CHR ''/'' # filename e"
  unfolding targetPath_def by (rule join_safe)

lemma unzip_entry_frame:
  assumes "normal_dir dir" and "dirs_exist t dir" and "safe_name (filename e)"
    and "\<not> prefix (dir @ ''/'') q"
  shows "lookup (snd (unzip_entry dir e t)) q = lookup t q"
proof -
  note target = targetPath_safe [OF assms(1,3)]
  have made: "lookup (snd (mkdir_p (targetPath dir e) t)) q = lookup t q"
    using assms(1,2,4) by (rule mkdir_p_frame) (simp add: target)
  have above: "lookup (snd (mkdir_p (dirname (targetPath dir e)) t)) q = lookup t q"
    if "\<not> endsWith_slash (filename e)"
  proof -
    from assms(3) have "filename e \<noteq> []" by (rule safe_name_nonempty)
    with that have "last (filename e) \<noteq> CHR ''/''" by (simp add: endsWith_slash_def)
    with assms(1,3)
    have "dirname (targetPath dir e) = dir \<or> (\<exists>rest. dirname (targetPath dir e) = dir @ CHR ''/'' # rest)"
      unfolding target by (rule dirname_safe)
    with assms(1,2,4) show ?thesis by (rule mkdir_p_frame)
  qed
  show ?thesis
  proof (cases rule: unzip_entry_cases [of e dir t])
    case dir
    with made show ?thesis by simp
  next
    case unread
    then show ?thesis by simp
  next
    case (no_dir c err)
    with above show ?thesis by simp
  next
    case (no_file c err)
    with above show ?thesis by simp
  next
    case (written c t2)
    from assms(4) have "q \<noteq> targetPath dir e" by (auto simp: target)
    with write_file_lookup [OF written(4), of q] above [OF written(1)] written(5)
    show ?thesis by simp
  qed
qed

lemma unzip_entries_frame:
  assumes "normal_dir dir" and "\<not> prefix (dir @ ''/'') q"
  shows "dirs_exist t dir \<Longrightarrow> list_all (\<lambda>e. safe_name (filename e)) es \<Longrightarrow>
     lookup (snd (unzip_entries dir es t)) q = lookup t q"
proof (induction es arbitrary: t)
  case (Cons e es)
  from Cons.prems(2) have safe: "safe_name (filename e)" "list_all (\<lambda>e. safe_name (filename e)) es"
    by simp_all
  obtain r t1 where u: "unzip_entry dir e t = (r, t1)" by (cases "unzip_entry dir e t")
  have frame: "lookup t1 q' = lookup t q'" if "\<not> prefix (dir @ ''/'') q'" for q'
    using unzip_entry_frame [OF assms(1) Cons.prems(1) safe(1) that] u by simp
  with assms(1) Cons.prems(1) have "dirs_exist t1 dir" by (rule dirs_exist_frame)
  from Cons.IH [OF this safe(2)] frame [OF assms(2)] u show ?case
    by (cases r) simp_all
qed simp

section \<open>A name of the spreadsheet that leaves the directory of the archive\<close>

text \<open>The two temporary directories, when the directory of temporary files is in normal form.\<close>

lemma temp_dirs_named:
  assumes "normal_dir (tmpdir N)" and "plain_name (suffix_z N)" and "plain_name (suffix_x N)"
  shows "zip_dir N = tmpdir N @ CHR ''/'' # (''gs2imgz-'' @ suffix_z N)"
    and "extract_dir N = tmpdir N @ CHR ''/'' # (''gs2imgx-'' @ suffix_x N)"
    and "ordinary (''gs2imgz-'' @ suffix_z N)"
proof -
  have "ordinary ''gs2imgz-''" "ordinary ''gs2imgx-''"
    by (simp_all add: ordinary_def plain_name_def)
  with assms(1) show "zip_dir N = tmpdir N @ CHR ''/'' # (''gs2imgz-'' @ suffix_z N)"
    and "extract_dir N = tmpdir N @ CHR ''/'' # (''gs2imgx-'' @ suffix_x N)"
    by (simp_all add: zip_dir_def extract_dir_def join_normal)
  from assms(2) show "ordinary (''gs2imgz-'' @ suffix_z N)"
    by (simp add: ordinary_def plain_name_def)
qed

text \<open>
  With a name that starts with \<^verbatim>\<open>../\<close> the archive is written beside its directory,
  and the removal of line 41 removes the directory of temporary files with all that
  is in it, the extracted directory included.
\<close>

lemma fetch_archive_dotdot:
  assumes "normal_dir (tmpdir N)" and "plain_name (suffix_z N)" and "plain_name (suffix_x N)"
    and "ordinary (x @ ''.zip'')" and "fetch_archive N (''../'' @ x) t = (Inr dir, t')"
  shows "dir = extract_dir N" and "vacant t' (tmpdir N)" and "lookup t' dir = None"
proof -
  note names = temp_dirs_named [OF assms(1-3)]
  from assms(5) obtain zipPath t1 where d: "download N (''../'' @ x) t = (Inr zipPath, t1)"
    and u: "unzip N zipPath t1 = (Inr dir, t')"
    by (rule fetch_archive_success)
  from d have "zipPath = join [zip_dir N, (''../'' @ x) @ ''.zip'']"
    by (rule download_success)
  then have zp: "zipPath = tmpdir N @ CHR ''/'' # (x @ ''.zip'')"
    using join_dotdot [OF assms(1) names(3) assms(4)] by (simp add: names(1))
  from assms(1,4) have parent: "dirname zipPath = tmpdir N"
    unfolding zp
    by (intro dirname_file) (auto simp: ordinary_def normal_dir_def dest: normal_dir_nonempty)
  from u obtain t2 where dir: "dir = extract_dir N" and t': "t' = rm_rf (dirname zipPath) t2"
    by (rule unzip_success)
  from dir show "dir = extract_dir N" .
  show "vacant t' (tmpdir N)" unfolding t' parent by (rule rm_rf_vacant)
  show "lookup t' dir = None"
    by (simp add: t' parent lookup_rm_rf dir names(2))
qed

section \<open>The properties of the two stages\<close>

text \<open>
  C9. For an archive of files with different plain names, fetched into a file
  system that has the temporary directory and nothing at the two names \<^verbatim>\<open>mkdtemp\<close>
  chooses, when closing the archive and removing its directory succeed:
  \<^verbatim>\<open>download\<close> followed by \<^verbatim>\<open>unzip\<close> returns the second directory and leaves
  the file system as it was, with that directory and one file per entry in
  it, holding the data of the entry; the directory of the archive is gone, and
  \<^verbatim>\<open>readdir\<close> of the extracted directory lists the names of the entries.
\<close>

theorem flat_archive_extracted:
  assumes "fetch_ready N sheetID t es"
  shows "fetch_archive N sheetID t =
     (Inr (extract_dir N), t @ (extract_dir N, Dir) # extracted_files (extract_dir N) es)
   \<and> readdir (t @ (extract_dir N, Dir) # extracted_files (extract_dir N) es) (extract_dir N)
       = Inr (map filename es)"
proof -
  from assms have "normal_dir (extract_dir N)" "vacant t (extract_dir N)" "flat es"
    by (simp_all add: fetch_ready_def)
  with fetch_archive_flat [OF assms] show ?thesis
    by (simp add: readdir_extracted)
qed

theorem flat_archive_extracted_witness:
  "fetch_archive ex_net_flat ''doc'' ex_fs =
     (Inr ''/tmp/gs2imgx-x1'',
      [(''/'', Dir), (''/tmp'', Dir), (''/tmp/gs2imgx-x1'', Dir),
       (''/tmp/gs2imgx-x1/A.html'', File ''<a>''), (''/tmp/gs2imgx-x1/B.html'', File ''<b>''),
       (''/tmp/gs2imgx-x1/notes.txt'', File ''n'')])
   \<and> readdir [(''/'', Dir), (''/tmp'', Dir), (''/tmp/gs2imgx-x1'', Dir),
       (''/tmp/gs2imgx-x1/A.html'', File ''<a>''), (''/tmp/gs2imgx-x1/B.html'', File ''<b>''),
       (''/tmp/gs2imgx-x1/notes.txt'', File ''n'')] ''/tmp/gs2imgx-x1''
       = Inr [''A.html'', ''B.html'', ''notes.txt'']"
proof -
  have r: "fetch_ready ex_net_flat ''doc'' ex_fs ex_flat" by code_simp
  have x: "extract_dir ex_net_flat = ''/tmp/gs2imgx-x1''" by code_simp
  have f: "ex_fs @ (''/tmp/gs2imgx-x1'', Dir) # extracted_files ''/tmp/gs2imgx-x1'' ex_flat =
      [(''/'', Dir), (''/tmp'', Dir), (''/tmp/gs2imgx-x1'', Dir),
       (''/tmp/gs2imgx-x1/A.html'', File ''<a>''), (''/tmp/gs2imgx-x1/B.html'', File ''<b>''),
       (''/tmp/gs2imgx-x1/notes.txt'', File ''n'')]"
    by code_simp
  have n: "map filename ex_flat = [''A.html'', ''B.html'', ''notes.txt'']" by code_simp
  from flat_archive_extracted [OF r] show ?thesis unfolding x f n .
qed

text \<open>
  C12. What is extracted can be read back: when the loop of \<^verbatim>\<open>unzip\<close> has gone through
  all entries without an error, and no two file entries are written to the same
  path, the path of every file entry holds the data of that entry.
\<close>

theorem extracted_file_holds_data:
  assumes "fst (unzip_entries dir es t) = None" and "e \<in> set es" and "is_file e"
    and "distinct (map (targetPath dir) (filter is_file es))"
  shows "lookup (snd (unzip_entries dir es t)) (targetPath dir e) = Some (File (the (data e)))"
  using assms by (rule unzip_entries_writes)

theorem extracted_file_holds_data_witness:
  "lookup (snd (unzip_entries ''/tmp/x'' ex_entries (ex_fs @ [(''/tmp/x'', Dir)])))
     ''/tmp/x/resources/sheet.css'' = Some (File ''css'')"
proof -
  let ?e = "\<lparr>filename = ''resources/sheet.css'', data = Some ''css''\<rparr>"
  let ?t = "ex_fs @ [(''/tmp/x'', Dir)]"
  have "fst (unzip_entries ''/tmp/x'' ex_entries ?t) = None" by code_simp
  moreover have "?e \<in> set ex_entries" by (simp add: ex_entries_def)
  moreover have "is_file ?e" by code_simp
  moreover have "distinct (map (targetPath ''/tmp/x'') (filter is_file ex_entries))"
    by code_simp
  ultimately have "lookup (snd (unzip_entries ''/tmp/x'' ex_entries ?t)) (targetPath ''/tmp/x'' ?e)
      = Some (File (the (data ?e)))"
    by (rule extracted_file_holds_data)
  moreover have "targetPath ''/tmp/x'' ?e = ''/tmp/x/resources/sheet.css''" by code_simp
  ultimately show ?thesis by simp
qed

text \<open>
  C14. A fetch that fails cleans nothing up. When \<^verbatim>\<open>download\<close> or \<^verbatim>\<open>unzip\<close> fails
  with an error other than that of the removal of line 41, every path that was
  stored before is still stored, as a directory or as a file. When the archive had
  been downloaded, its directory and the archive file are still there after the
  failure, and so is the directory of the extraction unless \<^verbatim>\<open>unzip\<close> failed before
  creating it.
\<close>

theorem failed_fetch_leaves_files:
  assumes "fetch_archive N sheetID t = (Inl e, t')" and "e \<noteq> RmError"
  shows "persists t t'
     \<and> (\<forall>zipPath t1. download N sheetID t = (Inr zipPath, t1) \<longrightarrow>
          lookup t' (dirname zipPath) = Some Dir \<and> (\<exists>c. lookup t' zipPath = Some (File c))
          \<and> (e \<noteq> MkdtempError \<longrightarrow> lookup t' (extract_dir N) = Some Dir))"
proof (cases "download N sheetID t")
  case (Pair r t1)
  with download_persists [of t N sheetID] have t1: "persists t t1" by simp
  show ?thesis
  proof (cases r)
    case (Inl err)
    with assms(1) Pair t1 show ?thesis by (simp add: fetch_archive_def)
  next
    case (Inr zipPath)
    with assms(1) Pair have un: "unzip N zipPath t1 = (Inl e, t')"
      by (simp add: fetch_archive_def)
    from un assms(2) have p: "persists t1 t'" by (rule unzip_failure_persists)
    from Pair Inr have d: "download N sheetID t = (Inr zipPath, t1)" by simp
    from p download_stores(1) [OF d] have "lookup t' (dirname zipPath) = Some Dir"
      by (rule persists_Dir)
    moreover from download_stores(2) [OF d] p have "\<exists>c. lookup t' zipPath = Some (File c)"
      by (auto dest: persists_File)
    moreover have "lookup t' (extract_dir N) = Some Dir" if "e \<noteq> MkdtempError"
      using un assms(2) that by (rule unzip_failure_keeps_dir)
    moreover from t1 p have "persists t t'" by (rule persists_trans)
    ultimately show ?thesis by (simp add: d)
  qed
qed

theorem failed_fetch_leaves_files_witness:
  "fst (fetch_archive ex_net_unreadable ''doc'' ex_fs) = Inl ReadError
   \<and> persists ex_fs (snd (fetch_archive ex_net_unreadable ''doc'' ex_fs))
   \<and> lookup (snd (fetch_archive ex_net_unreadable ''doc'' ex_fs)) ''/tmp/gs2imgz-z1'' = Some Dir
   \<and> (\<exists>c. lookup (snd (fetch_archive ex_net_unreadable ''doc'' ex_fs)) ''/tmp/gs2imgz-z1/doc.zip''
          = Some (File c))
   \<and> lookup (snd (fetch_archive ex_net_unreadable ''doc'' ex_fs)) ''/tmp/gs2imgx-x1'' = Some Dir"
proof -
  let ?t' = "snd (fetch_archive ex_net_unreadable ''doc'' ex_fs)"
  have f: "fetch_archive ex_net_unreadable ''doc'' ex_fs = (Inl ReadError, ?t')"
    by code_simp
  have d: "download ex_net_unreadable ''doc'' ex_fs
      = (Inr ''/tmp/gs2imgz-z1/doc.zip'', snd (download ex_net_unreadable ''doc'' ex_fs))"
    by code_simp
  have n: "dirname ''/tmp/gs2imgz-z1/doc.zip'' = ''/tmp/gs2imgz-z1''"
    "extract_dir ex_net_unreadable = ''/tmp/gs2imgx-x1''"
    by code_simp+
  have "ReadError \<noteq> RmError" by simp
  from failed_fetch_leaves_files [OF f this] have p: "persists ex_fs ?t'"
    and a: "\<And>zipPath t1. download ex_net_unreadable ''doc'' ex_fs = (Inr zipPath, t1) \<Longrightarrow>
      lookup ?t' (dirname zipPath) = Some Dir \<and> (\<exists>c. lookup ?t' zipPath = Some (File c))
      \<and> (ReadError \<noteq> MkdtempError \<longrightarrow> lookup ?t' (extract_dir ex_net_unreadable) = Some Dir)"
    by blast+
  moreover from f have "fst (fetch_archive ex_net_unreadable ''doc'' ex_fs) = Inl ReadError"
    by (metis fst_conv)
  ultimately show ?thesis using a [OF d]
    by (simp add: n)
qed

text \<open>
  C13. The extraction stays in the extracted directory: when the names of the
  entries are made of ordinary segments (none empty, none \<^verbatim>\<open>.\<close> or \<^verbatim>\<open>..\<close>), the loop
  of \<^verbatim>\<open>unzip\<close> leaves every path that is not below the extracted directory as it
  was, whether it ends with an error or not: nothing is created, overwritten or
  removed outside the directory.
\<close>

theorem extraction_stays_inside:
  assumes "normal_dir dir" and "dirs_exist t dir"
    and "list_all (\<lambda>e. safe_name (filename e)) es" and "\<not> prefix (dir @ ''/'') q"
  shows "lookup (snd (unzip_entries dir es t)) q = lookup t q"
  using assms(1,4,2,3) by (rule unzip_entries_frame)

theorem extraction_stays_inside_witness:
  "lookup (snd (unzip_entries ''/tmp/x'' ex_entries (ex_fs @ [(''/tmp/x'', Dir)]))) ''/tmp/sheet.css''
     = None"
proof -
  have "normal_dir ''/tmp/x''" "dirs_exist (ex_fs @ [(''/tmp/x'', Dir)]) ''/tmp/x''"
    "list_all (\<lambda>e. safe_name (filename e)) ex_entries"
    "\<not> prefix (''/tmp/x'' @ ''/'') ''/tmp/sheet.css''"
    by code_simp+
  from extraction_stays_inside [OF this] show ?thesis
    by (simp add: ex_fs_def)
qed

text \<open>
  The name of an entry that starts with \<^verbatim>\<open>../\<close> is written beside the extracted
  directory: the program relies on the zip library to refuse such names.
\<close>

lemma unsafe_entry_example:
  "lookup (snd (unzip_entries ''/tmp/x'' [\<lparr>filename = ''../sheet.css'', data = Some ''css''\<rparr>]
             (ex_fs @ [(''/tmp/x'', Dir)]))) ''/tmp/sheet.css''
     = Some (File ''css'')"
  by code_simp

end
