(* ===== verification/GS_Selector.thy ===== *)
theory GS_Selector
  imports GS_Path
begin

text \<open>
  The tab selection of \<^verbatim>\<open>src/index.js\<close> (lines 77 to 88): the configuration the
  program reads, and the chain \<^verbatim>\<open>filter\<close>, \<^verbatim>\<open>map\<close>, \<^verbatim>\<open>filter\<close> that turns the names of
  the extracted directory into the sheet names to render. \<open>select_spec\<close> is the
  contract of the specification (allow-list and deny-list); the lemmas show that
  the chain implements it, keeps the order of the directory listing, names only
  sheets whose page exists, and yields no name twice.
\<close>

section \<open>Configuration\<close>

record config =
  sheetID :: string
  outputDir :: string
  includeSheets :: jsval
  excludeSheets :: jsval
  concurrency :: int

section \<open>The selection chain\<close>

definition is_html :: "string \<Rightarrow> bool" where
  "is_html x \<longleftrightarrow> extname x = ''.html''"

definition sheet_of :: "string \<Rightarrow> string" where
  "sheet_of x = slice_to (- 5) (basename x)"

definition selected :: "jsval \<Rightarrow> jsval \<Rightarrow> string \<Rightarrow> bool" where
  "selected inc exc x \<longleftrightarrow>
     (\<not> isArray inc \<or> length (elems inc) = 0 \<or> array_includes (elems inc) (JStr x))
     \<and> (\<not> isArray exc \<or> \<not> array_includes (elems exc) (JStr x))"

definition sheetNames :: "config \<Rightarrow> string list \<Rightarrow> string list" where
  "sheetNames cfg files =
     filter (selected (includeSheets cfg) (excludeSheets cfg))
       (map sheet_of (filter is_html files))"

section \<open>The contract\<close>

text \<open>
  Selection criteria are an optional allow-list and an optional deny-list. A tab
  passes iff the allow-list is absent, empty or names it, and the deny-list is
  absent or does not name it. \<open>criteria\<close> reads a list off a configuration value:
  only an array is one.
\<close>

definition criteria :: "jsval \<Rightarrow> jsval list option" where
  "criteria v = (if isArray v then Some (elems v) else None)"

definition passes :: "jsval list option \<Rightarrow> jsval list option \<Rightarrow> string \<Rightarrow> bool" where
  "passes allow deny i \<longleftrightarrow>
     (case allow of None \<Rightarrow> True | Some a \<Rightarrow> a = [] \<or> JStr i \<in> set a)
     \<and> (case deny of None \<Rightarrow> True | Some d \<Rightarrow> JStr i \<notin> set d)"

definition select_spec ::
  "jsval list option \<Rightarrow> jsval list option \<Rightarrow> string list \<Rightarrow> string list" where
  "select_spec allow deny ids = filter (passes allow deny) ids"

definition tab_ids :: "string list \<Rightarrow> string list" where
  "tab_ids files = map sheet_of (filter is_html files)"

lemmas selector_defs [gs_defs] =
  is_html_def sheet_of_def selected_def sheetNames_def criteria_def passes_def
  select_spec_def tab_ids_def

section \<open>Names and stems\<close>

lemma sheet_of_html [simp]:
  "plain_name n \<Longrightarrow> sheet_of (n @ ''.html'') = n"
  using slice_to_append [of "''.html''" 5 n] by (simp add: sheet_of_def)

lemma is_html_stem [simp]: "plain_name n \<Longrightarrow> n \<noteq> [] \<Longrightarrow> is_html (n @ ''.html'')"
  by (simp add: is_html_def)

lemma is_html_basename: "is_html x \<Longrightarrow> sheet_of x @ ''.html'' = basename x"
proof -
  assume "is_html x"
  then obtain n where "basename x = n @ ''.html''"
    using extname_html_decomp [of x] by (auto simp: is_html_def)
  then show ?thesis
    using slice_to_append [of "''.html''" 5 n] by (simp add: sheet_of_def)
qed

lemma is_html_plain: "is_html x \<Longrightarrow> plain_name x \<Longrightarrow> sheet_of x @ ''.html'' = x"
  using is_html_basename [of x] by simp

lemma sheet_of_nonempty: "is_html x \<Longrightarrow> sheet_of x \<noteq> []"
proof -
  assume "is_html x"
  then obtain n where n: "n \<noteq> []" "basename x = n @ ''.html''"
    using extname_html_decomp [of x] by (auto simp: is_html_def)
  then have "sheet_of x = n"
    using slice_to_append [of "''.html''" 5 n] by (simp add: sheet_of_def)
  with n show ?thesis by simp
qed

lemma sheet_of_plain: "plain_name (sheet_of x)"
proof -
  have "prefix (sheet_of x) (basename x)"
    by (simp add: sheet_of_def slice_to_prefix)
  then obtain zs where "basename x = sheet_of x @ zs"
    by (auto simp: prefix_def)
  moreover have "plain_name (basename x)"
    by (simp add: basename_def)
  ultimately show ?thesis by simp
qed

lemma sheet_of_inj:
  assumes "is_html x" "is_html y" "plain_name x" "plain_name y" "sheet_of x = sheet_of y"
  shows "x = y"
proof -
  have "x = sheet_of x @ ''.html''" using assms(1,3) by (simp add: is_html_plain)
  also have "\<dots> = sheet_of y @ ''.html''" using assms(5) by simp
  also have "\<dots> = y" using assms(2,4) by (simp add: is_html_plain)
  finally show ?thesis .
qed

section \<open>The chain implements the contract\<close>

lemma selected_passes:
  "selected inc exc x \<longleftrightarrow> passes (criteria inc) (criteria exc) x"
  by (auto simp: selected_def passes_def criteria_def array_includes_iff)

lemma set_tab_ids:
  "list_all plain_name files \<Longrightarrow>
     set (tab_ids files) = {n. n \<noteq> [] \<and> n @ ''.html'' \<in> set files}"
proof (intro equalityI subsetI)
  fix n
  assume plain: "list_all plain_name files" and "n \<in> set (tab_ids files)"
  then obtain x where x: "x \<in> set files" "is_html x" "n = sheet_of x"
    by (auto simp: tab_ids_def)
  with plain have "plain_name x" by (auto simp: list_all_iff)
  with x show "n \<in> {n. n \<noteq> [] \<and> n @ ''.html'' \<in> set files}"
    by (simp add: is_html_plain sheet_of_nonempty)
next
  fix n
  assume plain: "list_all plain_name files"
    and "n \<in> {n. n \<noteq> [] \<and> n @ ''.html'' \<in> set files}"
  then have n: "n \<noteq> []" "n @ ''.html'' \<in> set files" by simp_all
  with plain have "plain_name (n @ ''.html'')" by (auto simp: list_all_iff)
  then have "plain_name n" by simp
  with n have "is_html (n @ ''.html'')" "sheet_of (n @ ''.html'') = n" by simp_all
  with n(2) show "n \<in> set (tab_ids files)"
    by (force simp: tab_ids_def)
qed

lemma tab_ids_html: "map (\<lambda>n. n @ ''.html'') (tab_ids files) = map basename (filter is_html files)"
  by (simp add: tab_ids_def is_html_basename)

lemma distinct_tab_ids:
  "distinct files \<Longrightarrow> list_all plain_name files \<Longrightarrow> distinct (tab_ids files)"
  unfolding tab_ids_def
  by (rule distinct_map_inj_onI) (auto simp: list_all_iff intro: sheet_of_inj)

lemma distinct_sheetNames:
  "distinct files \<Longrightarrow> list_all plain_name files \<Longrightarrow> distinct (sheetNames cfg files)"
  using distinct_tab_ids [of files] by (simp add: sheetNames_def tab_ids_def)

lemma sheetNames_plain: "n \<in> set (sheetNames cfg files) \<Longrightarrow> plain_name n"
  by (auto simp: sheetNames_def sheet_of_plain)

section \<open>A directory to try the definitions on\<close>

text \<open>Five tabs, of which \<^verbatim>\<open>A\<close> and \<^verbatim>\<open>C\<close> are asked for and \<^verbatim>\<open>C\<close> is excluded.\<close>

definition ex_conf :: config where
  "ex_conf =
     \<lparr> sheetID = ''doc'', outputDir = ''out'',
       includeSheets = JArr [JStr ''A'', JStr ''C''], excludeSheets = JArr [JStr ''C''],
       concurrency = 2 \<rparr>"

definition ex_files :: "string list" where
  "ex_files = [''A.html'', ''B.html'', ''C.html'', ''D.html'', ''E.html'']"

section \<open>Properties of the selection\<close>

text \<open>
  C33. The chain of \<^verbatim>\<open>filter\<close>, \<^verbatim>\<open>map\<close> and \<^verbatim>\<open>filter\<close> implements the contract of the
  tab selector: the sheet names are the tab identifiers of the directory that pass
  the allow-list and the deny-list read off the configuration.
\<close>

theorem sheetNames_refines:
  "sheetNames cfg files =
     select_spec (criteria (includeSheets cfg)) (criteria (excludeSheets cfg)) (tab_ids files)"
  by (simp add: sheetNames_def select_spec_def tab_ids_def selected_passes [abs_def])

text \<open>
  C37. Every selected sheet has its page in the directory, and the sheets come in
  the order of the directory listing: the names of their pages are a subsequence
  of the listing.
\<close>

theorem sheetNames_subseq:
  assumes "list_all plain_name files"
  shows "subseq (map (\<lambda>n. n @ ''.html'') (sheetNames cfg files)) files"
proof -
  let ?sel = "selected (includeSheets cfg) (excludeSheets cfg)"
  have "map (\<lambda>n. n @ ''.html'') (sheetNames cfg files)
      = map (\<lambda>x. sheet_of x @ ''.html'') (filter (?sel \<circ> sheet_of) (filter is_html files))"
    by (simp add: sheetNames_def filter_map comp_def)
  also have "\<dots> = filter (\<lambda>x. is_html x \<and> ?sel (sheet_of x)) files"
    using assms by (induction files) (auto simp: is_html_plain)
  finally show ?thesis by simp
qed

theorem sheetNames_subseq_witness:
  "subseq (map (\<lambda>n. n @ ''.html'') (sheetNames ex_conf ex_files)) ex_files"
  using sheetNames_subseq [of ex_files ex_conf]
  by (simp add: ex_files_def plain_name_def)

text \<open>
  C38. No sheet is selected twice: the names of a directory are distinct, and so
  are the sheet names, hence the paths of the pictures.
\<close>

theorem sheetNames_distinct:
  assumes "distinct files" and "list_all plain_name files"
  shows "distinct (sheetNames cfg files)"
  using assms by (rule distinct_sheetNames)

theorem sheetNames_distinct_witness: "distinct (sheetNames ex_conf ex_files)"
  using sheetNames_distinct [of ex_files ex_conf]
  by (simp add: ex_files_def plain_name_def)

text \<open>
  C36. The deny-list wins: a sheet named in \<^verbatim>\<open>excludeSheets\<close> is never selected,
  whatever \<^verbatim>\<open>includeSheets\<close> says.
\<close>

theorem deny_wins:
  assumes "excludeSheets cfg = JArr d" and "JStr x \<in> set d"
  shows "x \<notin> set (sheetNames cfg files)"
  using assms by (simp add: sheetNames_def selected_def array_includes_iff)

theorem deny_wins_witness: "''C'' \<notin> set (sheetNames ex_conf ex_files)"
  using deny_wins [of ex_conf "[JStr ''C'']" "''C''" ex_files]
  by (simp add: ex_conf_def)

text \<open>
  Stripping the extension undoes appending it: a name without a slash that
  is not empty, followed by \<^verbatim>\<open>.html\<close>, is taken for a page and gives the name back;
  and a page name of the directory is its sheet name followed by \<^verbatim>\<open>.html\<close>.
\<close>

lemma sheet_of_roundtrip:
  assumes "plain_name n" and "n \<noteq> []"
  shows "is_html (n @ ''.html'') \<and> sheet_of (n @ ''.html'') = n"
  using assms by simp

lemma sheet_of_roundtrip_witness:
  "is_html (''Sheet 1'' @ ''.html'') \<and> sheet_of (''Sheet 1'' @ ''.html'') = ''Sheet 1''"
  using sheet_of_roundtrip [of "''Sheet 1''"] by (simp add: plain_name_def)

text \<open>
  The example of the specification: of five tabs with \<^verbatim>\<open>A\<close> and \<^verbatim>\<open>C\<close> included
  and \<^verbatim>\<open>C\<close> excluded, exactly \<^verbatim>\<open>A\<close> is selected.
\<close>

lemma sheetNames_example: "sheetNames ex_conf ex_files = [''A'']"
  by code_simp

end
