(* ===== verification/GS_Region.thy ===== *)
theory GS_Region
  imports GS_Prelude
begin

text \<open>
  The geometry of \<^verbatim>\<open>screenshot\<close> in \<^verbatim>\<open>src/index.js\<close> (lines 50 to 64): the rectangle
  to capture (\<open>clipArea\<close>, the body of the table without the frozen row header and
  its border) and the viewport the page is resized to before the capture
  (\<open>viewportSize\<close>). \<open>locate\<close> is the sequence of queries that leads to the
  rectangle, with the \<^verbatim>\<open>TypeError\<close> the program runs into when an element or its
  box is \<^verbatim>\<open>null\<close>. The lemmas place the rectangle in the body's box (\<open>right_edge\<close>,
  \<open>bottom_edge\<close>, \<open>lies_in\<close>), bound the viewport from below, and say when the
  rectangle lies inside the viewport.
\<close>

section \<open>Errors\<close>

datatype error =
    TypeError
  | LaunchFailed | NewPageFailed | GotoFailed
  | SetViewportFailed | ScreenshotFailed | CloseFailed
  | BrowserCloseFailed | RmFailed

section \<open>Rectangles and viewports\<close>

record rect =
  rect_x :: num
  rect_y :: num
  rect_width :: num
  rect_height :: num

record viewport =
  vp_width :: int
  vp_height :: int

text \<open>
  An element handle is known by what \<^verbatim>\<open>boundingBox()\<close> answers for it: a rectangle,
  or \<^verbatim>\<open>null\<close> for an element that is not visible. A page answers \<^verbatim>\<open>page.$(selector)\<close>
  with an element, or with \<^verbatim>\<open>null\<close> when nothing matches.
\<close>

type_synonym element = "rect option"
type_synonym dom = "string \<Rightarrow> element option"

section \<open>Region locator and viewport sizer\<close>

definition clipArea :: "num \<Rightarrow> rect \<Rightarrow> rect" where
  "clipArea rowHeaderWidth boundingBox =
     \<lparr> rect_x = rect_x boundingBox + rowHeaderWidth + 1,
       rect_y = rect_y boundingBox,
       rect_width = rect_width boundingBox - rowHeaderWidth - 1,
       rect_height = rect_height boundingBox \<rparr>"

definition viewportSize :: "rect \<Rightarrow> viewport" where
  "viewportSize clip =
     \<lparr> vp_width = max 1920 (\<lfloor>rect_width clip\<rfloor> + 100),
       vp_height = max 1080 (\<lfloor>rect_height clip\<rfloor> + 100) \<rparr>"

definition locate :: "dom \<Rightarrow> error + rect" where
  "locate page =
     (case page ''.row-header-wrapper'' of
        None \<Rightarrow> Inl TypeError
      | Some rowHeader \<Rightarrow>
          (case rowHeader of
             None \<Rightarrow> Inl TypeError
           | Some box \<Rightarrow>
               (case page ''tbody'' of
                  None \<Rightarrow> Inl TypeError
                | Some tbody \<Rightarrow>
                    (case tbody of
                       None \<Rightarrow> Inl TypeError
                     | Some boundingBox \<Rightarrow> Inr (clipArea (rect_width box) boundingBox)))))"

text \<open>A rectangle lies inside a viewport when it starts at or after the origin and ends in it.\<close>

definition inside :: "rect \<Rightarrow> viewport \<Rightarrow> bool" where
  "inside r v \<longleftrightarrow>
     0 \<le> rect_x r \<and> 0 \<le> rect_y r
     \<and> rect_x r + rect_width r \<le> of_int (vp_width v)
     \<and> rect_y r + rect_height r \<le> of_int (vp_height v)"

text \<open>
  The right and the lower edge of a rectangle, and a rectangle that lies within
  another one.
\<close>

definition right_edge :: "rect \<Rightarrow> num" where
  "right_edge r = rect_x r + rect_width r"

definition bottom_edge :: "rect \<Rightarrow> num" where
  "bottom_edge r = rect_y r + rect_height r"

definition lies_in :: "rect \<Rightarrow> rect \<Rightarrow> bool" where
  "lies_in r b \<longleftrightarrow>
     rect_x b \<le> rect_x r \<and> right_edge r \<le> right_edge b
     \<and> rect_y b \<le> rect_y r \<and> bottom_edge r \<le> bottom_edge b"

lemmas region_defs [gs_defs] = clipArea_def viewportSize_def locate_def inside_def

lemmas edge_defs = right_edge_def bottom_edge_def lies_in_def

section \<open>The rectangle\<close>

lemma clipArea_simps [simp]:
  "rect_x (clipArea w b) = rect_x b + w + 1"
  "rect_y (clipArea w b) = rect_y b"
  "rect_width (clipArea w b) = rect_width b - w - 1"
  "rect_height (clipArea w b) = rect_height b"
  by (simp_all add: clipArea_def)

lemma clipArea_right_edge:
  "rect_x (clipArea w b) + rect_width (clipArea w b) = rect_x b + rect_width b"
  by simp

lemma clipArea_width_pos_iff: "0 < rect_width (clipArea w b) \<longleftrightarrow> w + 1 < rect_width b"
  by auto

section \<open>Location succeeds exactly on a page with both boxes\<close>

lemma locate_Inr_iff:
  "locate page = Inr r \<longleftrightarrow>
     (\<exists>hb bb. page ''.row-header-wrapper'' = Some (Some hb) \<and> page ''tbody'' = Some (Some bb)
        \<and> r = clipArea (rect_width hb) bb)"
  by (auto simp: locate_def split: option.splits)

lemma locate_Inl_iff:
  "locate page = Inl e \<longleftrightarrow>
     e = TypeError \<and>
     (page ''.row-header-wrapper'' = None \<or> page ''.row-header-wrapper'' = Some None
      \<or> page ''tbody'' = None \<or> page ''tbody'' = Some None)"
  by (auto simp: locate_def split: option.splits)

section \<open>The viewport\<close>

lemma viewportSize_simps [simp]:
  "vp_width (viewportSize r) = max 1920 (\<lfloor>rect_width r\<rfloor> + 100)"
  "vp_height (viewportSize r) = max 1080 (\<lfloor>rect_height r\<rfloor> + 100)"
  by (simp_all add: viewportSize_def)

lemma floor_margin: "(x::rat) + 99 < of_int (max b (\<lfloor>x\<rfloor> + 100))"
proof -
  have "x < of_int \<lfloor>x\<rfloor> + 1" by linarith
  then have "x + 99 < of_int (\<lfloor>x\<rfloor> + 100)" by simp
  also have "of_int (\<lfloor>x\<rfloor> + 100) \<le> (of_int (max b (\<lfloor>x\<rfloor> + 100)) :: rat)"
    by (simp only: of_int_le_iff)
  finally show ?thesis .
qed

lemma viewport_axis:
  assumes "x \<le> 99 \<or> x + w \<le> of_int b"
  shows "x + (w::rat) \<le> of_int (max b (\<lfloor>w\<rfloor> + 100))"
proof -
  have "w + 99 < of_int (max b (\<lfloor>w\<rfloor> + 100))" by (rule floor_margin)
  moreover have "(of_int b :: rat) \<le> of_int (max b (\<lfloor>w\<rfloor> + 100))"
    by (simp only: of_int_le_iff max.cobounded1)
  ultimately show ?thesis using assms by auto
qed

section \<open>A page to try the definitions on\<close>

text \<open>
  A row header 120 wide and a body at the left edge of the page, 1000 wide: the
  example of the specification.
\<close>

definition ex_header :: rect where
  "ex_header = \<lparr>rect_x = 0, rect_y = 0, rect_width = 120, rect_height = 20\<rparr>"

definition ex_body :: rect where
  "ex_body = \<lparr>rect_x = 0, rect_y = 21, rect_width = 1000, rect_height = 400\<rparr>"

definition ex_dom :: dom where
  "ex_dom sel =
     (if sel = ''.row-header-wrapper'' then Some (Some ex_header)
      else if sel = ''tbody'' then Some (Some ex_body) else None)"

definition ex_clip :: rect where
  "ex_clip = \<lparr>rect_x = 121, rect_y = 21, rect_width = 879, rect_height = 400\<rparr>"

lemmas ex_region_defs = ex_header_def ex_body_def ex_dom_def ex_clip_def

section \<open>Properties of the region and of the viewport\<close>

text \<open>
  C29. On a page that has a visible row header and a visible table body the region
  to capture is found, and it is the part of the body to the right of the header:
  it starts at the body's left edge plus the header's width plus one, which is one
  unit to the right of the header when header and body start at the same left
  edge; it ends at the body's right edge; it has the body's upper and lower edge;
  and it lies within the body when the header's width is not negative.
\<close>

theorem locate_region:
  assumes "page ''.row-header-wrapper'' = Some (Some hb)"
    and "page ''tbody'' = Some (Some bb)"
  shows "\<exists>clip. locate page = Inr clip
     \<and> rect_x clip = rect_x bb + rect_width hb + 1
     \<and> (rect_x hb = rect_x bb \<longrightarrow> rect_x clip = right_edge hb + 1)
     \<and> right_edge clip = right_edge bb
     \<and> rect_y clip = rect_y bb \<and> bottom_edge clip = bottom_edge bb
     \<and> (0 \<le> rect_width hb \<longrightarrow> lies_in clip bb)"
  using assms by (simp add: locate_def edge_defs)

theorem locate_region_witness:
  "\<exists>clip. locate ex_dom = Inr clip \<and> rect_x clip = 121 \<and> rect_x clip = right_edge ex_header + 1
     \<and> right_edge clip = 1000 \<and> rect_y clip = 21 \<and> bottom_edge clip = 421
     \<and> lies_in clip ex_body"
  using locate_region [of ex_dom ex_header ex_body]
  by (simp add: ex_region_defs edge_defs)

text \<open>
  C32. The viewport the page is resized to is at least 1920 by 1080, and on each
  axis it exceeds the extent of the region by more than 99 units.
\<close>

theorem viewport_bounds:
  "1920 \<le> vp_width (viewportSize r) \<and> 1080 \<le> vp_height (viewportSize r)
   \<and> rect_width r + 99 < of_int (vp_width (viewportSize r))
   \<and> rect_height r + 99 < of_int (vp_height (viewportSize r))"
  by (simp add: floor_margin)

text \<open>
  C30. A region that starts on the page lies inside the viewport it is sized for
  whenever, on each axis, its offset is at most 99 or it ends within the baseline
  of 1920 by 1080.
\<close>

theorem viewport_contains_clip:
  assumes "0 \<le> rect_x r" and "0 \<le> rect_y r"
    and "rect_x r \<le> 99 \<or> rect_x r + rect_width r \<le> 1920"
    and "rect_y r \<le> 99 \<or> rect_y r + rect_height r \<le> 1080"
  shows "inside r (viewportSize r)"
proof -
  have w: "rect_x r + rect_width r \<le> of_int (max 1920 (\<lfloor>rect_width r\<rfloor> + 100))"
    using assms(3) by (intro viewport_axis) simp
  have h: "rect_y r + rect_height r \<le> of_int (max 1080 (\<lfloor>rect_height r\<rfloor> + 100))"
    using assms(4) by (intro viewport_axis) simp
  from assms(1,2) w h show ?thesis
    by (simp add: inside_def)
qed

theorem viewport_contains_clip_witness: "inside ex_clip (viewportSize ex_clip)"
  using viewport_contains_clip [of ex_clip] by (simp add: ex_clip_def)

text \<open>
  C31. The margin of 100 does not cover every offset: a region that starts more
  than 100 units from the left edge and is at least 1820 wide ends outside the
  viewport it is sized for.
\<close>

theorem viewport_misses_clip:
  assumes "100 < rect_x r" and "1820 \<le> rect_width r"
  shows "\<not> inside r (viewportSize r)"
proof -
  from assms(2) have "1820 \<le> \<lfloor>rect_width r\<rfloor>" by simp
  then have "vp_width (viewportSize r) = \<lfloor>rect_width r\<rfloor> + 100" by simp
  then have "of_int (vp_width (viewportSize r)) = (of_int \<lfloor>rect_width r\<rfloor> :: rat) + 100"
    by simp
  moreover have "(of_int \<lfloor>rect_width r\<rfloor> :: rat) \<le> rect_width r" by simp
  ultimately have "of_int (vp_width (viewportSize r)) < rect_x r + rect_width r"
    using assms(1) by linarith
  then show ?thesis by (simp add: inside_def)
qed

theorem viewport_misses_clip_witness:
  "\<not> inside (clipArea 120 \<lparr>rect_x = 0, rect_y = 21, rect_width = 3000, rect_height = 400\<rparr>)
     (viewportSize (clipArea 120 \<lparr>rect_x = 0, rect_y = 21, rect_width = 3000, rect_height = 400\<rparr>))"
  using viewport_misses_clip
    [of "clipArea 120 \<lparr>rect_x = 0, rect_y = 21, rect_width = 3000, rect_height = 400\<rparr>"]
  by simp

end
