(* ===== verification/GS_Screenshot.thy ===== *)
theory GS_Screenshot
  imports GS_Region
begin

text \<open>
  The function \<^verbatim>\<open>screenshot\<close> of \<^verbatim>\<open>src/index.js\<close> (lines 45 to 72) as a small machine.
  Every \<^verbatim>\<open>await\<close> of the function is a point where it is suspended; a \<open>phase\<close> names
  the call it waits for and carries the local variables it needs afterwards. One
  \<open>job_step\<close> is the stretch of code from one suspension to the next: it reads the
  browser's answer from the environment of the page (\<open>page_env\<close>), and reports what
  it did to the world as an \<open>effect\<close>. Calls in the \<^verbatim>\<open>try\<close> block that throw lead to
  the \<^verbatim>\<open>catch\<close> (the error is logged) and the \<^verbatim>\<open>finally\<close> (the page is closed); the
  two calls before the block reject the promise of the job.

  \<open>try_block\<close> is the same block in one piece, as a value of \<open>error + rect\<close>; \<open>run_job\<close>
  iterates the steps. The lemmas relate the two and describe every outcome of a job;
  \<open>phase_ok\<close> is the invariant of a job, kept by every step.
\<close>

section \<open>What the browser answers for one page\<close>

record page_env =
  newPage_ok :: bool
  goto_ok :: bool
  page_dom :: dom
  setViewportSize_ok :: bool
  screenshot_ok :: bool
  close_ok :: bool

section \<open>Phases and effects\<close>

datatype phase =
    NewPage
  | Goto
  | QueryHeader
  | BoxHeader element
  | QueryBody num
  | BoxBody num element
  | SetViewport rect
  | Screenshot rect
  | Close
  | Fulfilled
  | Rejected error

datatype effect =
    Silent
  | PageOpened
  | Logged error
  | ViewportSet viewport
  | Captured rect
  | PageClosed

fun settled :: "phase \<Rightarrow> bool" where
  "settled Fulfilled = True"
| "settled (Rejected e) = True"
| "settled _ = False"

section \<open>One step of a job\<close>

fun job_step :: "page_env \<Rightarrow> phase \<Rightarrow> phase \<times> effect" where
  "job_step p NewPage =
     (if newPage_ok p then (Goto, PageOpened) else (Rejected NewPageFailed, Silent))"
| "job_step p Goto =
     (if goto_ok p then (QueryHeader, Silent) else (Rejected GotoFailed, Silent))"
| "job_step p QueryHeader =
     (case page_dom p ''.row-header-wrapper'' of
        None \<Rightarrow> (Close, Logged TypeError)
      | Some rowHeader \<Rightarrow> (BoxHeader rowHeader, Silent))"
| "job_step p (BoxHeader rowHeader) =
     (case rowHeader of
        None \<Rightarrow> (Close, Logged TypeError)
      | Some box \<Rightarrow> (QueryBody (rect_width box), Silent))"
| "job_step p (QueryBody rowHeaderWidth) =
     (case page_dom p ''tbody'' of
        None \<Rightarrow> (Close, Logged TypeError)
      | Some tbody \<Rightarrow> (BoxBody rowHeaderWidth tbody, Silent))"
| "job_step p (BoxBody rowHeaderWidth tbody) =
     (case tbody of
        None \<Rightarrow> (Close, Logged TypeError)
      | Some boundingBox \<Rightarrow> (SetViewport (clipArea rowHeaderWidth boundingBox), Silent))"
| "job_step p (SetViewport clip) =
     (if setViewportSize_ok p then (Screenshot clip, ViewportSet (viewportSize clip))
      else (Close, Logged SetViewportFailed))"
| "job_step p (Screenshot clip) =
     (if screenshot_ok p then (Close, Captured clip) else (Close, Logged ScreenshotFailed))"
| "job_step p Close =
     (if close_ok p then (Fulfilled, PageClosed) else (Rejected CloseFailed, Silent))"
| "job_step p Fulfilled = (Fulfilled, Silent)"
| "job_step p (Rejected e) = (Rejected e, Silent)"

section \<open>The try block in one piece, and whole runs\<close>

definition try_block :: "page_env \<Rightarrow> error + rect" where
  "try_block p =
     (case locate (page_dom p) of
        Inl e \<Rightarrow> Inl e
      | Inr clip \<Rightarrow>
          if \<not> setViewportSize_ok p then Inl SetViewportFailed
          else if \<not> screenshot_ok p then Inl ScreenshotFailed
          else Inr clip)"

primrec run_job :: "nat \<Rightarrow> page_env \<Rightarrow> phase \<Rightarrow> phase \<times> effect list" where
  "run_job 0 p ph = (ph, [])"
| "run_job (Suc n) p ph =
     (if settled ph then (ph, [])
      else let (ph', eff) = job_step p ph; (ph'', effs) = run_job n p ph'
           in (ph'', eff # effs))"

text \<open>The number of suspensions a job has before it at most.\<close>

fun rank :: "phase \<Rightarrow> nat" where
  "rank NewPage = 9"
| "rank Goto = 8"
| "rank QueryHeader = 7"
| "rank (BoxHeader _) = 6"
| "rank (QueryBody _) = 5"
| "rank (BoxBody _ _) = 4"
| "rank (SetViewport _) = 3"
| "rank (Screenshot _) = 2"
| "rank Close = 1"
| "rank Fulfilled = 0"
| "rank (Rejected _) = 0"

text \<open>
  Whether the page of a job is open in the browser: from the answer of \<^verbatim>\<open>newPage\<close>
  to the answer of \<^verbatim>\<open>close\<close>, and for good after a failed \<^verbatim>\<open>goto\<close> or \<^verbatim>\<open>close\<close>.
\<close>

fun holds_page :: "phase \<Rightarrow> bool" where
  "holds_page NewPage = False"
| "holds_page Fulfilled = False"
| "holds_page (Rejected e) = (e = GotoFailed \<or> e = CloseFailed)"
| "holds_page _ = True"

text \<open>
  The invariant of a job: the local variables a phase carries hold what the page
  answered (\<open>phase_ok\<close>). A job is past its \<^verbatim>\<open>try\<close> block (\<open>past_try\<close>) once it
  waits for \<^verbatim>\<open>page.close\<close> or has settled after it; on its way there it has emitted
  one picture or one line on the console (\<open>emits\<close>).
\<close>

definition header_width :: "page_env \<Rightarrow> num \<Rightarrow> bool" where
  "header_width p w =
     (case page_dom p ''.row-header-wrapper'' of Some (Some box) \<Rightarrow> w = rect_width box | _ \<Rightarrow> False)"

fun phase_ok :: "page_env \<Rightarrow> phase \<Rightarrow> bool" where
  "phase_ok p (BoxHeader rowHeader) = (page_dom p ''.row-header-wrapper'' = Some rowHeader)"
| "phase_ok p (QueryBody w) = header_width p w"
| "phase_ok p (BoxBody w tbody) = (header_width p w \<and> page_dom p ''tbody'' = Some tbody)"
| "phase_ok p (SetViewport clip) = (locate (page_dom p) = Inr clip)"
| "phase_ok p (Screenshot clip) = (locate (page_dom p) = Inr clip \<and> setViewportSize_ok p)"
| "phase_ok p _ = True"

fun past_try :: "phase \<Rightarrow> bool" where
  "past_try Close = True"
| "past_try Fulfilled = True"
| "past_try (Rejected e) = (e = CloseFailed)"
| "past_try _ = False"

fun emits :: "effect \<Rightarrow> bool" where
  "emits (Captured clip) = True"
| "emits (Logged e) = True"
| "emits _ = False"

text \<open>
  The effects of the \<^verbatim>\<open>try\<close> block with its \<^verbatim>\<open>catch\<close>, the final phase of a job and
  the effects of a whole job, read off the environment of its page.
\<close>

definition try_effects :: "page_env \<Rightarrow> effect list" where
  "try_effects p =
     (case locate (page_dom p) of
        Inl e \<Rightarrow> [Logged e]
      | Inr clip \<Rightarrow>
          if \<not> setViewportSize_ok p then [Logged SetViewportFailed]
          else ViewportSet (viewportSize clip)
                 # (if screenshot_ok p then [Captured clip] else [Logged ScreenshotFailed]))"

definition job_outcome :: "page_env \<Rightarrow> phase" where
  "job_outcome p =
     (if \<not> newPage_ok p then Rejected NewPageFailed
      else if \<not> goto_ok p then Rejected GotoFailed
      else if \<not> close_ok p then Rejected CloseFailed
      else Fulfilled)"

definition job_effects :: "page_env \<Rightarrow> effect list" where
  "job_effects p =
     (if \<not> newPage_ok p then []
      else PageOpened #
        (if \<not> goto_ok p then []
         else try_effects p @ (if close_ok p then [PageClosed] else [])))"

definition visible :: "effect list \<Rightarrow> effect list" where
  "visible effs = filter (\<lambda>e. e \<noteq> Silent) effs"

lemmas screenshot_defs [gs_defs] =
  try_block_def try_effects_def job_outcome_def job_effects_def visible_def

section \<open>Steps make progress\<close>

lemma settled_iff: "settled ph \<longleftrightarrow> ph = Fulfilled \<or> (\<exists>e. ph = Rejected e)"
  by (cases ph) auto

lemma settled_iff_rank: "settled ph \<longleftrightarrow> rank ph = 0"
  by (cases ph) auto

lemma rank_job_step: "\<not> settled ph \<Longrightarrow> rank (fst (job_step p ph)) < rank ph"
  by (cases ph) (auto split: option.splits)

lemma job_step_settled [simp]: "settled ph \<Longrightarrow> job_step p ph = (ph, Silent)"
  by (cases ph) auto

lemma rank_le_9: "rank ph \<le> 9"
  by (cases ph) auto

lemma run_job_settles: "rank ph \<le> n \<Longrightarrow> settled (fst (run_job n p ph))"
proof (induction n arbitrary: ph)
  case 0
  then show ?case by (simp add: settled_iff_rank)
next
  case (Suc n)
  show ?case
  proof (cases "settled ph")
    case True
    then show ?thesis by simp
  next
    case False
    with rank_job_step [of ph p] Suc.prems have "rank (fst (job_step p ph)) \<le> n" by arith
    then have "settled (fst (run_job n p (fst (job_step p ph))))" by (rule Suc.IH)
    with False show ?thesis by (simp add: split_beta Let_def)
  qed
qed

section \<open>What a step does to the page\<close>

lemma job_step_opens:
  "snd (job_step p ph) = PageOpened \<longleftrightarrow> ph = NewPage \<and> newPage_ok p"
  by (cases ph) (auto split: option.splits)

lemma job_step_closes:
  "snd (job_step p ph) = PageClosed \<longleftrightarrow> ph = Close \<and> close_ok p"
  by (cases ph) (auto split: option.splits)

lemma holds_page_job_step:
  "holds_page (fst (job_step p ph)) \<longleftrightarrow>
     (holds_page ph \<and> snd (job_step p ph) \<noteq> PageClosed) \<or> snd (job_step p ph) = PageOpened"
  by (cases ph) (auto split: option.splits)

lemma job_step_Fulfilled_iff:
  "fst (job_step p ph) = Fulfilled \<longleftrightarrow> ph = Fulfilled \<or> (ph = Close \<and> close_ok p)"
  by (cases ph) (auto split: option.splits)

lemma job_step_Rejected_iff:
  "fst (job_step p ph) = Rejected e \<longleftrightarrow>
     ph = Rejected e \<or> (ph = NewPage \<and> \<not> newPage_ok p \<and> e = NewPageFailed)
     \<or> (ph = Goto \<and> \<not> goto_ok p \<and> e = GotoFailed)
     \<or> (ph = Close \<and> \<not> close_ok p \<and> e = CloseFailed)"
  by (cases ph) (auto split: option.splits)

section \<open>The try block and its effects\<close>

lemma try_block_Inr_iff:
  "try_block p = Inr clip \<longleftrightarrow>
     locate (page_dom p) = Inr clip \<and> setViewportSize_ok p \<and> screenshot_ok p"
  by (auto simp: try_block_def split: sum.splits)

lemma Captured_try_effects: "Captured clip \<in> set (try_effects p) \<longleftrightarrow> try_block p = Inr clip"
  by (auto simp: try_effects_def try_block_def split: sum.splits)

lemma Logged_try_effects: "Logged e \<in> set (try_effects p) \<longleftrightarrow> try_block p = Inl e"
  by (auto simp: try_effects_def try_block_def split: sum.splits)

lemma try_effects_no_page [simp]:
  "PageOpened \<notin> set (try_effects p)" "PageClosed \<notin> set (try_effects p)"
  by (auto simp: try_effects_def split: sum.splits)

section \<open>The invariant of a job\<close>

lemma header_width_locate:
  "header_width p w \<Longrightarrow>
     locate (page_dom p) =
       (case page_dom p ''tbody'' of
          Some (Some boundingBox) \<Rightarrow> Inr (clipArea w boundingBox) | _ \<Rightarrow> Inl TypeError)"
  by (auto simp: header_width_def locate_def split: option.splits)

lemma phase_ok_job_step: "phase_ok p ph \<Longrightarrow> phase_ok p (fst (job_step p ph))"
  by (cases ph) (auto simp: header_width_def header_width_locate split: option.splits)

lemma job_step_Captured:
  assumes "phase_ok p ph" and "snd (job_step p ph) = Captured clip"
  shows "try_block p = Inr clip"
  using assms by (cases ph) (auto simp: try_block_def split: option.splits if_splits)

lemma job_step_Logged:
  assumes "phase_ok p ph" and "snd (job_step p ph) = Logged e"
  shows "try_block p = Inl e"
  using assms
  by (cases ph)
    (auto simp: try_block_def locate_def header_width_def split: option.splits if_splits)

lemma past_try_job_step:
  "past_try (fst (job_step p ph)) \<longleftrightarrow> past_try ph \<or> emits (snd (job_step p ph))"
  by (cases ph) (auto split: option.splits)

lemma past_try_silent: "past_try ph \<Longrightarrow> \<not> emits (snd (job_step p ph))"
  by (cases ph) auto

lemma emits_iff: "emits eff \<longleftrightarrow> (\<exists>clip. eff = Captured clip) \<or> (\<exists>e. eff = Logged e)"
  by (cases eff) auto

section \<open>A page to try the definitions on\<close>

definition ex_page :: page_env where
  "ex_page =
     \<lparr> newPage_ok = True, goto_ok = True, page_dom = ex_dom,
       setViewportSize_ok = True, screenshot_ok = True, close_ok = True \<rparr>"

section \<open>Properties of a job\<close>

text \<open>
  C26. Nine steps settle a job, and they do what the function says read as a
  whole: the final phase is \<open>job_outcome\<close> and the effects, silent steps left out,
  are \<open>job_effects\<close>, that is the opening of the page, the effects of the
  \<^verbatim>\<open>try\<close> block and the closing of the page.
\<close>

theorem run_job_big_step:
  "fst (run_job 9 p NewPage) = job_outcome p
   \<and> visible (snd (run_job 9 p NewPage)) = job_effects p"
  by (auto simp: eval_nat_numeral job_outcome_def job_effects_def try_effects_def visible_def
       locate_def Let_def split: option.splits if_splits)

text \<open>
  C27. Every error of the \<^verbatim>\<open>try\<close> block is contained. Whichever call of the block
  fails, a query that finds no element, an element without a box, the resize or
  the capture, the nine steps of the job log that error and nothing else, take no
  picture, open the page once and close it once, and fulfil the job.
\<close>

theorem try_error_contained:
  assumes "newPage_ok p" and "goto_ok p" and "close_ok p" and "try_block p = Inl e"
  shows "fst (run_job 9 p NewPage) = Fulfilled
     \<and> filter emits (snd (run_job 9 p NewPage)) = [Logged e]
     \<and> filter (\<lambda>f. f = PageOpened \<or> f = PageClosed) (snd (run_job 9 p NewPage))
         = [PageOpened, PageClosed]"
  using assms
  by (auto simp: eval_nat_numeral try_block_def locate_def Let_def
       split: option.splits if_splits)

theorem try_error_contained_witness:
  "fst (run_job 9 (ex_page\<lparr>screenshot_ok := False\<rparr>) NewPage) = Fulfilled
   \<and> filter emits (snd (run_job 9 (ex_page\<lparr>screenshot_ok := False\<rparr>) NewPage))
       = [Logged ScreenshotFailed]
   \<and> filter (\<lambda>f. f = PageOpened \<or> f = PageClosed)
         (snd (run_job 9 (ex_page\<lparr>screenshot_ok := False\<rparr>) NewPage))
       = [PageOpened, PageClosed]"
  using try_error_contained [of "ex_page\<lparr>screenshot_ok := False\<rparr>" ScreenshotFailed]
  by (simp add: ex_page_def try_block_def locate_def ex_dom_def)

text \<open>
  C39. The navigation is outside the \<^verbatim>\<open>try\<close> block: when \<^verbatim>\<open>page.goto\<close> throws, the
  job is rejected after the page was opened, and the page is never closed.
\<close>

theorem goto_failure_leaks_page:
  assumes "newPage_ok p" and "\<not> goto_ok p"
  shows "run_job 9 p NewPage = (Rejected GotoFailed, [PageOpened, Silent])"
  using assms by (simp add: eval_nat_numeral)

theorem goto_failure_leaks_page_witness:
  "run_job 9 (ex_page\<lparr>goto_ok := False\<rparr>) NewPage = (Rejected GotoFailed, [PageOpened, Silent])"
  using goto_failure_leaks_page [of "ex_page\<lparr>goto_ok := False\<rparr>"]
  by (simp add: ex_page_def)

text \<open>
  C28. The nine steps of a job take a picture of \<open>clip\<close> iff the page opened, the
  navigation succeeded, both boxes were found with \<open>clip\<close> as the region they give,
  and neither the resize nor the capture threw; and a job never takes more than
  one picture or logs more than one error.
\<close>

theorem job_captures_iff:
  "(Captured clip \<in> set (snd (run_job 9 p NewPage)) \<longleftrightarrow>
      newPage_ok p \<and> goto_ok p \<and> locate (page_dom p) = Inr clip
      \<and> setViewportSize_ok p \<and> screenshot_ok p)
   \<and> length (filter emits (snd (run_job 9 p NewPage))) \<le> 1"
  by (auto simp: eval_nat_numeral locate_def Let_def split: option.splits if_splits)

end
