(* ===== verification/GS_Scheduler.thy ===== *)
theory GS_Scheduler
  imports GS_Selector GS_Screenshot
begin

text \<open>
  The render loop of \<^verbatim>\<open>src/index.js\<close> (lines 89 to 104): one browser, one job per
  selected sheet, and the array \<^verbatim>\<open>promises\<close> that bounds the jobs in flight.

  The state \<open>sched\<close> holds what the main function and the jobs share: the sheets the
  \<^verbatim>\<open>for\<close> loop has not reached (\<open>todo\<close>), the array \<open>promises\<close> (a promise is
  named by the index of its job), the jobs with their phases, the point where the
  main function is suspended (\<open>pc\<close>), and the observable world (browser, open pages,
  console, files written, the extracted directory). The main function runs without
  interruption from one \<^verbatim>\<open>await\<close> to the next, so \<open>loop\<close> is a function: it starts
  jobs until the array is full or the sheets are used up. Everything else happens
  when the browser answers a call: \<open>job_event\<close> advances one job by one step, and
  when the job settles, runs the \<^verbatim>\<open>then\<close> callback (\<open>then_callback\<close>, the splice)
  and lets the main function continue if its \<^verbatim>\<open>Promise.race\<close> or \<^verbatim>\<open>Promise.all\<close> has
  settled (\<open>wake\<close>). Which job the browser answers next is not determined: \<open>step\<close>
  is a relation, \<open>reachable\<close> its closure from the initial state.
\<close>

section \<open>State\<close>

record job =
  sheetName :: string
  htmlPath :: string
  pngPath :: string
  phase :: phase

datatype settlement = Pending | Resolved | RejectedWith error

datatype main_pc =
    AwaitLaunch
  | AwaitRace "nat list"
  | AwaitAll "nat list"
  | AwaitBrowserClose
  | AwaitRm
  | Done
  | Failed error

record sched =
  todo :: "string list"
  promises :: "nat list"
  jobs :: "job list"
  pc :: main_pc
  browser_open :: bool
  pages :: "nat list"
  console :: "error list"
  written :: "(string \<times> rect) list"
  extracted :: bool

text \<open>
  The environment of a run: the configuration, the directory the archive was
  extracted to, and what the browser and the file system answer.
\<close>

record env =
  conf :: config
  extractedDir :: string
  launch_ok :: bool
  page_of :: "string \<Rightarrow> page_env"
  browser_close_ok :: bool
  rm_ok :: bool

section \<open>Promise.race and Promise.all\<close>

text \<open>
  Both look at the promises of the array they were given, in its order.
  \<^verbatim>\<open>Promise.race\<close> settles as the first settled promise does and stays pending on an
  empty array; \<^verbatim>\<open>Promise.all\<close> is rejected with the first rejected promise and
  resolved when every promise is fulfilled.
\<close>

fun race_outcome :: "job list \<Rightarrow> nat list \<Rightarrow> settlement" where
  "race_outcome js [] = Pending"
| "race_outcome js (p # ps) =
     (case phase (js ! p) of
        Fulfilled \<Rightarrow> Resolved
      | Rejected e \<Rightarrow> RejectedWith e
      | _ \<Rightarrow> race_outcome js ps)"

fun all_outcome :: "job list \<Rightarrow> nat list \<Rightarrow> settlement" where
  "all_outcome js [] = Resolved"
| "all_outcome js (p # ps) =
     (case phase (js ! p) of
        Rejected e \<Rightarrow> RejectedWith e
      | Fulfilled \<Rightarrow> all_outcome js ps
      | _ \<Rightarrow> (case all_outcome js ps of RejectedWith e \<Rightarrow> RejectedWith e | _ \<Rightarrow> Pending))"

section \<open>The main function\<close>

definition launch :: "env \<Rightarrow> string \<Rightarrow> sched \<Rightarrow> sched" where
  "launch E name s =
     s\<lparr> jobs := jobs s @
           [\<lparr> sheetName = name,
              htmlPath = join [extractedDir E, name @ ''.html''],
              pngPath = join [normalize_path (outputDir (conf E)), name @ ''.jpg''],
              phase = NewPage \<rparr>],
        promises := promises s @ [length (jobs s)] \<rparr>"

definition await_all :: "sched \<Rightarrow> sched" where
  "await_all s =
     (case all_outcome (jobs s) (promises s) of
        Pending \<Rightarrow> s\<lparr>pc := AwaitAll (promises s)\<rparr>
      | Resolved \<Rightarrow> s\<lparr>pc := AwaitBrowserClose\<rparr>
      | RejectedWith e \<Rightarrow> s\<lparr>pc := Failed e\<rparr>)"

fun loop :: "env \<Rightarrow> string list \<Rightarrow> sched \<Rightarrow> sched" where
  "loop E [] s = await_all (s\<lparr>todo := []\<rparr>)"
| "loop E (name # rest) s =
     (let s1 = (launch E name s)\<lparr>todo := rest\<rparr>
      in if concurrency (conf E) \<le> int (length (promises s1))
         then (case race_outcome (jobs s1) (promises s1) of
                 Pending \<Rightarrow> s1\<lparr>pc := AwaitRace (promises s1)\<rparr>
               | Resolved \<Rightarrow> loop E rest s1
               | RejectedWith e \<Rightarrow> s1\<lparr>pc := Failed e\<rparr>)
         else loop E rest s1)"

definition wake :: "env \<Rightarrow> sched \<Rightarrow> sched" where
  "wake E s =
     (case pc s of
        AwaitRace snap \<Rightarrow>
          (case race_outcome (jobs s) snap of
             Pending \<Rightarrow> s
           | Resolved \<Rightarrow> loop E (todo s) s
           | RejectedWith e \<Rightarrow> s\<lparr>pc := Failed e\<rparr>)
      | AwaitAll snap \<Rightarrow>
          (case all_outcome (jobs s) snap of
             Pending \<Rightarrow> s
           | Resolved \<Rightarrow> s\<lparr>pc := AwaitBrowserClose\<rparr>
           | RejectedWith e \<Rightarrow> s\<lparr>pc := Failed e\<rparr>)
      | _ \<Rightarrow> s)"

section \<open>Events\<close>

definition then_callback :: "nat \<Rightarrow> sched \<Rightarrow> sched" where
  "then_callback j s =
     s\<lparr>promises := array_splice (indexOf (promises s) j) 1 (promises s)\<rparr>"

fun apply_effect :: "nat \<Rightarrow> effect \<Rightarrow> sched \<Rightarrow> sched" where
  "apply_effect j PageOpened s = s\<lparr>pages := pages s @ [j]\<rparr>"
| "apply_effect j PageClosed s = s\<lparr>pages := remove1 j (pages s)\<rparr>"
| "apply_effect j (Logged e) s = s\<lparr>console := console s @ [e]\<rparr>"
| "apply_effect j (Captured clip) s =
     s\<lparr>written := written s @ [(pngPath (jobs s ! j), clip)]\<rparr>"
| "apply_effect j (ViewportSet v) s = s"
| "apply_effect j Silent s = s"

definition advance :: "nat \<Rightarrow> phase \<Rightarrow> effect \<Rightarrow> sched \<Rightarrow> sched" where
  "advance j ph eff s =
     apply_effect j eff (s\<lparr>jobs := (jobs s)[j := (jobs s ! j)\<lparr>phase := ph\<rparr>]\<rparr>)"

definition job_event :: "env \<Rightarrow> nat \<Rightarrow> sched \<Rightarrow> sched" where
  "job_event E j s =
     (let jb = jobs s ! j;
          (ph, eff) = job_step (page_of E (htmlPath jb)) (phase jb);
          s1 = advance j ph eff s
      in case ph of
           Fulfilled \<Rightarrow> wake E (then_callback j s1)
         | Rejected e \<Rightarrow> wake E s1
         | _ \<Rightarrow> s1)"

definition launched :: "env \<Rightarrow> sched \<Rightarrow> sched" where
  "launched E s =
     (if launch_ok E then loop E (todo s) (s\<lparr>browser_open := True\<rparr>)
      else s\<lparr>pc := Failed LaunchFailed\<rparr>)"

definition browser_closed :: "env \<Rightarrow> sched \<Rightarrow> sched" where
  "browser_closed E s =
     (if browser_close_ok E then s\<lparr>browser_open := False, pc := AwaitRm\<rparr>
      else s\<lparr>pc := Failed BrowserCloseFailed\<rparr>)"

definition removed :: "env \<Rightarrow> sched \<Rightarrow> sched" where
  "removed E s =
     (if rm_ok E then s\<lparr>extracted := False, pc := Done\<rparr>
      else s\<lparr>pc := Failed RmFailed\<rparr>)"

definition init :: "env \<Rightarrow> string list \<Rightarrow> sched" where
  "init E files =
     \<lparr> todo = sheetNames (conf E) files, promises = [], jobs = [], pc = AwaitLaunch,
       browser_open = False, pages = [], console = [], written = [], extracted = True \<rparr>"

fun failed :: "main_pc \<Rightarrow> bool" where
  "failed (Failed e) = True"
| "failed _ = False"

inductive step :: "env \<Rightarrow> sched \<Rightarrow> sched \<Rightarrow> bool" for E where
  launch_answer: "pc s = AwaitLaunch \<Longrightarrow> step E s (launched E s)"
| job_answer:
    "j < length (jobs s) \<Longrightarrow> \<not> settled (phase (jobs s ! j)) \<Longrightarrow> \<not> failed (pc s) \<Longrightarrow>
       step E s (job_event E j s)"
| close_answer: "pc s = AwaitBrowserClose \<Longrightarrow> step E s (browser_closed E s)"
| rm_answer: "pc s = AwaitRm \<Longrightarrow> step E s (removed E s)"

inductive reachable :: "env \<Rightarrow> string list \<Rightarrow> sched \<Rightarrow> bool" for E files where
  start: "reachable E files (init E files)"
| next_step: "reachable E files s \<Longrightarrow> step E s t \<Longrightarrow> reachable E files t"

text \<open>A run along a given order of answers: \<open>None\<close> for the main function, \<open>Some j\<close> for job \<open>j\<close>.\<close>

definition main_event :: "env \<Rightarrow> sched \<Rightarrow> sched" where
  "main_event E s =
     (case pc s of
        AwaitLaunch \<Rightarrow> launched E s
      | AwaitBrowserClose \<Rightarrow> browser_closed E s
      | AwaitRm \<Rightarrow> removed E s
      | _ \<Rightarrow> s)"

definition enabled :: "sched \<Rightarrow> nat option \<Rightarrow> bool" where
  "enabled s a =
     (case a of
        None \<Rightarrow> pc s = AwaitLaunch \<or> pc s = AwaitBrowserClose \<or> pc s = AwaitRm
      | Some j \<Rightarrow> j < length (jobs s) \<and> \<not> settled (phase (jobs s ! j)) \<and> \<not> failed (pc s))"

fun run :: "env \<Rightarrow> nat option list \<Rightarrow> sched \<Rightarrow> sched" where
  "run E [] s = s"
| "run E (a # as) s =
     (if enabled s a
      then run E as (case a of None \<Rightarrow> main_event E s | Some j \<Rightarrow> job_event E j s)
      else s)"

lemmas scheduler_defs [gs_defs] =
  launch_def await_all_def wake_def then_callback_def job_event_def launched_def
  browser_closed_def removed_def init_def main_event_def enabled_def

section \<open>Fields after the operations\<close>

lemma launch_fields [simp]:
  "jobs (launch E n s) = jobs s @
     [\<lparr> sheetName = n, htmlPath = join [extractedDir E, n @ ''.html''],
        pngPath = join [normalize_path (outputDir (conf E)), n @ ''.jpg''], phase = NewPage \<rparr>]"
  "promises (launch E n s) = promises s @ [length (jobs s)]"
  "todo (launch E n s) = todo s" "pc (launch E n s) = pc s"
  "browser_open (launch E n s) = browser_open s" "pages (launch E n s) = pages s"
  "console (launch E n s) = console s" "written (launch E n s) = written s"
  "extracted (launch E n s) = extracted s"
  by (simp_all add: launch_def)

lemma apply_effect_fields [simp]:
  "jobs (apply_effect j eff s) = jobs s"
  "promises (apply_effect j eff s) = promises s"
  "todo (apply_effect j eff s) = todo s" "pc (apply_effect j eff s) = pc s"
  "browser_open (apply_effect j eff s) = browser_open s"
  "extracted (apply_effect j eff s) = extracted s"
  by (cases eff; simp)+

lemma pages_apply_effect:
  "pages (apply_effect j eff s) =
     (if eff = PageOpened then pages s @ [j]
      else if eff = PageClosed then remove1 j (pages s) else pages s)"
  by (cases eff) simp_all

lemma advance_fields [simp]:
  "jobs (advance j ph eff s) = (jobs s)[j := (jobs s ! j)\<lparr>phase := ph\<rparr>]"
  "promises (advance j ph eff s) = promises s"
  "todo (advance j ph eff s) = todo s" "pc (advance j ph eff s) = pc s"
  "browser_open (advance j ph eff s) = browser_open s"
  "extracted (advance j ph eff s) = extracted s"
  by (simp_all add: advance_def)

lemma pages_advance:
  "pages (advance j ph eff s) =
     (if eff = PageOpened then pages s @ [j]
      else if eff = PageClosed then remove1 j (pages s) else pages s)"
  by (simp add: advance_def pages_apply_effect)

lemma phase_advance:
  "k < length (jobs s) \<Longrightarrow>
     phase (jobs (advance j ph eff s) ! k) = (if k = j then ph else phase (jobs s ! k))"
  by (simp add: nth_list_update)

lemma then_callback_fields [simp]:
  "jobs (then_callback j s) = jobs s"
  "promises (then_callback j s) = array_splice (indexOf (promises s) j) 1 (promises s)"
  "todo (then_callback j s) = todo s" "pc (then_callback j s) = pc s"
  "browser_open (then_callback j s) = browser_open s" "pages (then_callback j s) = pages s"
  "extracted (then_callback j s) = extracted s"
  by (simp_all add: then_callback_def)

section \<open>Outcomes\<close>

lemma race_outcome_unsettled:
  "\<forall>p \<in> set ps. \<not> settled (phase (js ! p)) \<Longrightarrow> race_outcome js ps = Pending"
  by (induction ps) (auto split: phase.splits)

lemma all_outcome_unsettled:
  "\<forall>p \<in> set ps. \<not> settled (phase (js ! p)) \<Longrightarrow>
     all_outcome js ps = (if ps = [] then Resolved else Pending)"
  by (induction ps) (auto split: phase.splits settlement.splits)

lemma race_outcome_one:
  "j \<in> set ps \<Longrightarrow> settled (phase (js ! j)) \<Longrightarrow>
   \<forall>p \<in> set ps. p \<noteq> j \<longrightarrow> \<not> settled (phase (js ! p)) \<Longrightarrow>
     race_outcome js ps =
       (case phase (js ! j) of Rejected e \<Rightarrow> RejectedWith e | _ \<Rightarrow> Resolved)"
  by (induction ps) (auto split: phase.splits)

lemma all_outcome_no_rejected:
  "\<forall>p \<in> set ps. \<forall>e. phase (js ! p) \<noteq> Rejected e \<Longrightarrow>
     all_outcome js ps =
       (if \<forall>p \<in> set ps. phase (js ! p) = Fulfilled then Resolved else Pending)"
  by (induction ps) (auto split: phase.splits settlement.splits)

lemma all_outcome_one_rejected:
  "j \<in> set ps \<Longrightarrow> phase (js ! j) = Rejected e \<Longrightarrow>
   \<forall>p \<in> set ps. p \<noteq> j \<longrightarrow> (\<forall>e'. phase (js ! p) \<noteq> Rejected e') \<Longrightarrow>
     all_outcome js ps = RejectedWith e"
  by (induction ps) (auto split: phase.splits settlement.splits)

section \<open>Runs are executions\<close>

lemma enabled_step:
  "enabled s a \<Longrightarrow> step E s (case a of None \<Rightarrow> main_event E s | Some j \<Rightarrow> job_event E j s)"
  by (cases a) (auto simp: enabled_def main_event_def intro: step.intros)

lemma run_reachable: "reachable E files s \<Longrightarrow> reachable E files (run E as s)"
proof (induction as arbitrary: s)
  case Nil
  then show ?case by simp
next
  case (Cons a as)
  show ?case
  proof (cases "enabled s a")
    case False
    with Cons.prems show ?thesis by simp
  next
    case True
    with Cons.prems have "reachable E files
        (case a of None \<Rightarrow> main_event E s | Some j \<Rightarrow> job_event E j s)"
      by (blast intro: reachable.next_step enabled_step)
    then have "reachable E files
        (run E as (case a of None \<Rightarrow> main_event E s | Some j \<Rightarrow> job_event E j s))"
      by (rule Cons.IH)
    with True show ?thesis by simp
  qed
qed

lemmas run_from_init = run_reachable [OF reachable.start]

inductive_cases step_cases: "step E s t"

section \<open>A run to try the definitions on\<close>

text \<open>
  The browser answers every call with success; the directory is the one of the
  selector's example, so one sheet is rendered. \<open>ex_schedule\<close> lets the browser
  start, the job take its nine steps, the browser close and the directory go.
  In \<open>ex_env3\<close> three sheets are rendered, two at a time.
\<close>

definition ex_env :: env where
  "ex_env =
     \<lparr> conf = ex_conf, extractedDir = ''/tmp/gs2imgx-1'', launch_ok = True,
       page_of = (\<lambda>path. ex_page), browser_close_ok = True, rm_ok = True \<rparr>"

definition ex_schedule :: "nat option list" where
  "ex_schedule =
     [None, Some 0, Some 0, Some 0, Some 0, Some 0, Some 0, Some 0, Some 0, Some 0, None, None]"

definition ex_env3 :: env where
  "ex_env3 = ex_env\<lparr>conf := ex_conf\<lparr>includeSheets := JNull\<rparr>\<rparr>"

lemma ex_run_done:
  "run ex_env ex_schedule (init ex_env ex_files) =
     \<lparr> todo = [], promises = [],
       jobs = [\<lparr>sheetName = ''A'', htmlPath = ''/tmp/gs2imgx-1/A.html'',
                pngPath = ''out/A.jpg'', phase = Fulfilled\<rparr>],
       pc = Done, browser_open = False, pages = [], console = [],
       written = [(''out/A.jpg'', ex_clip)], extracted = False \<rparr>"
  by code_simp

lemma ex_run3_launch:
  "(let s = run ex_env3 [None] (init ex_env3 ex_files)
    in (todo s, promises s, map sheetName (jobs s), pc s, pages s))
   = ([''D'', ''E''], [0, 1], [''A'', ''B''], AwaitRace [0, 1], [])"
  by code_simp

end
