(* ===== verification/GS_Invariant.thy ===== *)
theory GS_Invariant
  imports GS_Scheduler
begin

text \<open>
  The invariant of the render loop and the proof that every step keeps it. Its
  parts: the array \<^verbatim>\<open>promises\<close> holds exactly the jobs that are not fulfilled, each
  once (\<open>tracks\<close>); the open pages are those of the jobs between \<^verbatim>\<open>newPage\<close> and
  \<^verbatim>\<open>close\<close> (\<open>pages_ok\<close>); what the main function waits for agrees with the
  array and with the state of the browser and of the extracted directory
  (\<open>pc_ok\<close>); and the array is never longer than the configured concurrency, or
  than one when that is not positive (\<open>cap\<close>).
\<close>

section \<open>The invariant\<close>

definition cap :: "env \<Rightarrow> nat" where
  "cap E = nat (max 1 (concurrency (conf E)))"

definition tracks :: "sched \<Rightarrow> bool" where
  "tracks s \<longleftrightarrow>
     distinct (promises s)
     \<and> set (promises s) = {j. j < length (jobs s) \<and> phase (jobs s ! j) \<noteq> Fulfilled}"

definition no_rejected :: "sched \<Rightarrow> bool" where
  "no_rejected s \<longleftrightarrow> (\<forall>j < length (jobs s). \<forall>e. phase (jobs s ! j) \<noteq> Rejected e)"

definition pages_ok :: "sched \<Rightarrow> bool" where
  "pages_ok s \<longleftrightarrow>
     distinct (pages s)
     \<and> set (pages s) = {j. j < length (jobs s) \<and> holds_page (phase (jobs s ! j))}"

definition pc_ok :: "env \<Rightarrow> sched \<Rightarrow> bool" where
  "pc_ok E s =
     (case pc s of
        AwaitLaunch \<Rightarrow> jobs s = [] \<and> \<not> browser_open s \<and> extracted s
      | AwaitRace snap \<Rightarrow>
          snap = promises s \<and> snap \<noteq> [] \<and> concurrency (conf E) \<le> int (length snap)
          \<and> no_rejected s \<and> browser_open s \<and> extracted s
      | AwaitAll snap \<Rightarrow>
          todo s = [] \<and> promises s \<noteq> [] \<and> set (promises s) \<subseteq> set snap
          \<and> (\<forall>j \<in> set snap. j < length (jobs s))
          \<and> no_rejected s \<and> browser_open s \<and> extracted s
      | AwaitBrowserClose \<Rightarrow> todo s = [] \<and> promises s = [] \<and> browser_open s \<and> extracted s
      | AwaitRm \<Rightarrow> todo s = [] \<and> promises s = [] \<and> \<not> browser_open s \<and> extracted s
      | Done \<Rightarrow> todo s = [] \<and> promises s = [] \<and> \<not> browser_open s \<and> \<not> extracted s
      | Failed e \<Rightarrow> True)"

definition sched_inv :: "env \<Rightarrow> sched \<Rightarrow> bool" where
  "sched_inv E s \<longleftrightarrow>
     tracks s \<and> pages_ok s \<and> pc_ok E s \<and> length (promises s) \<le> cap E"

lemma cap_pos: "0 < cap E"
  by (simp add: cap_def)

lemma cap_ge: "concurrency (conf E) \<le> int (cap E)"
  by (simp add: cap_def max_def)

lemmas phase_sets_snoc =
  Collect_nth_snoc [where P = "\<lambda>jb. phase jb \<noteq> Fulfilled"]
  Collect_nth_snoc [where P = "\<lambda>jb. holds_page (phase jb)"]

lemmas phase_sets_update =
  Collect_nth_update [where P = "\<lambda>jb. phase jb \<noteq> Fulfilled"]
  Collect_nth_update [where P = "\<lambda>jb. holds_page (phase jb)"]

lemma inv_distinct: "tracks s \<Longrightarrow> distinct (promises s)" "pages_ok s \<Longrightarrow> distinct (pages s)"
  by (simp_all add: tracks_def pages_ok_def)

lemma tracks_lt: "tracks s \<Longrightarrow> j \<in> set (promises s) \<Longrightarrow> j < length (jobs s)"
  by (simp add: tracks_def)

lemma tracks_mem:
  "tracks s \<Longrightarrow> j < length (jobs s) \<Longrightarrow> phase (jobs s ! j) \<noteq> Fulfilled \<Longrightarrow>
     j \<in> set (promises s)"
  by (simp add: tracks_def)

lemma tracks_unsettled:
  "tracks s \<Longrightarrow> no_rejected s \<Longrightarrow> \<forall>p \<in> set (promises s). \<not> settled (phase (jobs s ! p))"
  by (auto simp: tracks_def no_rejected_def settled_iff)

lemma tracks_launch:
  assumes "tracks s"
  shows "tracks (launch E n s)"
proof -
  from assms have "length (jobs s) \<notin> set (promises s)"
    by (simp add: tracks_def)
  with assms show ?thesis
    by (simp add: tracks_def phase_sets_snoc)
qed

lemma pages_ok_launch: "pages_ok s \<Longrightarrow> pages_ok (launch E n s)"
  by (simp add: pages_ok_def phase_sets_snoc)

lemma no_rejected_launch: "no_rejected s \<Longrightarrow> no_rejected (launch E n s)"
  by (auto simp: no_rejected_def nth_append less_Suc_eq)

lemma inv_parts_todo [simp]:
  "tracks (s\<lparr>todo := t\<rparr>) = tracks s" "pages_ok (s\<lparr>todo := t\<rparr>) = pages_ok s"
  "no_rejected (s\<lparr>todo := t\<rparr>) = no_rejected s"
  by (simp_all add: tracks_def pages_ok_def no_rejected_def)

lemma inv_parts_pc [simp]:
  "tracks (s\<lparr>pc := c\<rparr>) = tracks s" "pages_ok (s\<lparr>pc := c\<rparr>) = pages_ok s"
  "no_rejected (s\<lparr>pc := c\<rparr>) = no_rejected s"
  by (simp_all add: tracks_def pages_ok_def no_rejected_def)

lemma inv_parts_browser [simp]:
  "tracks (s\<lparr>browser_open := b\<rparr>) = tracks s" "pages_ok (s\<lparr>browser_open := b\<rparr>) = pages_ok s"
  "no_rejected (s\<lparr>browser_open := b\<rparr>) = no_rejected s"
  by (simp_all add: tracks_def pages_ok_def no_rejected_def)

lemma inv_parts_extracted [simp]:
  "tracks (s\<lparr>extracted := b\<rparr>) = tracks s" "pages_ok (s\<lparr>extracted := b\<rparr>) = pages_ok s"
  "no_rejected (s\<lparr>extracted := b\<rparr>) = no_rejected s"
  by (simp_all add: tracks_def pages_ok_def no_rejected_def)

lemma await_all_inv:
  assumes "tracks s" "pages_ok s" "no_rejected s" "browser_open s" "extracted s"
    and "todo s = []" and "length (promises s) \<le> cap E"
  shows "sched_inv E (await_all s)"
proof -
  from assms(1,3) have "\<forall>p \<in> set (promises s). \<not> settled (phase (jobs s ! p))"
    by (rule tracks_unsettled)
  then have "all_outcome (jobs s) (promises s) = (if promises s = [] then Resolved else Pending)"
    by (rule all_outcome_unsettled)
  with assms show ?thesis
    by (auto simp: await_all_def sched_inv_def pc_ok_def dest: tracks_lt)
qed

lemma loop_inv:
  assumes "tracks s" "pages_ok s" "no_rejected s" "browser_open s" "extracted s"
    and "length (promises s) < cap E"
  shows "sched_inv E (loop E rest s)"
  using assms
proof (induction rest arbitrary: s)
  case Nil
  then show ?case by (simp add: await_all_inv)
next
  case (Cons name rest)
  define s1 where "s1 = (launch E name s)\<lparr>todo := rest\<rparr>"
  have s1: "tracks s1" "pages_ok s1" "no_rejected s1" "browser_open s1" "extracted s1"
    using Cons.prems by (simp_all add: s1_def tracks_launch pages_ok_launch no_rejected_launch)
  have len: "length (promises s1) = Suc (length (promises s))"
    by (simp add: s1_def)
  have pend: "race_outcome (jobs s1) (promises s1) = Pending"
    using s1(1,3) by (intro race_outcome_unsettled tracks_unsettled)
  show ?case
  proof (cases "concurrency (conf E) \<le> int (length (promises s1))")
    case True
    from len have "promises s1 \<noteq> []" by auto
    with True s1 len Cons.prems(6) have "sched_inv E (s1\<lparr>pc := AwaitRace (promises s1)\<rparr>)"
      by (simp add: sched_inv_def pc_ok_def)
    with True pend show ?thesis
      by (simp add: s1_def [symmetric] Let_def)
  next
    case False
    with len have "length (promises s1) < cap E"
      using Cons.prems(6) by (simp add: cap_def)
    with s1 have "sched_inv E (loop E rest s1)" by (intro Cons.IH)
    with False show ?thesis
      by (simp add: s1_def [symmetric] Let_def)
  qed
qed


section \<open>Job events keep the invariant\<close>

lemma tracks_advance:
  assumes "tracks s" "j < length (jobs s)" "phase (jobs s ! j) \<noteq> Fulfilled" "ph \<noteq> Fulfilled"
  shows "tracks (advance j ph eff s)"
proof -
  from assms(1-3) have "j \<in> set (promises s)" by (rule tracks_mem)
  with assms show ?thesis
    by (auto simp: tracks_def phase_sets_update)
qed

lemma tracks_fulfil:
  assumes "tracks s" "j < length (jobs s)" "phase (jobs s ! j) \<noteq> Fulfilled"
  shows "tracks (then_callback j (advance j Fulfilled eff s))"
    and "promises (then_callback j (advance j Fulfilled eff s)) = remove1 j (promises s)"
proof -
  from assms have mem: "j \<in> set (promises s)" by (rule tracks_mem)
  then show eq: "promises (then_callback j (advance j Fulfilled eff s)) = remove1 j (promises s)"
    by simp
  from assms mem show "tracks (then_callback j (advance j Fulfilled eff s))"
    unfolding tracks_def eq by (auto simp: phase_sets_update)
qed

lemma pages_ok_advance:
  assumes "pages_ok s" "j < length (jobs s)"
    and "job_step p (phase (jobs s ! j)) = (ph, eff)"
  shows "pages_ok (advance j ph eff s)"
proof -
  from assms(3) have ph: "ph = fst (job_step p (phase (jobs s ! j)))"
    and eff: "eff = snd (job_step p (phase (jobs s ! j)))" by simp_all
  have hp: "holds_page ph \<longleftrightarrow> (holds_page (phase (jobs s ! j)) \<and> eff \<noteq> PageClosed) \<or> eff = PageOpened"
    unfolding ph eff by (rule holds_page_job_step)
  have opened: "eff = PageOpened \<Longrightarrow> \<not> holds_page (phase (jobs s ! j))"
    unfolding eff by (simp add: job_step_opens)
  have closed: "eff = PageClosed \<Longrightarrow> holds_page (phase (jobs s ! j))"
    unfolding eff by (simp add: job_step_closes)
  from assms(1,2) hp opened closed show ?thesis
    by (auto simp: pages_ok_def pages_advance phase_sets_update)
qed

lemma no_rejected_advance:
  "no_rejected s \<Longrightarrow> \<forall>e. ph \<noteq> Rejected e \<Longrightarrow> no_rejected (advance j ph eff s)"
  using phase_advance [of _ s j ph eff] by (auto simp: no_rejected_def split: if_splits)

lemma inv_parts_then_callback [simp]:
  "pages_ok (then_callback j s) = pages_ok s" "no_rejected (then_callback j s) = no_rejected s"
  by (simp_all add: pages_ok_def no_rejected_def)

text \<open>While a job is unsettled the main function waits in \<^verbatim>\<open>Promise.race\<close> or \<^verbatim>\<open>Promise.all\<close>.\<close>

lemma active_pc:
  assumes "sched_inv E s" "j < length (jobs s)" "phase (jobs s ! j) \<noteq> Fulfilled"
    and "\<not> failed (pc s)"
  shows "(pc s = AwaitRace (promises s) \<or> (\<exists>snap. pc s = AwaitAll snap))
     \<and> no_rejected s \<and> browser_open s \<and> extracted s"
proof -
  from assms(1-3) have "j \<in> set (promises s)"
    by (auto simp: sched_inv_def intro: tracks_mem)
  then have "promises s \<noteq> []" by auto
  with assms show ?thesis
    by (cases "pc s") (auto simp: sched_inv_def pc_ok_def)
qed


lemma job_event_unsettled_inv:
  assumes inv: "sched_inv E s" and j: "j < length (jobs s)"
    and un: "\<not> settled (phase (jobs s ! j))" and nf: "\<not> failed (pc s)"
    and step: "job_step p (phase (jobs s ! j)) = (ph, eff)" and ph: "\<not> settled ph"
  shows "sched_inv E (advance j ph eff s)"
proof -
  from un ph have nF: "phase (jobs s ! j) \<noteq> Fulfilled" "ph \<noteq> Fulfilled" "\<forall>e. ph \<noteq> Rejected e"
    by (auto simp: settled_iff)
  from inv j nF(1) nf have act: "pc s = AwaitRace (promises s) \<or> (\<exists>snap. pc s = AwaitAll snap)"
    "no_rejected s" by (auto dest: active_pc)
  from inv have parts: "tracks s" "pages_ok s" "pc_ok E s" "length (promises s) \<le> cap E"
    by (simp_all add: sched_inv_def)
  have "tracks (advance j ph eff s)" using parts(1) j nF(1,2) by (rule tracks_advance)
  moreover have "pages_ok (advance j ph eff s)" using parts(2) j step by (rule pages_ok_advance)
  moreover have "no_rejected (advance j ph eff s)" using act(2) nF(3) by (rule no_rejected_advance)
  ultimately show ?thesis
    using act(1) parts(3,4) by (auto simp: sched_inv_def pc_ok_def)
qed

text \<open>
  A job that is rejected: the promise the main function waits for is rejected with
  it, and the main function ends with that error.
\<close>

lemma rejected_wake:
  assumes inv: "sched_inv E s" and j: "j < length (jobs s)"
    and un: "\<not> settled (phase (jobs s ! j))" and nf: "\<not> failed (pc s)"
  shows "wake E (advance j (Rejected e) eff s) = (advance j (Rejected e) eff s)\<lparr>pc := Failed e\<rparr>"
proof -
  define s1 where "s1 = advance j (Rejected e) eff s"
  from un have nF: "phase (jobs s ! j) \<noteq> Fulfilled" by (auto simp: settled_iff)
  from inv j nF nf have act: "pc s = AwaitRace (promises s) \<or> (\<exists>snap. pc s = AwaitAll snap)"
    "no_rejected s" by (auto dest: active_pc)
  from inv have parts: "tracks s" "pc_ok E s" by (simp_all add: sched_inv_def)
  from parts(1) j nF have mem: "j \<in> set (promises s)" by (rule tracks_mem)
  have phj: "phase (jobs s1 ! j) = Rejected e"
    using j by (simp add: s1_def)
  have others: "\<forall>p \<in> set (promises s). p \<noteq> j \<longrightarrow> \<not> settled (phase (jobs s1 ! p))"
    using tracks_unsettled [OF parts(1) act(2)] parts(1)
    by (auto simp: s1_def dest: tracks_lt)
  from act(1) have "wake E s1 = s1\<lparr>pc := Failed e\<rparr>"
  proof
    assume pc: "pc s = AwaitRace (promises s)"
    have "race_outcome (jobs s1) (promises s) = RejectedWith e"
      using race_outcome_one [OF mem _ others] phj by simp
    with pc show ?thesis
      by (simp add: wake_def) (simp add: s1_def)
  next
    assume "\<exists>snap. pc s = AwaitAll snap"
    then obtain snap where pc: "pc s = AwaitAll snap" ..
    with parts(2) have sub: "set (promises s) \<subseteq> set snap" "\<forall>k \<in> set snap. k < length (jobs s)"
      by (simp_all add: pc_ok_def)
    have "\<forall>p \<in> set snap. p \<noteq> j \<longrightarrow> (\<forall>e'. phase (jobs s1 ! p) \<noteq> Rejected e')"
      using act(2) sub(2) by (auto simp: s1_def no_rejected_def)
    with mem sub(1) phj have "all_outcome (jobs s1) snap = RejectedWith e"
      by (intro all_outcome_one_rejected) auto
    with pc show ?thesis
      by (simp add: wake_def) (simp add: s1_def)
  qed
  then show ?thesis by (simp only: s1_def)
qed

lemma job_event_rejected_inv:
  assumes inv: "sched_inv E s" and j: "j < length (jobs s)"
    and un: "\<not> settled (phase (jobs s ! j))" and nf: "\<not> failed (pc s)"
    and step: "job_step p (phase (jobs s ! j)) = (Rejected e, eff)"
  shows "sched_inv E (wake E (advance j (Rejected e) eff s))"
proof -
  from un have nF: "phase (jobs s ! j) \<noteq> Fulfilled" by (auto simp: settled_iff)
  from inv have parts: "tracks s" "pages_ok s" "length (promises s) \<le> cap E"
    by (simp_all add: sched_inv_def)
  have "tracks (advance j (Rejected e) eff s)"
    using parts(1) j nF by (rule tracks_advance) simp
  moreover have "pages_ok (advance j (Rejected e) eff s)"
    using parts(2) j step by (rule pages_ok_advance)
  ultimately show ?thesis
    using parts(3) by (simp add: rejected_wake [OF inv j un nf] sched_inv_def pc_ok_def)
qed


text \<open>
  A job that fulfils: its promise leaves the array, and nothing else changes but
  its phase and its page.
\<close>

lemma fulfil_state:
  assumes "sched_inv E s" "j < length (jobs s)" "phase (jobs s ! j) \<noteq> Fulfilled"
    and "no_rejected s" and "job_step p (phase (jobs s ! j)) = (Fulfilled, eff)"
  defines "s2 \<equiv> then_callback j (advance j Fulfilled eff s)"
  shows "tracks s2" "pages_ok s2" "no_rejected s2"
    and "promises s2 = remove1 j (promises s)" and "length (promises s2) < cap E"
    and "phase (jobs s2 ! j) = Fulfilled"
    and "\<forall>k. k \<noteq> j \<longrightarrow> jobs s2 ! k = jobs s ! k"
proof -
  from assms(1) have parts: "tracks s" "pages_ok s" "length (promises s) \<le> cap E"
    by (simp_all add: sched_inv_def)
  from parts(1) assms(2,3) have mem: "j \<in> set (promises s)" by (rule tracks_mem)
  show "tracks s2" and pr2: "promises s2 = remove1 j (promises s)"
    unfolding s2_def using parts(1) assms(2,3) by (rule tracks_fulfil)+
  show "pages_ok s2"
    unfolding s2_def using pages_ok_advance [OF parts(2) assms(2,5)] by simp
  show "no_rejected s2"
    unfolding s2_def using no_rejected_advance [OF assms(4), of Fulfilled j eff] by simp
  show "length (promises s2) < cap E"
    using mem parts(3) by (simp add: pr2 less_le_trans [OF length_remove1_less])
  show "phase (jobs s2 ! j) = Fulfilled"
    using assms(2) by (simp add: s2_def)
  show "\<forall>k. k \<noteq> j \<longrightarrow> jobs s2 ! k = jobs s ! k"
    by (simp add: s2_def)
qed

lemma fulfilled_in_race:
  assumes inv: "sched_inv E s" and j: "j < length (jobs s)"
    and nF: "phase (jobs s ! j) \<noteq> Fulfilled" and nr: "no_rejected s"
    and live: "browser_open s" "extracted s"
    and step: "job_step p (phase (jobs s ! j)) = (Fulfilled, eff)"
    and pc: "pc s = AwaitRace (promises s)"
  shows "sched_inv E (wake E (then_callback j (advance j Fulfilled eff s)))"
proof -
  define s2 where "s2 = then_callback j (advance j Fulfilled eff s)"
  note s2 = fulfil_state [OF inv j nF nr step, folded s2_def]
  from inv have t: "tracks s" by (simp add: sched_inv_def)
  from t j nF have mem: "j \<in> set (promises s)" by (rule tracks_mem)
  have "\<forall>p \<in> set (promises s). p \<noteq> j \<longrightarrow> \<not> settled (phase (jobs s2 ! p))"
    using tracks_unsettled [OF t nr] s2(7) by simp
  with mem s2(6) have "race_outcome (jobs s2) (promises s) = Resolved"
    using race_outcome_one [of j "promises s" "jobs s2"] by simp
  moreover have "sched_inv E (loop E (todo s2) s2)"
    using s2(1-3) _ _ s2(5) by (rule loop_inv) (simp_all add: s2_def live)
  moreover have "pc s2 = pc s" by (simp add: s2_def)
  ultimately show ?thesis
    using pc by (simp add: wake_def s2_def [symmetric])
qed

lemma fulfilled_in_all:
  assumes inv: "sched_inv E s" and j: "j < length (jobs s)"
    and nF: "phase (jobs s ! j) \<noteq> Fulfilled" and nr: "no_rejected s"
    and live: "browser_open s" "extracted s"
    and step: "job_step p (phase (jobs s ! j)) = (Fulfilled, eff)"
    and pc: "pc s = AwaitAll snap"
  shows "sched_inv E (wake E (then_callback j (advance j Fulfilled eff s)))"
proof -
  define s2 where "s2 = then_callback j (advance j Fulfilled eff s)"
  note s2 = fulfil_state [OF inv j nF nr step, folded s2_def]
  have f2: "browser_open s2" "extracted s2" "pc s2 = AwaitAll snap" "todo s2 = todo s"
    "length (jobs s2) = length (jobs s)"
    using live pc by (simp_all add: s2_def)
  from inv pc have sub: "set (promises s) \<subseteq> set snap" "\<forall>k \<in> set snap. k < length (jobs s)"
    and todo: "todo s = []" by (simp_all add: sched_inv_def pc_ok_def)
  have sub2: "set (promises s2) \<subseteq> set snap"
    using sub(1) set_remove1_subset [of j "promises s"] by (auto simp: s2(4))
  have "\<forall>p \<in> set snap. \<forall>e. phase (jobs s2 ! p) \<noteq> Rejected e"
    using s2(3) sub(2) f2(5) by (auto simp: no_rejected_def)
  then have out: "all_outcome (jobs s2) snap =
      (if \<forall>p \<in> set snap. phase (jobs s2 ! p) = Fulfilled then Resolved else Pending)"
    by (rule all_outcome_no_rejected)
  show ?thesis
  proof (cases "\<forall>p \<in> set snap. phase (jobs s2 ! p) = Fulfilled")
    case True
    with sub2 s2(1) have "promises s2 = []"
      by (cases "promises s2") (auto simp: tracks_def)
    with True out s2(1,2,5) f2 todo show ?thesis
      by (simp add: wake_def s2_def [symmetric] sched_inv_def pc_ok_def)
  next
    case False
    then obtain k where k: "k \<in> set snap" "phase (jobs s2 ! k) \<noteq> Fulfilled" by blast
    with sub(2) f2(5) s2(1) have "k \<in> set (promises s2)" by (auto intro: tracks_mem)
    then have "promises s2 \<noteq> []" by auto
    with False out s2(1-3,5) f2 todo sub2 sub(2) show ?thesis
      by (simp add: wake_def s2_def [symmetric] sched_inv_def pc_ok_def)
  qed
qed

lemma job_event_fulfilled_inv:
  assumes inv: "sched_inv E s" and j: "j < length (jobs s)"
    and un: "\<not> settled (phase (jobs s ! j))" and nf: "\<not> failed (pc s)"
    and step: "job_step p (phase (jobs s ! j)) = (Fulfilled, eff)"
  shows "sched_inv E (wake E (then_callback j (advance j Fulfilled eff s)))"
proof -
  from un have nF: "phase (jobs s ! j) \<noteq> Fulfilled" by (auto simp: settled_iff)
  from active_pc [OF inv j nF nf]
  have act: "pc s = AwaitRace (promises s) \<or> (\<exists>snap. pc s = AwaitAll snap)"
    and rest: "no_rejected s" "browser_open s" "extracted s" by simp_all
  from act show ?thesis
    using fulfilled_in_race [OF inv j nF rest step] fulfilled_in_all [OF inv j nF rest step]
    by blast
qed

lemma job_event_inv:
  assumes "sched_inv E s" "j < length (jobs s)" "\<not> settled (phase (jobs s ! j))"
    and "\<not> failed (pc s)"
  shows "sched_inv E (job_event E j s)"
proof -
  obtain ph eff where step:
    "job_step (page_of E (htmlPath (jobs s ! j))) (phase (jobs s ! j)) = (ph, eff)"
    by (cases "job_step (page_of E (htmlPath (jobs s ! j))) (phase (jobs s ! j))")
  show ?thesis
  proof (cases ph)
    case Fulfilled
    with assms step show ?thesis
      by (simp add: job_event_def Let_def job_event_fulfilled_inv)
  next
    case (Rejected e)
    with assms step show ?thesis
      by (simp add: job_event_def Let_def job_event_rejected_inv)
  qed (use assms step in \<open>simp_all add: job_event_def Let_def job_event_unsettled_inv\<close>)
qed

section \<open>The main function keeps the invariant\<close>

lemma init_inv: "sched_inv E (init E files)"
  by (simp add: sched_inv_def tracks_def pages_ok_def pc_ok_def init_def)

lemma launched_inv:
  assumes "sched_inv E s" "pc s = AwaitLaunch"
  shows "sched_inv E (launched E s)"
proof (cases "launch_ok E")
  case True
  from assms have e: "jobs s = []" "extracted s" and t: "tracks s" and p: "pages_ok s"
    by (simp_all add: sched_inv_def pc_ok_def)
  from e(1) t have "promises s = []" by (simp add: tracks_def)
  with e t p cap_pos [of E] have "sched_inv E (loop E (todo s) (s\<lparr>browser_open := True\<rparr>))"
    by (intro loop_inv) (simp_all add: no_rejected_def)
  with True show ?thesis by (simp add: launched_def)
next
  case False
  with assms show ?thesis
    by (simp add: launched_def sched_inv_def pc_ok_def)
qed

lemma browser_closed_inv:
  "sched_inv E s \<Longrightarrow> pc s = AwaitBrowserClose \<Longrightarrow> sched_inv E (browser_closed E s)"
  by (simp add: browser_closed_def sched_inv_def pc_ok_def)

lemma removed_inv: "sched_inv E s \<Longrightarrow> pc s = AwaitRm \<Longrightarrow> sched_inv E (removed E s)"
  by (simp add: removed_def sched_inv_def pc_ok_def)

lemma step_inv: "step E s t \<Longrightarrow> sched_inv E s \<Longrightarrow> sched_inv E t"
  by (induction rule: step.induct)
    (simp_all add: launched_inv job_event_inv browser_closed_inv removed_inv)

lemma reachable_inv: "reachable E files s \<Longrightarrow> sched_inv E s"
  by (induction rule: reachable.induct) (auto intro: init_inv step_inv)

section \<open>Properties of the render loop\<close>

text \<open>
  C1. The loop never holds more jobs in flight than the configured concurrency
  (one, when the configuration gives no positive number): in every reachable
  state the array of promises, the set of unsettled jobs and the open pages of the
  browser are at most that many.
\<close>

theorem in_flight_bounded:
  assumes "reachable E files s"
  shows "length (promises s) \<le> nat (max 1 (concurrency (conf E)))
     \<and> card {j. j < length (jobs s) \<and> \<not> settled (phase (jobs s ! j))}
           \<le> nat (max 1 (concurrency (conf E)))
     \<and> length (pages s) \<le> nat (max 1 (concurrency (conf E)))"
proof -
  from assms have inv: "sched_inv E s" by (rule reachable_inv)
  then have len: "length (promises s) \<le> cap E" and t: "tracks s" and p: "pages_ok s"
    by (simp_all add: sched_inv_def)
  have "{j. j < length (jobs s) \<and> \<not> settled (phase (jobs s ! j))} \<subseteq> set (promises s)"
    by (auto simp: settled_iff intro: tracks_mem [OF t])
  then have "card {j. j < length (jobs s) \<and> \<not> settled (phase (jobs s ! j))}
      \<le> card (set (promises s))"
    by (intro card_mono) simp_all
  also have "\<dots> \<le> length (promises s)" by (rule card_length)
  finally have unsettled: "card {j. j < length (jobs s) \<and> \<not> settled (phase (jobs s ! j))}
      \<le> cap E" using len by simp
  have "set (pages s) \<subseteq> set (promises s)"
  proof
    fix j assume "j \<in> set (pages s)"
    with p have "j < length (jobs s)" "holds_page (phase (jobs s ! j))"
      by (simp_all add: pages_ok_def)
    then show "j \<in> set (promises s)"
      by (intro tracks_mem [OF t]) auto
  qed
  then have "card (set (pages s)) \<le> card (set (promises s))"
    by (intro card_mono) simp_all
  moreover have "card (set (pages s)) = length (pages s)"
    "card (set (promises s)) = length (promises s)"
    using p t by (simp_all add: distinct_card inv_distinct)
  ultimately have "length (pages s) \<le> length (promises s)"
    by simp
  with len unsettled show ?thesis by (simp add: cap_def)
qed

theorem in_flight_bounded_witness:
  "length (promises (run ex_env3 [None] (init ex_env3 ex_files))) \<le> 2
   \<and> card {j. j < length (jobs (run ex_env3 [None] (init ex_env3 ex_files)))
           \<and> \<not> settled (phase (jobs (run ex_env3 [None] (init ex_env3 ex_files)) ! j))} \<le> 2
   \<and> length (pages (run ex_env3 [None] (init ex_env3 ex_files))) \<le> 2"
proof -
  have "nat (max 1 (concurrency (conf ex_env3))) = 2"
    by (simp add: ex_env3_def ex_env_def ex_conf_def)
  with in_flight_bounded [OF run_from_init, of ex_env3 "[None]" ex_files]
  show ?thesis by (simp only:)
qed

text \<open>
  C2. The array of promises is the set of the jobs that are not fulfilled: every
  job that was started and has not been fulfilled is in the array exactly once, and
  nothing else is.
\<close>

theorem promises_track_jobs:
  assumes "reachable E files s"
  shows "distinct (promises s)
     \<and> set (promises s) = {j. j < length (jobs s) \<and> phase (jobs s ! j) \<noteq> Fulfilled}"
  using reachable_inv [OF assms] by (simp add: sched_inv_def tracks_def)

theorem promises_track_jobs_witness:
  "distinct (promises (run ex_env3 [None] (init ex_env3 ex_files)))
   \<and> set (promises (run ex_env3 [None] (init ex_env3 ex_files)))
       = {j. j < length (jobs (run ex_env3 [None] (init ex_env3 ex_files)))
            \<and> phase (jobs (run ex_env3 [None] (init ex_env3 ex_files)) ! j) \<noteq> Fulfilled}"
  using promises_track_jobs [OF run_from_init, of ex_env3 "[None]" ex_files] .

text \<open>
  C3. The \<^verbatim>\<open>then\<close> callback always finds its own promise: when a job is about to
  settle, \<^verbatim>\<open>indexOf\<close> is not \<^verbatim>\<open>-1\<close>, and the splice removes that promise and no
  other.
\<close>

theorem splice_finds_promise:
  assumes "reachable E files s" and "j < length (jobs s)"
    and "\<not> settled (phase (jobs s ! j))"
  shows "0 \<le> indexOf (promises s) j
     \<and> promises (then_callback j s) = remove1 j (promises s)"
proof -
  from assms(1) have "tracks s"
    using reachable_inv by (simp add: sched_inv_def)
  with assms(2,3) have "j \<in> set (promises s)"
    by (auto simp: settled_iff intro: tracks_mem)
  then show ?thesis
    using indexOf_neg_iff [of "promises s" j] by (simp add: not_less [symmetric])
qed

theorem splice_finds_promise_witness:
  "0 \<le> indexOf (promises (run ex_env3 [None] (init ex_env3 ex_files))) 1
   \<and> promises (then_callback 1 (run ex_env3 [None] (init ex_env3 ex_files)))
       = remove1 1 (promises (run ex_env3 [None] (init ex_env3 ex_files)))"
proof -
  have "1 < length (jobs (run ex_env3 [None] (init ex_env3 ex_files)))"
    and "\<not> settled (phase (jobs (run ex_env3 [None] (init ex_env3 ex_files)) ! 1))"
    by code_simp+
  with splice_finds_promise [OF run_from_init] show ?thesis by blast
qed

text \<open>
  C8. When the main function has run to its end, every selected sheet has had its
  job and every job is fulfilled; no page is open, the browser is closed and the
  extracted directory is removed.
\<close>

theorem done_all_released:
  assumes "reachable E files s" and "pc s = Done"
  shows "todo s = [] \<and> (\<forall>j < length (jobs s). phase (jobs s ! j) = Fulfilled)
     \<and> pages s = [] \<and> \<not> browser_open s \<and> \<not> extracted s"
proof -
  from assms have inv: "tracks s" "pages_ok s" "pc_ok E s"
    using reachable_inv by (simp_all add: sched_inv_def)
  from inv(3) assms(2) have e: "todo s = []" "promises s = []" "\<not> browser_open s" "\<not> extracted s"
    by (simp_all add: pc_ok_def)
  from inv(1) e(2) have f: "\<forall>j < length (jobs s). phase (jobs s ! j) = Fulfilled"
    by (auto simp: tracks_def)
  with inv(2) have "set (pages s) = {}" by (auto simp: pages_ok_def)
  with e f show ?thesis by simp
qed

theorem done_all_released_witness:
  "todo (run ex_env ex_schedule (init ex_env ex_files)) = []
   \<and> pages (run ex_env ex_schedule (init ex_env ex_files)) = []
   \<and> \<not> browser_open (run ex_env ex_schedule (init ex_env ex_files))
   \<and> \<not> extracted (run ex_env ex_schedule (init ex_env ex_files))"
  using done_all_released [OF run_from_init, of ex_env ex_schedule ex_files]
  by (simp add: ex_run_done)

text \<open>
  The idiom of the callback is safe only because of the invariant: on an
  array that does not hold the promise, \<^verbatim>\<open>splice(indexOf(promise), 1)\<close> removes the
  last promise of the array instead.
\<close>

lemma then_callback_absent:
  assumes "j \<notin> set (promises s)"
  shows "promises (then_callback j s) = butlast (promises s)"
  using assms by (simp add: splice_indexOf_absent del: One_nat_def)

lemma then_callback_absent_witness:
  "promises (then_callback 7 (run ex_env3 [None] (init ex_env3 ex_files))) = [0]"
proof -
  have "promises (run ex_env3 [None] (init ex_env3 ex_files)) = [0, 1]" by code_simp
  with then_callback_absent [of 7 "run ex_env3 [None] (init ex_env3 ex_files)"]
  show ?thesis by simp
qed

end
