(* ===== verification/GS_Progress.thy ===== *)
theory GS_Progress
  imports GS_Invariant
begin

text \<open>
  What the render loop achieves, beyond keeping its invariant: every selected sheet
  is accounted for (\<open>accounted\<close>: the jobs started and the sheets still to do are,
  in order, the selection); every answer of the browser brings the run closer to
  its end (\<open>weight\<close>, a measure that each step decreases, so a run takes at most
  nine answers per sheet and three more, which a run without errors needs); a run that has neither ended nor failed
  can always continue (no state waits for a promise that cannot settle); and when
  the browser answers every call, the run ends without failure (\<open>benign\<close>,
  \<open>drive\<close>).
\<close>

section \<open>Sheets and jobs\<close>

definition sheets_of :: "sched \<Rightarrow> string list" where
  "sheets_of s = map sheetName (jobs s) @ todo s"

definition job_wf :: "env \<Rightarrow> job \<Rightarrow> bool" where
  "job_wf E jb \<longleftrightarrow>
     htmlPath jb = join [extractedDir E, sheetName jb @ ''.html'']
     \<and> pngPath jb = join [normalize_path (outputDir (conf E)), sheetName jb @ ''.jpg'']"

abbreviation jobs_wf :: "env \<Rightarrow> sched \<Rightarrow> bool" where
  "jobs_wf E s \<equiv> list_all (job_wf E) (jobs s)"

definition accounted :: "env \<Rightarrow> string list \<Rightarrow> sched \<Rightarrow> bool" where
  "accounted E files s \<longleftrightarrow> sheets_of s = sheetNames (conf E) files \<and> jobs_wf E s"

lemma sheets_of_simps [simp]:
  "sheets_of (s\<lparr>pc := c\<rparr>) = sheets_of s"
  "sheets_of (s\<lparr>browser_open := b\<rparr>) = sheets_of s"
  "sheets_of (s\<lparr>extracted := b\<rparr>) = sheets_of s"
  "sheets_of (then_callback j s) = sheets_of s"
  "sheets_of ((launch E n s)\<lparr>todo := rest\<rparr>) = map sheetName (jobs s) @ n # rest"
  by (simp_all add: sheets_of_def)

lemma jobs_simps [simp]:
  "jobs (await_all s) = jobs s" "todo (await_all s) = todo s"
  by (simp_all add: await_all_def split: settlement.splits)

lemma sheets_of_await_all [simp]: "sheets_of (await_all s) = sheets_of s"
  by (simp add: sheets_of_def)

lemma sheets_of_loop: "sheets_of (loop E rest s) = map sheetName (jobs s) @ rest"
proof (induction rest arbitrary: s)
  case Nil
  show ?case by (simp add: sheets_of_def)
next
  case (Cons n rest)
  have "sheets_of (loop E rest ((launch E n s)\<lparr>todo := rest\<rparr>)) = map sheetName (jobs s) @ n # rest"
    by (simp add: Cons.IH)
  then show ?case
    by (simp add: Let_def split: settlement.splits)
qed

lemma sheets_of_wake [simp]: "sheets_of (wake E s) = sheets_of s"
  by (simp add: wake_def sheets_of_loop split: main_pc.splits settlement.splits)
    (simp add: sheets_of_def)

lemma sheets_of_advance [simp]: "sheets_of (advance j ph eff s) = sheets_of s"
  by (simp add: sheets_of_def map_update_same)

lemma sheets_of_job_event [simp]: "sheets_of (job_event E j s) = sheets_of s"
  by (simp add: job_event_def Let_def split: prod.splits phase.splits)

lemma sheets_of_step: "step E s t \<Longrightarrow> sheets_of t = sheets_of s"
  by (induction rule: step.induct)
    (simp_all add: launched_def browser_closed_def removed_def sheets_of_loop,
     simp add: sheets_of_def)

text \<open>Each job carries the two paths the loop computed for its sheet.\<close>

lemma jobs_wf_launch: "jobs_wf E s \<Longrightarrow> jobs_wf E ((launch E n s)\<lparr>todo := rest\<rparr>)"
  by (simp add: job_wf_def)

lemma jobs_wf_loop: "jobs_wf E s \<Longrightarrow> jobs_wf E (loop E rest s)"
proof (induction rest arbitrary: s)
  case Nil
  then show ?case by simp
next
  case (Cons n rest)
  from Cons.prems have "jobs_wf E ((launch E n s)\<lparr>todo := rest\<rparr>)"
    by (rule jobs_wf_launch)
  with Cons.IH [of "(launch E n s)\<lparr>todo := rest\<rparr>"] show ?case
    by (simp add: Let_def split: settlement.splits del: launch_fields)
qed

lemma jobs_wf_wake: "jobs_wf E s \<Longrightarrow> jobs_wf E (wake E s)"
  by (simp add: wake_def jobs_wf_loop split: main_pc.splits settlement.splits)

lemma jobs_wf_update:
  "list_all (job_wf E) js \<Longrightarrow> list_all (job_wf E) (js[j := (js ! j)\<lparr>phase := ph\<rparr>])"
  by (cases "j < length js") (auto simp: list_all_length nth_list_update job_wf_def)

lemma jobs_wf_job_event: "jobs_wf E s \<Longrightarrow> jobs_wf E (job_event E j s)"
  by (auto simp: job_event_def Let_def jobs_wf_wake jobs_wf_update
      split: prod.splits phase.splits)

lemma jobs_wf_step: "step E s t \<Longrightarrow> jobs_wf E s \<Longrightarrow> jobs_wf E t"
  by (induction rule: step.induct)
    (simp_all add: launched_def browser_closed_def removed_def jobs_wf_loop jobs_wf_job_event)

lemma reachable_accounted: "reachable E files s \<Longrightarrow> accounted E files s"
proof (induction rule: reachable.induct)
  case start
  show ?case by (simp add: accounted_def sheets_of_def init_def)
next
  case (next_step s t)
  then show ?case by (simp add: accounted_def sheets_of_step jobs_wf_step)
qed

section \<open>Every answer brings the run closer to its end\<close>

text \<open>
  The measure: the steps every job has left (\<open>rank\<close>, at most nine), nine for
  every sheet not yet started (the loop starts its job within the step that wakes
  the main function), and the awaits the main function has left outside the loop.
\<close>

fun pc_rank :: "main_pc \<Rightarrow> nat" where
  "pc_rank AwaitLaunch = 3"
| "pc_rank (AwaitRace snap) = 2"
| "pc_rank (AwaitAll snap) = 2"
| "pc_rank AwaitBrowserClose = 2"
| "pc_rank AwaitRm = 1"
| "pc_rank Done = 0"
| "pc_rank (Failed e) = 0"

definition work :: "job list \<Rightarrow> nat" where
  "work js = sum_list (map (\<lambda>jb. rank (phase jb)) js)"

definition weight :: "sched \<Rightarrow> nat" where
  "weight s = work (jobs s) + 9 * length (todo s) + pc_rank (pc s)"

lemma work_simps [simp]:
  "work [] = 0" "work (js @ ks) = work js + work ks" "work [jb] = rank (phase jb)"
  by (simp_all add: work_def)

lemma work_update:
  assumes "j < length js" and "rank ph < rank (phase (js ! j))"
  shows "work (js[j := (js ! j)\<lparr>phase := ph\<rparr>]) < work js"
proof -
  have "work (js[j := (js ! j)\<lparr>phase := ph\<rparr>])
      = sum_list ((map (\<lambda>jb. rank (phase jb)) js)[j := rank ph])"
    by (simp add: work_def map_update)
  also have "\<dots> = sum_list (map (\<lambda>jb. rank (phase jb)) js) + rank ph - rank (phase (js ! j))"
    using assms(1) by (simp add: sum_list_update)
  also have "\<dots> < work js"
  proof -
    have "rank (phase (js ! j)) \<le> sum_list (map (\<lambda>jb. rank (phase jb)) js)"
      using nth_mem [OF assms(1)] by (intro member_le_sum_list) auto
    with assms(2) show ?thesis by (simp add: work_def)
  qed
  finally show ?thesis .
qed

lemma pc_rank_le_2: "c \<noteq> AwaitLaunch \<Longrightarrow> pc_rank c \<le> 2"
  by (cases c) simp_all

lemma weight_await_all: "weight (await_all s) \<le> work (jobs s) + 9 * length (todo s) + 2"
  by (simp add: weight_def await_all_def split: settlement.splits)

lemma weight_loop: "weight (loop E rest s) \<le> work (jobs s) + 9 * length rest + 2"
proof (induction rest arbitrary: s)
  case Nil
  show ?case using weight_await_all [of "s\<lparr>todo := []\<rparr>"] by simp
next
  case (Cons n rest)
  from Cons.IH [of "(launch E n s)\<lparr>todo := rest\<rparr>"]
  have "weight (loop E rest ((launch E n s)\<lparr>todo := rest\<rparr>)) \<le> work (jobs s) + 9 * length rest + 11"
    by simp
  then show ?case
    by (simp add: Let_def weight_def split: settlement.splits)
qed

lemma weight_wake: "weight (wake E s) \<le> weight s"
proof (cases "pc s")
  case (AwaitRace snap)
  with weight_loop [of E "todo s" s] show ?thesis
    by (simp add: wake_def weight_def split: settlement.splits)
qed (simp_all add: wake_def weight_def split: settlement.splits)

lemma weight_then_callback [simp]: "weight (then_callback j s) = weight s"
  by (simp add: weight_def)

lemma weight_advance:
  "j < length (jobs s) \<Longrightarrow> rank ph < rank (phase (jobs s ! j)) \<Longrightarrow>
     weight (advance j ph eff s) < weight s"
  by (simp add: weight_def work_update)

lemma weight_job_event:
  assumes "j < length (jobs s)" and "\<not> settled (phase (jobs s ! j))"
  shows "weight (job_event E j s) < weight s"
proof -
  obtain ph eff where st: "job_step (page_of E (htmlPath (jobs s ! j))) (phase (jobs s ! j)) = (ph, eff)"
    by (cases "job_step (page_of E (htmlPath (jobs s ! j))) (phase (jobs s ! j))")
  with rank_job_step [OF assms(2), of "page_of E (htmlPath (jobs s ! j))"]
  have "rank ph < rank (phase (jobs s ! j))" by simp
  with assms(1) have less: "weight (advance j ph eff s) < weight s"
    by (rule weight_advance)
  have "weight (job_event E j s) \<le> weight (advance j ph eff s)"
    using weight_wake [of E "then_callback j (advance j ph eff s)"]
      weight_wake [of E "advance j ph eff s"]
    by (cases ph) (simp_all add: job_event_def Let_def st)
  with less show ?thesis by simp
qed

lemma weight_step: "step E s t \<Longrightarrow> weight t < weight s"
proof (induction rule: step.induct)
  case (launch_answer s)
  with weight_loop [of E "todo s" "s\<lparr>browser_open := True\<rparr>"] show ?case
    by (simp add: launched_def weight_def)
next
  case (job_answer j s)
  then show ?case by (simp add: weight_job_event)
qed (simp_all add: browser_closed_def removed_def weight_def)

text \<open>Executions counted by their steps.\<close>

inductive reaches :: "env \<Rightarrow> sched \<Rightarrow> nat \<Rightarrow> sched \<Rightarrow> bool" for E s where
  reaches_0: "reaches E s 0 s"
| reaches_Suc: "reaches E s n t \<Longrightarrow> step E t u \<Longrightarrow> reaches E s (Suc n) u"

lemma reaches_weight: "reaches E s n t \<Longrightarrow> n + weight t \<le> weight s"
  by (induction rule: reaches.induct) (auto dest: weight_step)

lemma reaches_reachable:
  "reaches E s n t \<Longrightarrow> reachable E files s \<Longrightarrow> reachable E files t"
  by (induction rule: reaches.induct) (auto intro: reachable.next_step)

lemma weight_init: "weight (init E files) = 9 * length (sheetNames (conf E) files) + 3"
  by (simp add: weight_def init_def)

lemma step_reaches: "reaches E u n t \<Longrightarrow> step E s u \<Longrightarrow> reaches E s (Suc n) t"
  by (induction rule: reaches.induct) (auto intro: reaches.intros)

text \<open>
  A list of answers each of which is awaited when it comes (\<open>answered\<close>) gives an
  execution of as many steps.
\<close>

fun answered :: "env \<Rightarrow> nat option list \<Rightarrow> sched \<Rightarrow> bool" where
  "answered E [] s = True"
| "answered E (a # as) s =
     (enabled s a
      \<and> answered E as (case a of None \<Rightarrow> main_event E s | Some j \<Rightarrow> job_event E j s))"

lemma run_reaches: "answered E as s \<Longrightarrow> reaches E s (length as) (run E as s)"
proof (induction as arbitrary: s)
  case Nil
  show ?case by (simp add: reaches_0)
next
  case (Cons a as)
  let ?t = "case a of None \<Rightarrow> main_event E s | Some j \<Rightarrow> job_event E j s"
  from Cons.prems have en: "enabled s a" and "answered E as ?t" by simp_all
  from this(2) have "reaches E ?t (length as) (run E as ?t)" by (rule Cons.IH)
  then have "reaches E s (Suc (length as)) (run E as ?t)"
    using enabled_step [OF en] by (rule step_reaches)
  with en show ?case by simp
qed

section \<open>A run that has not ended can continue\<close>

lemma waiting_job:
  assumes "tracks s" "no_rejected s" "promises s \<noteq> []"
  shows "\<exists>j < length (jobs s). \<not> settled (phase (jobs s ! j))"
proof -
  from assms(3) have "hd (promises s) \<in> set (promises s)" by simp
  with tracks_lt [OF assms(1)] tracks_unsettled [OF assms(1,2)] show ?thesis by blast
qed

lemma inv_progress:
  assumes "sched_inv E s" and "pc s \<noteq> Done" and "\<not> failed (pc s)"
  shows "\<exists>t. step E s t"
proof -
  from assms(1) have t: "tracks s" and ok: "pc_ok E s" by (simp_all add: sched_inv_def)
  have job: "no_rejected s \<Longrightarrow> promises s \<noteq> [] \<Longrightarrow> ?thesis"
    using waiting_job [OF t] assms(3) by (blast intro: step.job_answer)
  show ?thesis
  proof (cases "pc s")
    case (AwaitRace snap)
    with ok show ?thesis by (intro job) (auto simp: pc_ok_def)
  next
    case (AwaitAll snap)
    with ok show ?thesis by (intro job) (auto simp: pc_ok_def)
  qed (use assms in \<open>auto intro: step.intros\<close>)
qed

lemma failed_stuck: "failed (pc s) \<Longrightarrow> \<not> step E s t"
  by (auto elim!: step_cases)

lemma done_stuck:
  assumes "sched_inv E s" and "pc s = Done"
  shows "\<not> step E s t"
proof
  assume "step E s t"
  then obtain j where j: "j < length (jobs s)" "\<not> settled (phase (jobs s ! j))"
    using assms(2) by (auto elim!: step_cases)
  then have "j \<in> set (promises s)"
    using assms(1) by (auto simp: sched_inv_def settled_iff intro: tracks_mem)
  with assms show False by (simp add: sched_inv_def pc_ok_def)
qed

section \<open>When the browser and the file system answer every call\<close>

definition benign :: "env \<Rightarrow> bool" where
  "benign E \<longleftrightarrow>
     launch_ok E \<and> browser_close_ok E \<and> rm_ok E
     \<and> (\<forall>path. newPage_ok (page_of E path) \<and> goto_ok (page_of E path)
            \<and> close_ok (page_of E path))"

definition safe :: "sched \<Rightarrow> bool" where
  "safe s \<longleftrightarrow> \<not> failed (pc s) \<and> no_rejected s"

lemma race_outcome_rejected:
  "race_outcome js ps = RejectedWith e \<Longrightarrow> \<exists>p \<in> set ps. phase (js ! p) = Rejected e"
  by (induction ps) (auto split: phase.splits)

lemma all_outcome_rejected:
  "all_outcome js ps = RejectedWith e \<Longrightarrow> \<exists>p \<in> set ps. phase (js ! p) = Rejected e"
  by (induction ps) (auto split: phase.splits settlement.splits)

lemma no_rejected_outcomes:
  assumes "no_rejected s" and "\<forall>p \<in> set ps. p < length (jobs s)"
  shows "race_outcome (jobs s) ps \<noteq> RejectedWith e" "all_outcome (jobs s) ps \<noteq> RejectedWith e"
  using assms race_outcome_rejected [of "jobs s" ps e] all_outcome_rejected [of "jobs s" ps e]
  by (auto simp: no_rejected_def)

lemma no_rejected_await_all [simp]: "no_rejected (await_all s) = no_rejected s"
  by (simp add: await_all_def split: settlement.splits)

lemma safe_await_all:
  assumes "tracks s" "no_rejected s"
  shows "safe (await_all s)"
  using assms no_rejected_outcomes(2) [OF assms(2), of "promises s"]
  by (auto simp: safe_def await_all_def dest: tracks_lt split: settlement.splits)

lemma safe_loop:
  assumes "tracks s" "no_rejected s"
  shows "safe (loop E rest s)"
  using assms
proof (induction rest arbitrary: s)
  case Nil
  then show ?case by (simp add: safe_await_all)
next
  case (Cons n rest)
  define s1 where "s1 = (launch E n s)\<lparr>todo := rest\<rparr>"
  have s1: "tracks s1" "no_rejected s1"
    using Cons.prems by (simp_all add: s1_def tracks_launch no_rejected_launch)
  then have "safe (loop E rest s1)" by (rule Cons.IH)
  moreover have "race_outcome (jobs s1) (promises s1) \<noteq> RejectedWith e" for e
    using s1 by (intro no_rejected_outcomes) (auto dest: tracks_lt)
  ultimately show ?case
    using s1(2) by (simp add: s1_def [symmetric] Let_def safe_def split: settlement.splits)
qed

lemma snap_range:
  assumes "sched_inv E s" and "pc s = AwaitRace snap \<or> pc s = AwaitAll snap"
  shows "\<forall>p \<in> set snap. p < length (jobs s)"
  using assms by (auto simp: sched_inv_def pc_ok_def dest: tracks_lt)

lemma safe_wake:
  assumes "tracks s" "safe s"
    and "\<And>snap. pc s = AwaitRace snap \<or> pc s = AwaitAll snap \<Longrightarrow> \<forall>p \<in> set snap. p < length (jobs s)"
  shows "safe (wake E s)"
proof (cases "pc s")
  case (AwaitRace snap)
  with assms no_rejected_outcomes(1) [of s snap] safe_loop [of s E "todo s"] show ?thesis
    by (auto simp: wake_def safe_def split: settlement.splits)
next
  case (AwaitAll snap)
  with assms no_rejected_outcomes(2) [of s snap] show ?thesis
    by (auto simp: wake_def safe_def split: settlement.splits)
qed (use assms(2) in \<open>simp_all add: wake_def\<close>)

lemma safe_job_event:
  assumes inv: "sched_inv E s" and safe: "safe s" and j: "j < length (jobs s)"
    and un: "\<not> settled (phase (jobs s ! j))" and ok: "benign E"
  shows "safe (job_event E j s)"
proof -
  define p where "p = page_of E (htmlPath (jobs s ! j))"
  obtain ph eff where step: "job_step p (phase (jobs s ! j)) = (ph, eff)"
    by (cases "job_step p (phase (jobs s ! j))")
  from ok have "newPage_ok p" "goto_ok p" "close_ok p" by (simp_all add: benign_def p_def)
  with un step job_step_Rejected_iff [of p "phase (jobs s ! j)"] have nr: "\<forall>e. ph \<noteq> Rejected e"
    by (auto simp: settled_iff)
  from safe have s1: "safe (advance j ph eff s)"
    by (simp add: safe_def no_rejected_advance [OF _ nr])
  from inv have t: "tracks s" by (simp add: sched_inv_def)
  from un have nF: "phase (jobs s ! j) \<noteq> Fulfilled" by (simp add: settled_iff)
  show ?thesis
  proof (cases "ph = Fulfilled")
    case True
    have "safe (wake E (then_callback j (advance j Fulfilled eff s)))"
    proof (rule safe_wake)
      show "tracks (then_callback j (advance j Fulfilled eff s))"
        using t j nF by (rule tracks_fulfil)
      show "safe (then_callback j (advance j Fulfilled eff s))"
        using s1 True by (simp add: safe_def)
      show "\<forall>p \<in> set snap. p < length (jobs (then_callback j (advance j Fulfilled eff s)))"
        if "pc (then_callback j (advance j Fulfilled eff s)) = AwaitRace snap
          \<or> pc (then_callback j (advance j Fulfilled eff s)) = AwaitAll snap" for snap
        using snap_range [OF inv, of snap] that by simp
    qed
    with True step show ?thesis
      by (simp add: job_event_def Let_def p_def)
  next
    case False
    with nr s1 step show ?thesis
      by (cases ph) (simp_all add: job_event_def Let_def p_def)
  qed
qed

lemma safe_step:
  assumes "step E s t" and "sched_inv E s" and "safe s" and "benign E"
  shows "safe t"
  using assms
proof (induction rule: step.induct)
  case (launch_answer s)
  then have "tracks (s\<lparr>browser_open := True\<rparr>)" "no_rejected (s\<lparr>browser_open := True\<rparr>)"
    by (simp_all add: sched_inv_def safe_def)
  then have "safe (loop E (todo s) (s\<lparr>browser_open := True\<rparr>))" by (rule safe_loop)
  with launch_answer show ?case by (simp add: launched_def benign_def)
next
  case (job_answer j s)
  then show ?case by (simp add: safe_job_event)
qed (simp_all add: browser_closed_def removed_def benign_def safe_def)

lemma reachable_safe: "reachable E files s \<Longrightarrow> benign E \<Longrightarrow> safe s"
proof (induction rule: reachable.induct)
  case start
  show ?case by (simp add: safe_def init_def no_rejected_def)
next
  case (next_step s t)
  then show ?case by (blast intro: safe_step reachable_inv)
qed

lemma safe_inv_completes:
  assumes "reachable E files s" and "benign E"
  shows "\<exists>n t. reaches E s n t \<and> pc t = Done"
  using assms(1)
proof (induction "weight s" arbitrary: s rule: less_induct)
  case less
  show ?case
  proof (cases "pc s = Done")
    case True
    then show ?thesis by (blast intro: reaches_0)
  next
    case False
    from less.prems assms(2) have "\<not> failed (pc s)"
      using reachable_safe by (simp add: safe_def)
    with False reachable_inv [OF less.prems] obtain u where u: "step E s u"
      using inv_progress by blast
    with less.prems have "reachable E files u" by (rule reachable.next_step)
    with less.hyps [OF weight_step [OF u]] obtain n t where "reaches E u n t" "pc t = Done"
      by blast
    with u show ?thesis by (blast intro: step_reaches)
  qed
qed

section \<open>An order of answers that completes the run\<close>

text \<open>
  \<open>next_answer\<close> chooses the answer to the main function when it waits for the
  browser or the file system, and else the answer to the oldest job that is still
  running; \<open>drive\<close> follows this choice for a number of steps.
\<close>

definition next_answer :: "sched \<Rightarrow> nat option option" where
  "next_answer s =
     (if enabled s None then Some None
      else (case filter (\<lambda>j. enabled s (Some j)) [0..<length (jobs s)] of
              [] \<Rightarrow> None
            | j # js \<Rightarrow> Some (Some j)))"

fun drive :: "env \<Rightarrow> nat \<Rightarrow> sched \<Rightarrow> sched" where
  "drive E 0 s = s"
| "drive E (Suc n) s =
     (case next_answer s of
        None \<Rightarrow> s
      | Some a \<Rightarrow> drive E n (case a of None \<Rightarrow> main_event E s | Some j \<Rightarrow> job_event E j s))"

lemma next_answer_enabled: "next_answer s = Some a \<Longrightarrow> enabled s a"
  by (auto simp: next_answer_def split: if_splits list.splits dest: Cons_eq_filterD [OF sym])

lemma step_enabled:
  "step E s t \<Longrightarrow> enabled s None \<or> (\<exists>j < length (jobs s). enabled s (Some j))"
  by (induction rule: step.induct) (auto simp: enabled_def)

lemma next_answer_None:
  assumes "next_answer s = None"
  shows "\<not> step E s t"
proof
  assume "step E s t"
  moreover from assms have "\<not> enabled s None" and "\<forall>j < length (jobs s). \<not> enabled s (Some j)"
    by (auto simp: next_answer_def filter_empty_conv split: if_splits list.splits)
  ultimately show False
    by (auto dest: step_enabled)
qed

lemma drive_reachable: "reachable E files s \<Longrightarrow> reachable E files (drive E n s)"
proof (induction n arbitrary: s)
  case 0
  then show ?case by simp
next
  case (Suc n)
  show ?case
  proof (cases "next_answer s")
    case None
    with Suc.prems show ?thesis by simp
  next
    case (Some a)
    from enabled_step [OF next_answer_enabled [OF Some]] Suc.prems
    have "reachable E files (case a of None \<Rightarrow> main_event E s | Some j \<Rightarrow> job_event E j s)"
      by (blast intro: reachable.next_step)
    from Suc.IH [OF this] Some show ?thesis by simp
  qed
qed

lemmas drive_from_init = drive_reachable [OF reachable.start]

lemma stuck_done:
  assumes "reachable E files s" and "benign E" and "\<And>t. \<not> step E s t"
  shows "pc s = Done"
  using inv_progress [OF reachable_inv [OF assms(1)]] reachable_safe [OF assms(1,2)] assms(3)
  by (auto simp: safe_def)

lemma drive_done:
  assumes "benign E"
  shows "reachable E files s \<Longrightarrow> weight s \<le> n \<Longrightarrow> pc (drive E n s) = Done"
proof (induction n arbitrary: s)
  case 0
  have "\<not> step E s t" for t
    using weight_step [of E s t] 0(2) by auto
  with 0(1) assms show ?case by (simp add: stuck_done)
next
  case (Suc n)
  show ?case
  proof (cases "next_answer s")
    case None
    with Suc.prems(1) assms show ?thesis
      by (simp add: stuck_done next_answer_None)
  next
    case (Some a)
    let ?t = "case a of None \<Rightarrow> main_event E s | Some j \<Rightarrow> job_event E j s"
    have st: "step E s ?t" by (rule enabled_step [OF next_answer_enabled [OF Some]])
    with Suc.prems(1) have "reachable E files ?t" by (rule reachable.next_step)
    moreover from weight_step [OF st] Suc.prems(2) have "weight ?t \<le> n" by simp
    ultimately have "pc (drive E n ?t) = Done" by (rule Suc.IH)
    with Some show ?thesis by simp
  qed
qed

section \<open>A run in which a navigation fails\<close>

text \<open>
  The configuration of \<open>ex_env3\<close> (four sheets, two at a time), with a browser
  that cannot load the page of sheet \<^verbatim>\<open>B\<close>.
\<close>

definition ex_env_goto :: env where
  "ex_env_goto =
     ex_env3\<lparr>page_of := (\<lambda>path. if path = ''/tmp/gs2imgx-1/B.html''
                                then ex_page\<lparr>goto_ok := False\<rparr> else ex_page)\<rparr>"

lemma benign_ex_env3: "benign ex_env3"
  by (simp add: benign_def ex_env3_def ex_env_def ex_page_def)

section \<open>Properties of whole runs\<close>

text \<open>
  C5. Every selected sheet gets exactly one job, in the order of the selection: in
  every reachable state the sheets of the jobs started, followed by the sheets the
  loop has not reached, are the selected sheets; and each job was given the page
  \<^verbatim>\<open>extractedDir/sheet.html\<close> to load and the file \<^verbatim>\<open>outputDir/sheet.jpg\<close> to write.
\<close>

theorem every_sheet_one_job:
  assumes "reachable E files s"
  shows "map sheetName (jobs s) @ todo s = sheetNames (conf E) files
     \<and> (\<forall>jb \<in> set (jobs s).
           htmlPath jb = join [extractedDir E, sheetName jb @ ''.html'']
           \<and> pngPath jb = join [normalize_path (outputDir (conf E)), sheetName jb @ ''.jpg''])"
  using reachable_accounted [OF assms]
  by (simp add: accounted_def sheets_of_def list_all_iff job_wf_def)

theorem every_sheet_one_job_witness:
  "map sheetName (jobs (run ex_env3 [None] (init ex_env3 ex_files)))
     @ todo (run ex_env3 [None] (init ex_env3 ex_files)) = sheetNames (conf ex_env3) ex_files"
  using every_sheet_one_job [OF run_from_init, of ex_env3 "[None]" ex_files] by simp

text \<open>
  C16. A run ends: every answer of the browser or of the file system lowers the
  measure \<open>weight\<close>, so a run from the start has at most nine steps for every
  selected sheet (the nine awaits of \<^verbatim>\<open>screenshot\<close>) and three more (launch, close,
  remove). A run in which every page is rendered takes exactly that many.
\<close>

theorem run_length_bounded:
  assumes "reaches E (init E files) n s"
  shows "n \<le> 9 * length (sheetNames (conf E) files) + 3"
  using reaches_weight [OF assms] by (simp add: weight_init)

theorem run_length_bounded_witness:
  "reaches ex_env (init ex_env ex_files) 12 (run ex_env ex_schedule (init ex_env ex_files))
   \<and> pc (run ex_env ex_schedule (init ex_env ex_files)) = Done
   \<and> 12 \<le> 9 * length (sheetNames (conf ex_env) ex_files) + 3
   \<and> 9 * length (sheetNames (conf ex_env) ex_files) + 3 \<le> 12"
proof -
  have "answered ex_env ex_schedule (init ex_env ex_files)" by code_simp
  then have "reaches ex_env (init ex_env ex_files) (length ex_schedule)
      (run ex_env ex_schedule (init ex_env ex_files))"
    by (rule run_reaches)
  moreover have "length ex_schedule = 12" by (simp add: ex_schedule_def)
  ultimately have r: "reaches ex_env (init ex_env ex_files) 12
      (run ex_env ex_schedule (init ex_env ex_files))"
    by (simp only:)
  have d: "pc (run ex_env ex_schedule (init ex_env ex_files)) = Done"
    by (simp add: ex_run_done)
  have "length (sheetNames (conf ex_env) ex_files) = 1" by code_simp
  then have n: "9 * length (sheetNames (conf ex_env) ex_files) + 3 \<le> 12" by simp
  from run_length_bounded [OF r] r d n show ?thesis by blast
qed

text \<open>
  There is no infinite run: the converse of the step relation is well-founded.
\<close>

lemma step_wf: "wf {(t, s). step E s t}"
  by (rule wf_subset [OF wf_measure [of weight]]) (auto dest: weight_step)

text \<open>
  C15. No deadlock: a reachable state has a next step unless the main function has
  ended or has failed. While the main function waits in \<^verbatim>\<open>Promise.race\<close> or
  \<^verbatim>\<open>Promise.all\<close>, some job it waits for is still running.
\<close>

theorem no_deadlock:
  assumes "reachable E files s"
  shows "(\<exists>t. step E s t) \<longleftrightarrow> pc s \<noteq> Done \<and> \<not> failed (pc s)"
  using inv_progress [OF reachable_inv [OF assms]] done_stuck [OF reachable_inv [OF assms]]
    failed_stuck [of s E]
  by blast

theorem no_deadlock_witness: "\<exists>t. step ex_env (init ex_env ex_files) t"
  using no_deadlock [OF reachable.start, of ex_env ex_files] by (simp add: init_def)

text \<open>
  C21. When the browser opens, loads and closes every page and the final cleanup
  succeeds, the main function never fails and no job is rejected, whatever the
  pages contain and whatever the captures do.
\<close>

theorem benign_never_fails:
  assumes "benign E" and "reachable E files s"
  shows "\<not> failed (pc s) \<and> (\<forall>j < length (jobs s). \<forall>e. phase (jobs s ! j) \<noteq> Rejected e)"
  using reachable_safe [OF assms(2,1)] by (simp add: safe_def no_rejected_def)

theorem benign_never_fails_witness:
  "\<not> failed (pc (run ex_env3 [None, Some 0] (init ex_env3 ex_files)))"
  using benign_never_fails [OF benign_ex_env3 run_from_init, of "[None, Some 0]" ex_files]
  by simp

text \<open>
  C23. Under the same assumption every run can be completed: from every reachable
  state some sequence of answers leads to the end of the main function.
\<close>

theorem benign_completes:
  assumes "benign E" and "reachable E files s"
  shows "\<exists>n t. reaches E s n t \<and> pc t = Done"
  using safe_inv_completes [OF assms(2,1)] .

theorem benign_completes_witness:
  "\<exists>n t. reaches ex_env3 (init ex_env3 ex_files) n t \<and> pc t = Done"
  using benign_completes [OF benign_ex_env3 reachable.start] .

text \<open>
  C22. Under the same assumption the run in which the oldest running job is always
  answered first reaches the end of the main function within nine steps for every
  selected sheet and three more.
\<close>

theorem drive_completes:
  assumes "benign E"
  shows "pc (drive E (9 * length (sheetNames (conf E) files) + 3) (init E files)) = Done"
  using drive_done [OF assms reachable.start, of files] by (simp add: weight_init)

theorem drive_completes_witness:
  "pc (drive ex_env3 (9 * length (sheetNames (conf ex_env3) ex_files) + 3)
        (init ex_env3 ex_files)) = Done"
  using drive_completes [OF benign_ex_env3] .

text \<open>
  C17. A rejected job ends the run where it stands: when \<^verbatim>\<open>newPage\<close>, \<^verbatim>\<open>goto\<close> or
  \<^verbatim>\<open>close\<close> throws, the promise the main function waits for is rejected, the main
  function fails with that error and takes no further step. The browser stays
  open, the extracted directory stays on disk, the sheets not yet started are never
  rendered, and the promise of the rejected job stays in the array.
\<close>

theorem rejection_abandons_run:
  assumes "reachable E files s" and "j < length (jobs s)"
    and "\<not> settled (phase (jobs s ! j))" and "\<not> failed (pc s)"
    and "fst (job_step (page_of E (htmlPath (jobs s ! j))) (phase (jobs s ! j))) = Rejected e"
  shows "pc (job_event E j s) = Failed e \<and> browser_open (job_event E j s)
     \<and> extracted (job_event E j s) \<and> todo (job_event E j s) = todo s
     \<and> promises (job_event E j s) = promises s \<and> (\<forall>u. \<not> step E (job_event E j s) u)"
proof -
  note inv = reachable_inv [OF assms(1)]
  obtain eff where step:
    "job_step (page_of E (htmlPath (jobs s ! j))) (phase (jobs s ! j)) = (Rejected e, eff)"
    using assms(5) by (cases "job_step (page_of E (htmlPath (jobs s ! j))) (phase (jobs s ! j))") simp
  then have ev: "job_event E j s = (advance j (Rejected e) eff s)\<lparr>pc := Failed e\<rparr>"
    by (simp add: job_event_def Let_def rejected_wake [OF inv assms(2-4)])
  from assms(3) have "phase (jobs s ! j) \<noteq> Fulfilled" by (simp add: settled_iff)
  from active_pc [OF inv assms(2) this assms(4)] have "browser_open s" "extracted s"
    by simp_all
  then show ?thesis
    by (simp add: ev failed_stuck)
qed

theorem rejection_abandons_run_witness:
  "pc (job_event ex_env_goto 1 (run ex_env_goto [None, Some 1] (init ex_env_goto ex_files)))
     = Failed GotoFailed
   \<and> browser_open (job_event ex_env_goto 1 (run ex_env_goto [None, Some 1] (init ex_env_goto ex_files)))
   \<and> extracted (job_event ex_env_goto 1 (run ex_env_goto [None, Some 1] (init ex_env_goto ex_files)))"
proof -
  have "1 < length (jobs (run ex_env_goto [None, Some 1] (init ex_env_goto ex_files)))"
    and "\<not> settled (phase (jobs (run ex_env_goto [None, Some 1] (init ex_env_goto ex_files)) ! 1))"
    and "\<not> failed (pc (run ex_env_goto [None, Some 1] (init ex_env_goto ex_files)))"
    and "fst (job_step
          (page_of ex_env_goto
            (htmlPath (jobs (run ex_env_goto [None, Some 1] (init ex_env_goto ex_files)) ! 1)))
          (phase (jobs (run ex_env_goto [None, Some 1] (init ex_env_goto ex_files)) ! 1)))
        = Rejected GotoFailed"
    by code_simp+
  from rejection_abandons_run [OF run_from_init this] show ?thesis by blast
qed

end
