(* ===== verification/GS_Output.thy ===== *)
theory GS_Output
  imports GS_Progress
begin

text \<open>
  What a run leaves behind: the pictures written and the errors logged. The
  invariant \<open>output_inv\<close> ties them to the jobs: every job carries in its phase what
  its page answered (\<open>phases_ok\<close>); every picture was written to the path of a job
  and shows the region the \<^verbatim>\<open>try\<close> block computes for the page of that job
  (\<open>captured_ok\<close>); every logged error is the error of the \<^verbatim>\<open>try\<close> block of a job
  (\<open>logged_ok\<close>); each job that is past its \<^verbatim>\<open>try\<close> block has left exactly one
  of the two (\<open>outputs_counted\<close>), and no job has written twice (\<open>written_once\<close>).
  With the lemmas on \<^verbatim>\<open>join\<close> the jobs of different sheets write different files.
\<close>

section \<open>The invariant of the outputs\<close>

definition job_targets :: "sched \<Rightarrow> (string \<times> string) list" where
  "job_targets s = map (\<lambda>jb. (pngPath jb, htmlPath jb)) (jobs s)"

definition phases_ok :: "env \<Rightarrow> sched \<Rightarrow> bool" where
  "phases_ok E s \<longleftrightarrow> list_all (\<lambda>jb. phase_ok (page_of E (htmlPath jb)) (phase jb)) (jobs s)"

definition captured_ok :: "env \<Rightarrow> sched \<Rightarrow> bool" where
  "captured_ok E s \<longleftrightarrow>
     list_all (\<lambda>(path, clip).
         list_ex (\<lambda>(png, html). png = path \<and> try_block (page_of E html) = Inr clip)
           (job_targets s))
       (written s)"

definition logged_ok :: "env \<Rightarrow> sched \<Rightarrow> bool" where
  "logged_ok E s \<longleftrightarrow>
     list_all (\<lambda>e. list_ex (\<lambda>(png, html). try_block (page_of E html) = Inl e) (job_targets s))
       (console s)"

definition done_jobs :: "sched \<Rightarrow> nat" where
  "done_jobs s = length (filter (\<lambda>jb. past_try (phase jb)) (jobs s))"

definition outputs_counted :: "sched \<Rightarrow> bool" where
  "outputs_counted s \<longleftrightarrow> length (written s) + length (console s) = done_jobs s"

definition written_once :: "sched \<Rightarrow> bool" where
  "written_once s \<longleftrightarrow>
     mset (map fst (written s))
       \<subseteq># mset (map pngPath (filter (\<lambda>jb. past_try (phase jb)) (jobs s)))"

definition output_inv :: "env \<Rightarrow> sched \<Rightarrow> bool" where
  "output_inv E s \<longleftrightarrow>
     phases_ok E s \<and> captured_ok E s \<and> logged_ok E s \<and> outputs_counted s \<and> written_once s"

lemmas output_defs [gs_defs] =
  job_targets_def phases_ok_def captured_ok_def logged_ok_def done_jobs_def
  outputs_counted_def written_once_def output_inv_def

section \<open>Fields the effects change\<close>

lemma written_advance:
  "j < length (jobs s) \<Longrightarrow>
     written (advance j ph eff s) =
       written s @ (case eff of Captured clip \<Rightarrow> [(pngPath (jobs s ! j), clip)] | _ \<Rightarrow> [])"
  by (cases eff) (simp_all add: advance_def)

lemma console_advance:
  "console (advance j ph eff s) = console s @ (case eff of Logged e \<Rightarrow> [e] | _ \<Rightarrow> [])"
  by (cases eff) (simp_all add: advance_def)

lemma outputs_advance:
  "j < length (jobs s) \<Longrightarrow>
     length (written (advance j ph eff s)) + length (console (advance j ph eff s))
       = length (written s) + length (console s) + (if emits eff then 1 else 0)"
  by (cases eff) (simp_all add: written_advance console_advance)

lemma job_targets_advance [simp]: "job_targets (advance j ph eff s) = job_targets s"
  by (simp add: job_targets_def map_update_same)

lemma outputs_await_all [simp]:
  "written (await_all s) = written s" "console (await_all s) = console s"
  by (simp_all add: await_all_def split: settlement.splits)

lemma output_inv_fields [simp]:
  "output_inv E (s\<lparr>pc := c\<rparr>) = output_inv E s"
  "output_inv E (s\<lparr>todo := ns\<rparr>) = output_inv E s"
  "output_inv E (s\<lparr>browser_open := b\<rparr>) = output_inv E s"
  "output_inv E (s\<lparr>extracted := b\<rparr>) = output_inv E s"
  "output_inv E (then_callback j s) = output_inv E s"
  "output_inv E (await_all s) = output_inv E s"
  by (simp_all add: output_defs then_callback_def)

section \<open>Every step keeps the invariant\<close>

lemma output_inv_launch:
  assumes "output_inv E s"
  shows "output_inv E (launch E n s)"
  using assms by (auto simp: output_defs list_all_iff list_ex_iff)

lemma output_inv_loop: "output_inv E s \<Longrightarrow> output_inv E (loop E rest s)"
proof (induction rest arbitrary: s)
  case Nil
  then show ?case by simp
next
  case (Cons n rest)
  from Cons.prems have "output_inv E ((launch E n s)\<lparr>todo := rest\<rparr>)"
    by (simp add: output_inv_launch)
  with Cons.IH [of "(launch E n s)\<lparr>todo := rest\<rparr>"] show ?case
    by (simp add: Let_def split: settlement.splits del: launch_fields)
qed

lemma output_inv_wake: "output_inv E s \<Longrightarrow> output_inv E (wake E s)"
  by (simp add: wake_def output_inv_loop split: main_pc.splits settlement.splits)

lemma phases_ok_advance:
  assumes "phases_ok E s" and "j < length (jobs s)"
    and "job_step (page_of E (htmlPath (jobs s ! j))) (phase (jobs s ! j)) = (ph, eff)"
  shows "phases_ok E (advance j ph eff s)"
proof -
  from assms(1,2) have "phase_ok (page_of E (htmlPath (jobs s ! j))) (phase (jobs s ! j))"
    by (simp add: phases_ok_def list_all_length)
  from phase_ok_job_step [OF this] assms(3)
  have "phase_ok (page_of E (htmlPath (jobs s ! j))) ph" by simp
  with assms(1) show ?thesis
    by (simp add: phases_ok_def list_all_updateI)
qed

lemma target_mem:
  "j < length (jobs s) \<Longrightarrow> (pngPath (jobs s ! j), htmlPath (jobs s ! j)) \<in> set (job_targets s)"
  by (auto simp: job_targets_def intro!: image_eqI [where x = "jobs s ! j"])

lemma captured_ok_advance:
  assumes "captured_ok E s" "phases_ok E s" and "j < length (jobs s)"
    and "job_step (page_of E (htmlPath (jobs s ! j))) (phase (jobs s ! j)) = (ph, eff)"
  shows "captured_ok E (advance j ph eff s)"
proof (cases eff)
  case (Captured clip)
  from assms(2,3) have "phase_ok (page_of E (htmlPath (jobs s ! j))) (phase (jobs s ! j))"
    by (simp add: phases_ok_def list_all_length)
  from job_step_Captured [OF this, of clip] assms(4) Captured
  have "try_block (page_of E (htmlPath (jobs s ! j))) = Inr clip" by simp
  with target_mem [OF assms(3)] assms(1,3) Captured show ?thesis
    by (auto simp: captured_ok_def written_advance list_ex_iff)
qed (use assms(1,3) in \<open>simp_all add: captured_ok_def written_advance\<close>)

lemma logged_ok_advance:
  assumes "logged_ok E s" "phases_ok E s" and "j < length (jobs s)"
    and "job_step (page_of E (htmlPath (jobs s ! j))) (phase (jobs s ! j)) = (ph, eff)"
  shows "logged_ok E (advance j ph eff s)"
proof (cases eff)
  case (Logged e)
  from assms(2,3) have "phase_ok (page_of E (htmlPath (jobs s ! j))) (phase (jobs s ! j))"
    by (simp add: phases_ok_def list_all_length)
  from job_step_Logged [OF this, of e] assms(4) Logged
  have "try_block (page_of E (htmlPath (jobs s ! j))) = Inl e" by simp
  with target_mem [OF assms(3)] assms(1) Logged show ?thesis
    by (auto simp: logged_ok_def console_advance list_ex_iff)
qed (use assms(1) in \<open>simp_all add: logged_ok_def console_advance\<close>)

lemma outputs_counted_advance:
  assumes "outputs_counted s" and "j < length (jobs s)"
    and "job_step p (phase (jobs s ! j)) = (ph, eff)"
  shows "outputs_counted (advance j ph eff s)"
proof -
  from assms(3) have ph: "ph = fst (job_step p (phase (jobs s ! j)))"
    and eff: "eff = snd (job_step p (phase (jobs s ! j)))" by simp_all
  have past: "past_try ph \<longleftrightarrow> past_try (phase (jobs s ! j)) \<or> emits eff"
    unfolding ph eff by (rule past_try_job_step)
  have silent: "past_try (phase (jobs s ! j)) \<Longrightarrow> \<not> emits eff"
    unfolding eff by (rule past_try_silent)
  from length_filter_update [OF assms(2), of "\<lambda>jb. past_try (phase jb)" "(jobs s ! j)\<lparr>phase := ph\<rparr>"]
  have "done_jobs (advance j ph eff s) + (if past_try (phase (jobs s ! j)) then 1 else 0)
      = done_jobs s + (if past_try ph then 1 else 0)"
    by (simp add: done_jobs_def)
  with past silent have "done_jobs (advance j ph eff s) = done_jobs s + (if emits eff then 1 else 0)"
    by (auto split: if_splits)
  with assms(1) outputs_advance [OF assms(2), of ph eff] show ?thesis
    by (simp add: outputs_counted_def)
qed

lemma written_once_advance:
  assumes "written_once s" and "j < length (jobs s)"
    and "job_step p (phase (jobs s ! j)) = (ph, eff)"
  shows "written_once (advance j ph eff s)"
proof -
  let ?P = "\<lambda>jb. past_try (phase jb)"
  from assms(3) have ph: "ph = fst (job_step p (phase (jobs s ! j)))"
    and eff: "eff = snd (job_step p (phase (jobs s ! j)))" by simp_all
  have past: "past_try ph \<longleftrightarrow> past_try (phase (jobs s ! j)) \<or> emits eff"
    unfolding ph eff by (rule past_try_job_step)
  have silent: "past_try (phase (jobs s ! j)) \<Longrightarrow> \<not> emits eff"
    unfolding eff by (rule past_try_silent)
  from mset_filter_update [OF assms(2), of pngPath ?P "(jobs s ! j)\<lparr>phase := ph\<rparr>"]
  have upd: "mset (map pngPath (filter ?P (jobs (advance j ph eff s))))
        + (if past_try (phase (jobs s ! j)) then {#pngPath (jobs s ! j)#} else {#})
      = mset (map pngPath (filter ?P (jobs s))) + (if past_try ph then {#pngPath (jobs s ! j)#} else {#})"
    by simp
  show ?thesis
  proof (cases eff)
    case (Captured clip)
    with past silent have "\<not> past_try (phase (jobs s ! j))" "past_try ph" by auto
    with upd assms(1,2) Captured show ?thesis
      by (simp add: written_once_def written_advance)
  next
    case other: (Logged e)
    with past silent have "\<not> past_try (phase (jobs s ! j))" "past_try ph" by auto
    with upd assms(1,2) other show ?thesis
      by (simp add: written_once_def written_advance mset_subset_add_mset)
  qed (use upd assms(1,2) past in
      \<open>auto simp: written_once_def written_advance mset_subset_add_mset split: if_splits\<close>)
qed

lemma output_inv_advance:
  assumes "output_inv E s" and "j < length (jobs s)"
    and "job_step (page_of E (htmlPath (jobs s ! j))) (phase (jobs s ! j)) = (ph, eff)"
  shows "output_inv E (advance j ph eff s)"
  using assms
  by (simp add: output_inv_def phases_ok_advance captured_ok_advance logged_ok_advance
      outputs_counted_advance written_once_advance)

lemma output_inv_job_event:
  assumes "output_inv E s" and "j < length (jobs s)"
  shows "output_inv E (job_event E j s)"
proof -
  obtain ph eff where step:
    "job_step (page_of E (htmlPath (jobs s ! j))) (phase (jobs s ! j)) = (ph, eff)"
    by (cases "job_step (page_of E (htmlPath (jobs s ! j))) (phase (jobs s ! j))")
  from output_inv_advance [OF assms step] have "output_inv E (advance j ph eff s)" .
  then show ?thesis
    by (cases ph) (simp_all add: job_event_def Let_def step output_inv_wake)
qed

lemma output_inv_step: "step E s t \<Longrightarrow> output_inv E s \<Longrightarrow> output_inv E t"
  by (induction rule: step.induct)
    (simp_all add: launched_def browser_closed_def removed_def output_inv_loop
      output_inv_job_event)

lemma reachable_output_inv: "reachable E files s \<Longrightarrow> output_inv E s"
proof (induction rule: reachable.induct)
  case start
  show ?case by (simp add: output_defs init_def)
next
  case (next_step s t)
  then show ?case by (blast intro: output_inv_step)
qed

lemma job_of_sheet:
  assumes "reachable E files s" and "jb \<in> set (jobs s)"
  shows "sheetName jb \<in> set (sheetNames (conf E) files)"
    and "htmlPath jb = join [extractedDir E, sheetName jb @ ''.html'']"
    and "pngPath jb = join [normalize_path (outputDir (conf E)), sheetName jb @ ''.jpg'']"
proof -
  from reachable_accounted [OF assms(1)]
  have eq: "map sheetName (jobs s) @ todo s = sheetNames (conf E) files" and wf: "jobs_wf E s"
    by (simp_all add: accounted_def sheets_of_def)
  from assms(2) have "sheetName jb \<in> set (map sheetName (jobs s) @ todo s)" by simp
  then show "sheetName jb \<in> set (sheetNames (conf E) files)" by (simp only: eq)
  from wf assms(2) show "htmlPath jb = join [extractedDir E, sheetName jb @ ''.html'']"
    and "pngPath jb = join [normalize_path (outputDir (conf E)), sheetName jb @ ''.jpg'']"
    by (simp_all add: list_all_iff job_wf_def)
qed

lemma done_jobs_all:
  assumes "reachable E files s" and "pc s = Done"
  shows "filter (\<lambda>jb. past_try (phase jb)) (jobs s) = jobs s"
    and "map sheetName (jobs s) = sheetNames (conf E) files"
proof -
  from reachable_inv [OF assms(1)] assms(2)
  have t: "tracks s" and e: "todo s = []" "promises s = []"
    by (simp_all add: sched_inv_def pc_ok_def)
  from t e(2) have "\<forall>jb \<in> set (jobs s). phase jb = Fulfilled"
    by (auto simp: tracks_def in_set_conv_nth)
  then show "filter (\<lambda>jb. past_try (phase jb)) (jobs s) = jobs s"
    by (simp add: filter_id_conv)
  from reachable_accounted [OF assms(1)] e(1)
  show "map sheetName (jobs s) = sheetNames (conf E) files"
    by (simp add: accounted_def sheets_of_def)
qed

text \<open>Jobs of different sheets write different files.\<close>

lemma distinct_pngPath:
  assumes "reachable E files s" and "distinct files" and "list_all plain_name files"
  shows "distinct (map pngPath (jobs s))"
proof -
  let ?out = "normalize_path (outputDir (conf E))"
  from reachable_accounted [OF assms(1)]
  have eq: "map sheetName (jobs s) @ todo s = sheetNames (conf E) files"
    by (simp add: accounted_def sheets_of_def)
  from distinct_sheetNames [OF assms(2,3), of "conf E"] have d: "distinct (map sheetName (jobs s))"
    by (simp add: eq [symmetric])
  have plain: "plain_name n" if "n \<in> set (map sheetName (jobs s))" for n
  proof -
    from that have "n \<in> set (sheetNames (conf E) files)" by (simp add: eq [symmetric])
    then show ?thesis by (rule sheetNames_plain)
  qed
  have "map pngPath (jobs s) = map (\<lambda>n. join [?out, n @ ''.jpg'']) (map sheetName (jobs s))"
    using job_of_sheet(3) [OF assms(1)] by simp
  also have "distinct \<dots>"
    using d
  proof (rule distinct_map_inj_onI)
    fix n m
    assume n: "n \<in> set (map sheetName (jobs s))" and m: "m \<in> set (map sheetName (jobs s))"
      and eq: "join [?out, n @ ''.jpg''] = join [?out, m @ ''.jpg'']"
    from plain [OF n] have on: "ordinary (n @ ''.jpg'')" by (rule ordinary_ext)
    from plain [OF m] have om: "ordinary (m @ ''.jpg'')" by (rule ordinary_ext)
    from on om normalize_path_nonempty eq have "n @ ''.jpg'' = m @ ''.jpg''"
      by (rule join_inj)
    then show "n = m" by simp
  qed
  finally show ?thesis .
qed

section \<open>A run with a page that has no table\<close>

text \<open>The configuration of \<open>ex_env3\<close>, where the page of sheet \<^verbatim>\<open>B\<close> has neither element.\<close>

definition ex_env_layout :: env where
  "ex_env_layout =
     ex_env3\<lparr>page_of := (\<lambda>path. if path = ''/tmp/gs2imgx-1/B.html''
                                then ex_page\<lparr>page_dom := (\<lambda>sel. None)\<rparr> else ex_page)\<rparr>"

lemma ex_layout_run:
  "(let s = drive ex_env_layout 43 (init ex_env_layout ex_files)
    in (pc s, map fst (written s), console s))
   = (Done, [''out/A.jpg'', ''out/D.jpg'', ''out/E.jpg''], [TypeError])"
  by code_simp

section \<open>Properties of the outputs\<close>

text \<open>
  C4. Every picture written shows the data region of its sheet: it was written to
  \<^verbatim>\<open>outputDir/sheet.jpg\<close> for a selected sheet, and its rectangle is the one the
  \<^verbatim>\<open>try\<close> block computes on the page \<^verbatim>\<open>extractedDir/sheet.html\<close> of that sheet (the
  region located there, with the resize and the capture succeeding).
\<close>

theorem written_is_located:
  assumes "reachable E files s" and "(path, clip) \<in> set (written s)"
  shows "\<exists>n \<in> set (sheetNames (conf E) files).
           path = join [normalize_path (outputDir (conf E)), n @ ''.jpg'']
           \<and> try_block (page_of E (join [extractedDir E, n @ ''.html''])) = Inr clip"
proof -
  from reachable_output_inv [OF assms(1)] assms(2)
  obtain jb where jb: "jb \<in> set (jobs s)" "pngPath jb = path"
      "try_block (page_of E (htmlPath jb)) = Inr clip"
    by (auto simp: output_inv_def captured_ok_def job_targets_def list_all_iff list_ex_iff)
  with job_of_sheet [OF assms(1) jb(1)] show ?thesis by auto
qed

theorem written_is_located_witness:
  "\<exists>n \<in> set (sheetNames (conf ex_env) ex_files).
      ''out/A.jpg'' = join [normalize_path (outputDir (conf ex_env)), n @ ''.jpg'']
      \<and> try_block (page_of ex_env (join [extractedDir ex_env, n @ ''.html''])) = Inr ex_clip"
  using written_is_located [OF run_from_init, of "''out/A.jpg''" ex_clip ex_env ex_schedule ex_files]
  by (simp add: ex_run_done)

text \<open>
  C25. Every error on the console is the error of the \<^verbatim>\<open>try\<close> block on the page of a
  selected sheet: nothing else is ever logged.
\<close>

theorem logged_is_try_error:
  assumes "reachable E files s" and "e \<in> set (console s)"
  shows "\<exists>n \<in> set (sheetNames (conf E) files).
           try_block (page_of E (join [extractedDir E, n @ ''.html''])) = Inl e"
proof -
  from reachable_output_inv [OF assms(1)] assms(2)
  obtain jb where jb: "jb \<in> set (jobs s)" "try_block (page_of E (htmlPath jb)) = Inl e"
    by (auto simp: output_inv_def logged_ok_def job_targets_def list_all_iff list_ex_iff)
  with job_of_sheet [OF assms(1) jb(1)] show ?thesis by auto
qed

theorem logged_is_try_error_witness:
  "\<exists>n \<in> set (sheetNames (conf ex_env_layout) ex_files).
      try_block (page_of ex_env_layout (join [extractedDir ex_env_layout, n @ ''.html'']))
        = Inl TypeError"
proof -
  have "TypeError \<in> set (console (drive ex_env_layout 43 (init ex_env_layout ex_files)))"
    by code_simp
  from logged_is_try_error [OF drive_from_init this] show ?thesis .
qed

text \<open>
  C24. At the end of a run every selected sheet has left exactly one trace: the
  pictures written and the errors logged are together as many as the selected
  sheets.
\<close>

theorem every_sheet_one_output:
  assumes "reachable E files s" and "pc s = Done"
  shows "length (written s) + length (console s) = length (sheetNames (conf E) files)"
proof -
  from reachable_output_inv [OF assms(1)]
  have "length (written s) + length (console s) = done_jobs s"
    by (simp add: output_inv_def outputs_counted_def)
  also have "\<dots> = length (map sheetName (jobs s))"
    by (simp add: done_jobs_def done_jobs_all(1) [OF assms])
  finally show ?thesis by (simp only: done_jobs_all(2) [OF assms])
qed

theorem every_sheet_one_output_witness:
  "length (written (drive ex_env_layout 43 (init ex_env_layout ex_files)))
     + length (console (drive ex_env_layout 43 (init ex_env_layout ex_files)))
   = length (sheetNames (conf ex_env_layout) ex_files)"
proof -
  have "pc (drive ex_env_layout 43 (init ex_env_layout ex_files)) = Done" by code_simp
  from every_sheet_one_output [OF drive_from_init this] show ?thesis .
qed

text \<open>
  C6. A run that ends with an empty console has written the picture of every
  selected sheet, once: the paths written are, up to their order, the paths
  \<^verbatim>\<open>outputDir/sheet.jpg\<close> of the selected sheets.
\<close>

theorem clean_run_writes_every_sheet:
  assumes "reachable E files s" and "pc s = Done" and "console s = []"
  shows "mset (map fst (written s))
     = mset (map (\<lambda>n. join [normalize_path (outputDir (conf E)), n @ ''.jpg''])
         (sheetNames (conf E) files))"
proof -
  note all = done_jobs_all [OF assms(1,2)]
  from reachable_output_inv [OF assms(1)]
  have sub: "mset (map fst (written s)) \<subseteq># mset (map pngPath (jobs s))"
    and cnt: "length (written s) + length (console s) = length (jobs s)"
    by (simp_all add: output_inv_def written_once_def outputs_counted_def done_jobs_def all(1))
  from cnt assms(3) have "size (mset (map fst (written s))) = size (mset (map pngPath (jobs s)))"
    by simp
  with sub have "mset (map fst (written s)) = mset (map pngPath (jobs s))"
    by (rule mset_subset_size_eq)
  also have "map pngPath (jobs s)
      = map (\<lambda>n. join [normalize_path (outputDir (conf E)), n @ ''.jpg'']) (map sheetName (jobs s))"
    using job_of_sheet(3) [OF assms(1)] by simp
  finally show ?thesis by (simp only: all(2))
qed

theorem clean_run_writes_every_sheet_witness:
  "mset (map fst (written (drive ex_env3 43 (init ex_env3 ex_files))))
     = mset (map (\<lambda>n. join [normalize_path (outputDir (conf ex_env3)), n @ ''.jpg''])
         (sheetNames (conf ex_env3) ex_files))"
proof -
  have "pc (drive ex_env3 43 (init ex_env3 ex_files)) = Done"
    and "console (drive ex_env3 43 (init ex_env3 ex_files)) = []"
    by code_simp+
  from clean_run_writes_every_sheet [OF drive_from_init this] show ?thesis .
qed

text \<open>
  C7. Writes never conflict: the names of a directory are distinct and have no
  slash, so the jobs write to pairwise different files, and no file is written
  twice.
\<close>

theorem no_file_written_twice:
  assumes "reachable E files s" and "distinct files" and "list_all plain_name files"
  shows "distinct (map pngPath (jobs s)) \<and> distinct (map fst (written s))"
proof -
  note d = distinct_pngPath [OF assms]
  from reachable_output_inv [OF assms(1)]
  have "mset (map fst (written s)) \<subseteq># mset (map pngPath (filter (\<lambda>jb. past_try (phase jb)) (jobs s)))"
    by (simp add: output_inv_def written_once_def)
  moreover have "distinct (map pngPath (filter (\<lambda>jb. past_try (phase jb)) (jobs s)))"
    using d by (rule distinct_map_filter)
  ultimately have "distinct (map fst (written s))" by (rule distinct_mset_subset)
  with d show ?thesis ..
qed

theorem no_file_written_twice_witness:
  "distinct (map pngPath (jobs (drive ex_env3 43 (init ex_env3 ex_files))))
   \<and> distinct (map fst (written (drive ex_env3 43 (init ex_env3 ex_files))))"
proof -
  have "distinct ex_files" and "list_all plain_name ex_files"
    by (simp_all add: ex_files_def plain_name_def)
  from no_file_written_twice [OF drive_from_init this] show ?thesis .
qed

end
