(* ===== verification/GS_Main.thy ===== *)
theory GS_Main
  imports GS_Archive GS_Output
begin

text \<open>
  The start and the end of the program: the promise chain of lines 74 to 80 fetches
  and extracts the archive, creates the output directory and lists the extracted
  directory; the main function then selects the sheets and renders them (the
  theories of the render loop), and line 104 removes the extracted directory.

  \<open>main_start\<close> runs the chain on the file system and hands the listing to the
  render loop: its result is the initial state of the scheduler, in an environment
  whose extracted directory is the one \<^verbatim>\<open>unzip\<close> returned. \<open>final_fs\<close> reads the state
  of the scheduler back on the file system: the extracted directory is gone once the
  scheduler has removed it. The lemmas connect the entries of the archive with the
  names \<^verbatim>\<open>readdir\<close> lists and with the pages the jobs load, and say how the chain ends
  when the extracted directory is not there.
\<close>

section \<open>From the archive to the render loop\<close>

definition main_start :: "net \<Rightarrow> env \<Rightarrow> fs \<Rightarrow> (io_error + env \<times> sched) \<times> fs" where
  "main_start N E t =
     (case fetch_archive N (sheetID (conf E)) t of
        (Inl e, t1) \<Rightarrow> (Inl e, t1)
      | (Inr dir, t1) \<Rightarrow>
          (case mkdir_p (normalize_path (outputDir (conf E))) t1 of
             (Some e, t2) \<Rightarrow> (Inl e, t2)
           | (None, t2) \<Rightarrow>
               (case readdir t2 dir of
                  Inl e \<Rightarrow> (Inl e, t2)
                | Inr files \<Rightarrow>
                    (Inr (E\<lparr>extractedDir := dir\<rparr>, init (E\<lparr>extractedDir := dir\<rparr>) files), t2))))"

text \<open>The file system of a state of the scheduler: line 104 has run when \<open>extracted\<close> is off.\<close>

definition final_fs :: "env \<Rightarrow> sched \<Rightarrow> fs \<Rightarrow> fs" where
  "final_fs E s t = (if extracted s then t else rm_rf (extractedDir E) t)"

text \<open>
  The whole program along a given order of the answers of the browser: the chain,
  the render loop, and the file system at the end.
\<close>

definition run_program ::
  "net \<Rightarrow> env \<Rightarrow> nat option list \<Rightarrow> fs \<Rightarrow> (io_error + sched) \<times> fs" where
  "run_program N E answers t =
     (case main_start N E t of
        (Inl e, t') \<Rightarrow> (Inl e, t')
      | (Inr (E', s0), t') \<Rightarrow>
          (let s = run E' answers s0 in (Inr s, final_fs E' s t')))"

text \<open>The output directory is apart from a directory when \<^verbatim>\<open>mkdir\<close> does not go through it.\<close>

definition apart :: "string \<Rightarrow> string \<Rightarrow> bool" where
  "apart out dir \<longleftrightarrow> list_all (\<lambda>q. q \<noteq> dir \<and> \<not> prefix (dir @ ''/'') q) (chain out)"

lemmas main_defs [gs_defs] = main_start_def final_fs_def run_program_def

section \<open>A run to try the definitions on\<close>

text \<open>The environment and the file system after the start of the run on the flat archive.\<close>

definition ex_env_x :: env where
  "ex_env_x = ex_env\<lparr>extractedDir := ''/tmp/gs2imgx-x1''\<rparr>"

definition ex_fs_x :: fs where
  "ex_fs_x =
     [(''/'', Dir), (''/tmp'', Dir), (''/tmp/gs2imgx-x1'', Dir),
      (''/tmp/gs2imgx-x1/A.html'', File ''<a>''), (''/tmp/gs2imgx-x1/B.html'', File ''<b>''),
      (''/tmp/gs2imgx-x1/notes.txt'', File ''n''), (''out'', Dir)]"

lemma ex_main_start:
  "main_start ex_net_flat ex_env ex_fs
     = (Inr (ex_env_x, init ex_env_x (map filename ex_flat)), ex_fs_x)"
proof -
  have c: "sheetID (conf ex_env) = ''doc''" "normalize_path (outputDir (conf ex_env)) = ''out''"
    by code_simp+
  have fa: "fetch_archive ex_net_flat ''doc'' ex_fs =
      (Inr ''/tmp/gs2imgx-x1'',
       [(''/'', Dir), (''/tmp'', Dir), (''/tmp/gs2imgx-x1'', Dir),
        (''/tmp/gs2imgx-x1/A.html'', File ''<a>''), (''/tmp/gs2imgx-x1/B.html'', File ''<b>''),
        (''/tmp/gs2imgx-x1/notes.txt'', File ''n'')])"
    by code_simp
  have mk: "mkdir_p ''out''
       [(''/'', Dir), (''/tmp'', Dir), (''/tmp/gs2imgx-x1'', Dir),
        (''/tmp/gs2imgx-x1/A.html'', File ''<a>''), (''/tmp/gs2imgx-x1/B.html'', File ''<b>''),
        (''/tmp/gs2imgx-x1/notes.txt'', File ''n'')] = (None, ex_fs_x)"
    by code_simp
  have rd: "readdir ex_fs_x ''/tmp/gs2imgx-x1'' = Inr (map filename ex_flat)"
    by code_simp
  show ?thesis
    by (simp add: main_start_def c fa mk rd ex_env_x_def)
qed

lemma ex_ready:
  "fetch_ready ex_net_flat (sheetID (conf ex_env)) ex_fs ex_flat"
  "apart (normalize_path (outputDir (conf ex_env))) (extract_dir ex_net_flat)"
  by code_simp+

section \<open>The listing of the extracted directory\<close>

lemma readdir_append:
  assumes "lookup t p = Some Dir" and "list_all (\<lambda>(q, n). dirname q \<noteq> p) u"
  shows "readdir (t @ u) p = readdir t p"
proof -
  from assms(2) have "filter (\<lambda>(q, n). q \<noteq> p \<and> dirname q = p) u = []"
    by (auto simp: filter_empty_conv list_all_iff)
  with assms(1) show ?thesis by (simp add: readdir_def lookup_append)
qed

text \<open>A directory \<^verbatim>\<open>mkdir\<close> goes through lies in the one before it, or at the top.\<close>

lemma chain_dirname:
  assumes "q \<in> set (chain p)"
  shows "top_dir (dirname q) \<or> dirname q \<in> set (chain p)"
proof -
  from assms obtain i where i: "i < length (chain p)" "chain p ! i = q"
    by (auto simp: in_set_conv_nth)
  let ?d = "if p \<noteq> [] \<and> hd p = CHR ''/'' then ''/'' else ''.''"
  from chain_linked [of p] i(1) have "dirname (chain p ! i) = butlast (?d # chain p) ! i"
    unfolding linked_def by (metis length_map nth_map)
  with i show ?thesis
    by (cases i) (auto simp: top_dir_def nth_butlast)
qed

lemma apart_adds:
  assumes "apart out dir" and "\<not> top_dir dir"
    and "list_all (\<lambda>(q, n). n = Dir \<and> q \<in> set (chain out)) u"
  shows "list_all (\<lambda>(q, n). dirname q \<noteq> dir) u" and "vacant u dir"
proof -
  have "dirname q \<noteq> dir" if "q \<in> set (chain out)" for q
    using chain_dirname [OF that] assms(1,2) by (auto simp: apart_def list_all_iff)
  with assms(3) show "list_all (\<lambda>(q, n). dirname q \<noteq> dir) u"
    by (auto simp: list_all_iff)
  from assms(1,3) show "vacant u dir"
    by (auto simp: apart_def vacant_def list_all_iff)
qed

lemma normal_dir_not_top: "normal_dir d \<Longrightarrow> \<not> top_dir d"
  by (auto simp: normal_dir_def top_dir_def)

section \<open>The start of a run\<close>

lemma main_start_success:
  assumes "main_start N E t = (Inr (E', s0), t')"
  obtains dir t1 files where "fetch_archive N (sheetID (conf E)) t = (Inr dir, t1)"
    and "mkdir_p (normalize_path (outputDir (conf E))) t1 = (None, t')"
    and "readdir t' dir = Inr files" and "E' = E\<lparr>extractedDir := dir\<rparr>"
    and "s0 = init E' files"
proof -
  obtain r t1 where f: "fetch_archive N (sheetID (conf E)) t = (r, t1)"
    by (cases "fetch_archive N (sheetID (conf E)) t")
  with assms obtain dir where r: "r = Inr dir" by (cases r) (simp_all add: main_start_def)
  obtain m t2 where mk: "mkdir_p (normalize_path (outputDir (conf E))) t1 = (m, t2)"
    by (cases "mkdir_p (normalize_path (outputDir (conf E))) t1")
  with assms f r have m: "m = None" by (cases m) (simp_all add: main_start_def)
  with assms f r mk obtain files where rd: "readdir t2 dir = Inr files"
    by (cases "readdir t2 dir") (simp_all add: main_start_def)
  with assms f r mk m have res: "t' = t2" "E' = E\<lparr>extractedDir := dir\<rparr>"
    "s0 = init (E\<lparr>extractedDir := dir\<rparr>) files"
    by (auto simp: main_start_def)
  show ?thesis
  proof (rule that [of dir t1 files])
    from f r show "fetch_archive N (sheetID (conf E)) t = (Inr dir, t1)" by simp
    from mk m res(1) show "mkdir_p (normalize_path (outputDir (conf E))) t1 = (None, t')" by simp
    from rd res(1) show "readdir t' dir = Inr files" by simp
    from res(2) show "E' = E\<lparr>extractedDir := dir\<rparr>" .
    from res(2,3) show "s0 = init E' files" by simp
  qed
qed

text \<open>
  The pages the render loop can be asked to load: a name the listing of the
  extracted directory gives is stored there, as a directory the archive created or
  as the file of an entry of the archive, with the data of that entry.
\<close>

lemma listed_is_extracted:
  assumes "start_ok N (sheetID (conf E)) t" and "serves N es"
    and "main_start N E t = (Inr (E', s0), t')"
    and "readdir t' (extractedDir E') = Inr files" and "f \<in> set files"
  shows "lookup t' (extractedDir E' @ CHR ''/'' # f) = Some Dir
     \<or> (\<exists>e \<in> set es. is_file e \<and> targetPath (extractedDir E') e = extractedDir E' @ CHR ''/'' # f
           \<and> lookup t' (extractedDir E' @ CHR ''/'' # f) = Some (File (the (data e))))"
    and "plain_name f"
proof -
  from assms(1) have ok: "fs_wf t" "tidy t" "normal_dir (zip_dir N)" "normal_dir (extract_dir N)"
    "ordinary (sheetID (conf E) @ ''.zip'')" "vacant t (extract_dir N)"
    by (simp_all add: start_ok_def)
  from assms(3) obtain dir t1 where fetch: "fetch_archive N (sheetID (conf E)) t = (Inr dir, t1)"
    and mk: "mkdir_p (normalize_path (outputDir (conf E))) t1 = (None, t')"
    and E': "E' = E\<lparr>extractedDir := dir\<rparr>"
    by (rule main_start_success)
  note origin = fetch_archive_origin [OF fetch ok(3,5) assms(2)]
  from E' origin(1) have dir: "extractedDir E' = extract_dir N" by simp
  from fetch have "rm_zip N = None" by (rule fetch_archive_success)
  from fetch_archive_keeps_wf [OF ok(1) this, of "sheetID (conf E)"] fetch have "fs_wf t1" by simp
  from mkdir_p_wf [OF this, of "normalize_path (outputDir (conf E))"] mk have wf: "fs_wf t'" by simp
  from fetch_archive_tidy [OF ok(2-4), of "sheetID (conf E)"] fetch have "tidy t1" by simp
  from mkdir_p_tidy [OF this, of "normalize_path (outputDir (conf E))"] mk have tidy: "tidy t'" by simp
  from assms(4,5) obtain q n where q: "(q, n) \<in> set t'" "dirname q = extract_dir N" "basename q = f"
    unfolding dir by (rule readdir_mem)
  from ok(4) have nd: "extract_dir N \<noteq> ''.''" "extract_dir N \<noteq> ''/''" "extract_dir N \<noteq> ''//''"
    by (auto simp: normal_dir_def)
  from tidy q(1) have "tidy_path q" by (auto simp: tidy_def list_all_iff)
  with q(2) nd obtain seg where seg: "q = extract_dir N @ CHR ''/'' # seg" "plain_name seg" "seg \<noteq> []"
    by (rule dirname_decomp)
  with q(3) have f: "f = seg" by (simp add: basename_file)
  with seg(2) show "plain_name f" by simp
  from wf q(1) have look: "lookup t' q = Some n" by (rule stored_lookup)
  show "lookup t' (extractedDir E' @ CHR ''/'' # f) = Some Dir
     \<or> (\<exists>e \<in> set es. is_file e \<and> targetPath (extractedDir E') e = extractedDir E' @ CHR ''/'' # f
           \<and> lookup t' (extractedDir E' @ CHR ''/'' # f) = Some (File (the (data e))))"
  proof (cases n)
    case Dir
    with look show ?thesis by (simp add: dir seg(1) f)
  next
    case (File c)
    with look mk have "lookup t1 q = Some (File c)"
      using mkdir_p_files [of "normalize_path (outputDir (conf E))" t1 q c] by simp
    from origin(2) [OF this] vacant_child [OF ok(6), of seg]
    obtain e where "e \<in> set es" "is_file e" "targetPath dir e = q" "data e = Some c"
      by (auto simp: seg(1))
    with look File origin(1) show ?thesis
      by (auto simp: dir seg(1) f)
  qed
qed

text \<open>Without the extracted directory the chain fails, in \<^verbatim>\<open>mkdir\<close> or in \<^verbatim>\<open>readdir\<close>.\<close>

lemma main_start_no_dir:
  assumes "fetch_archive N (sheetID (conf E)) t = (Inr dir, t1)" and "lookup t1 dir = None"
    and "apart (normalize_path (outputDir (conf E))) dir"
  shows "\<exists>e t'. main_start N E t = (Inl e, t') \<and> (e = ReaddirError \<or> e = MkdirError)"
proof -
  let ?out = "normalize_path (outputDir (conf E))"
  obtain m t2 where mk: "mkdir_p ?out t1 = (m, t2)" by (cases "mkdir_p ?out t1")
  show ?thesis
  proof (cases m)
    case (Some e)
    with mk mkdirs_error [of "chain ?out" t1 e] have "e = MkdirError" by (simp add: mkdir_p_def)
    with assms(1) mk Some show ?thesis by (simp add: main_start_def)
  next
    case None
    from mkdirs_prefix [of t1 "chain ?out"] mk obtain u where u: "t2 = t1 @ u"
      by (auto simp: mkdir_p_def prefix_def)
    from mkdirs_adds [of "chain ?out" t1] mk u
    have "list_all (\<lambda>(q, n). n = Dir \<and> q \<in> set (chain ?out)) u"
      by (simp add: mkdir_p_def)
    with assms(3) have "dir \<notin> fst ` set u"
      by (auto simp: apart_def list_all_iff)
    then have "lookup u dir = None" by (simp add: lookup_None_iff)
    with assms(2) have "lookup t2 dir = None" by (simp add: u lookup_append)
    then have "readdir t2 dir = Inl ReaddirError" by (simp add: readdir_def)
    with assms(1) mk None show ?thesis by (simp add: main_start_def)
  qed
qed

section \<open>The start of a run on a flat archive\<close>

lemma main_start_flat:
  assumes "fetch_ready N (sheetID (conf E)) t es"
    and "apart (normalize_path (outputDir (conf E))) (extract_dir N)"
    and "main_start N E t = (Inr (E', s0), t')"
  shows "E' = E\<lparr>extractedDir := extract_dir N\<rparr>" and "s0 = init E' (map filename es)"
    and "\<exists>u. t' = (t @ (extract_dir N, Dir) # extracted_files (extract_dir N) es) @ u
           \<and> list_all (\<lambda>(q, n). n = Dir \<and> q \<in> set (chain (normalize_path (outputDir (conf E))))) u"
proof -
  let ?x = "extract_dir N" and ?out = "normalize_path (outputDir (conf E))"
  let ?t1 = "t @ (?x, Dir) # extracted_files ?x es"
  from assms(1) have x: "normal_dir ?x" "vacant t ?x" "flat es"
    by (simp_all add: fetch_ready_def)
  obtain r t2 where m: "mkdir_p ?out ?t1 = (r, t2)" by (cases "mkdir_p ?out ?t1")
  from mkdirs_prefix [of ?t1 "chain ?out"] m obtain u where u: "t2 = ?t1 @ u"
    by (auto simp: mkdir_p_def prefix_def)
  from mkdirs_adds [of "chain ?out" ?t1] m u
  have dirs: "list_all (\<lambda>(q, n). n = Dir \<and> q \<in> set (chain ?out)) u"
    by (simp add: mkdir_p_def)
  have "lookup ?t1 ?x = Some Dir"
    using vacant_lookup [OF x(2)] by (simp add: lookup_append)
  then have "readdir t2 ?x = readdir ?t1 ?x"
    unfolding u using apart_adds(1) [OF assms(2) normal_dir_not_top [OF x(1)] dirs]
    by (rule readdir_append)
  then have list: "readdir t2 ?x = Inr (map filename es)"
    using x by (simp add: readdir_extracted)
  have ms: "main_start N E t =
      (case r of Some e \<Rightarrow> (Inl e, t2)
       | None \<Rightarrow> (Inr (E\<lparr>extractedDir := ?x\<rparr>, init (E\<lparr>extractedDir := ?x\<rparr>) (map filename es)), t2))"
    by (simp add: main_start_def fetch_archive_flat [OF assms(1)] m list split: option.splits)
  from ms assms(3) have r: "r = None" by (cases r) simp_all
  with ms assms(3)
  have res: "E' = E\<lparr>extractedDir := ?x\<rparr>" "s0 = init (E\<lparr>extractedDir := ?x\<rparr>) (map filename es)"
    "t' = t2"
    by simp_all
  from res(1) show "E' = E\<lparr>extractedDir := ?x\<rparr>" .
  from res(1,2) show "s0 = init E' (map filename es)" by simp
  from res(3) u dirs
  show "\<exists>u. t' = ?t1 @ u \<and> list_all (\<lambda>(q, n). n = Dir \<and> q \<in> set (chain ?out)) u"
    by blast
qed

lemma lookup_extracted:
  assumes "flat es" and "e \<in> set es"
  shows "lookup (extracted_files dir es) (dir @ CHR ''/'' # filename e) = Some (File (the (data e)))"
proof -
  have "map fst (extracted_files dir es) = map ((\<lambda>f. dir @ CHR ''/'' # f) \<circ> filename) es"
    by (simp add: extracted_files_def comp_def)
  with assms(1) have "distinct (map fst (extracted_files dir es))"
    by (simp add: flat_def distinct_map inj_on_def del: map_map)
  moreover from assms(2)
  have "(dir @ CHR ''/'' # filename e, File (the (data e))) \<in> set (extracted_files dir es)"
    by (auto simp: extracted_files_def)
  ultimately show ?thesis
    unfolding lookup_def by (rule map_of_is_SomeI)
qed

end
