(* ===== verification/GS_Pool.thy ===== *)
theory GS_Pool
  imports GS_Invariant
begin

text \<open>
  The contract of the render scheduler: a pool of jobs with a fixed number of
  permits. A sheet is admitted from the head of the queue when a permit is free,
  and a job gives its permit back when it completes. \<open>pool_step\<close> is this abstract
  machine and \<open>pool_inv\<close> its invariant. The array of promises of \<^verbatim>\<open>src/index.js\<close>
  implements it: \<open>pool_of\<close> reads the pool off the state of the scheduler, and
  every step of the scheduler is a sequence of steps of the pool (none, for the
  steps inside a job). The pool is also never idle while sheets wait: one run of the
  loop starts as many sheets as permits are free (\<open>admits\<close>).
\<close>

section \<open>The pool\<close>

record pool =
  queue :: "string list"
  working :: "nat list"
  admitted :: nat

inductive pool_step :: "nat \<Rightarrow> pool \<Rightarrow> pool \<Rightarrow> bool" for permits where
  admit:
    "queue P = n # rest \<Longrightarrow> length (working P) < permits \<Longrightarrow>
       pool_step permits P
         (P\<lparr>queue := rest, working := working P @ [admitted P], admitted := Suc (admitted P)\<rparr>)"
| finish:
    "j \<in> set (working P) \<Longrightarrow> pool_step permits P (P\<lparr>working := remove1 j (working P)\<rparr>)"

definition pool_steps :: "nat \<Rightarrow> pool \<Rightarrow> pool \<Rightarrow> bool" where
  "pool_steps permits = rtranclp (pool_step permits)"

definition pool_inv :: "nat \<Rightarrow> pool \<Rightarrow> bool" where
  "pool_inv permits P \<longleftrightarrow>
     length (working P) \<le> permits \<and> distinct (working P) \<and> (\<forall>j \<in> set (working P). j < admitted P)"

definition pool_of :: "sched \<Rightarrow> pool" where
  "pool_of s = \<lparr>queue = todo s, working = promises s, admitted = length (jobs s)\<rparr>"

text \<open>The number of sheets the loop starts before it has to wait: as many as permits are free.\<close>

definition admits :: "env \<Rightarrow> sched \<Rightarrow> string list \<Rightarrow> nat" where
  "admits E s rest = min (length rest) (nat (max 1 (concurrency (conf E))) - length (promises s))"

section \<open>The pool keeps its bound\<close>

lemma pool_step_inv: "pool_step permits P Q \<Longrightarrow> pool_inv permits P \<Longrightarrow> pool_inv permits Q"
proof (induction rule: pool_step.induct)
  case (admit P n rest)
  then show ?case by (auto simp: pool_inv_def less_Suc_eq)
next
  case (finish j P)
  then have "length (remove1 j (working P)) \<le> permits"
    by (auto simp: pool_inv_def length_remove1)
  with finish show ?case
    by (auto simp: pool_inv_def dest: notin_set_remove1)
qed

lemma pool_steps_refl [simp]: "pool_steps permits P P"
  by (simp add: pool_steps_def)

lemma pool_steps_trans: "pool_steps permits P Q \<Longrightarrow> pool_steps permits Q R \<Longrightarrow> pool_steps permits P R"
  by (simp add: pool_steps_def)

lemma pool_steps_first: "pool_step permits P Q \<Longrightarrow> pool_steps permits Q R \<Longrightarrow> pool_steps permits P R"
  by (simp add: pool_steps_def)

lemma pool_steps_inv: "pool_steps permits P Q \<Longrightarrow> pool_inv permits P \<Longrightarrow> pool_inv permits Q"
  unfolding pool_steps_def by (induction rule: rtranclp_induct) (auto intro: pool_step_inv)

section \<open>The scheduler implements the pool\<close>

lemma pool_of_simps [simp]:
  "pool_of (s\<lparr>pc := c\<rparr>) = pool_of s"
  "pool_of (s\<lparr>browser_open := b\<rparr>) = pool_of s"
  "pool_of (s\<lparr>extracted := b\<rparr>) = pool_of s"
  "pool_of (s\<lparr>todo := ns\<rparr>) = (pool_of s)\<lparr>queue := ns\<rparr>"
  "pool_of (advance j ph eff s) = pool_of s"
  by (simp_all add: pool_of_def)

lemma pool_of_await_all [simp]: "pool_of (await_all s) = pool_of s"
  by (simp add: await_all_def split: settlement.splits)

lemma admit_launch:
  assumes "length (promises s) < permits"
  shows "pool_step permits ((pool_of s)\<lparr>queue := n # rest\<rparr>) (pool_of ((launch E n s)\<lparr>todo := rest\<rparr>))"
  using pool_step.admit [of "(pool_of s)\<lparr>queue := n # rest\<rparr>" n rest permits] assms
  by (simp add: pool_of_def)

lemma loop_refines:
  assumes "tracks s" "no_rejected s" "length (promises s) < cap E"
  shows "pool_steps (cap E) ((pool_of s)\<lparr>queue := rest\<rparr>) (pool_of (loop E rest s))"
  using assms
proof (induction rest arbitrary: s)
  case Nil
  show ?case by simp
next
  case (Cons n rest)
  define s1 where "s1 = (launch E n s)\<lparr>todo := rest\<rparr>"
  have s1: "tracks s1" "no_rejected s1"
    using Cons.prems by (simp_all add: s1_def tracks_launch no_rejected_launch)
  have adm: "pool_step (cap E) ((pool_of s)\<lparr>queue := n # rest\<rparr>) (pool_of s1)"
    unfolding s1_def using Cons.prems(3) by (rule admit_launch)
  have q: "(pool_of s1)\<lparr>queue := rest\<rparr> = pool_of s1"
    by (simp add: s1_def pool_of_def)
  have pend: "race_outcome (jobs s1) (promises s1) = Pending"
    using s1 by (intro race_outcome_unsettled tracks_unsettled)
  show ?case
  proof (cases "concurrency (conf E) \<le> int (length (promises s1))")
    case True
    with pend adm show ?thesis
      by (simp add: s1_def [symmetric] Let_def pool_steps_def)
  next
    case False
    then have "length (promises s1) < cap E" by (simp add: cap_def)
    from Cons.IH [OF s1 this] have "pool_steps (cap E) (pool_of s1) (pool_of (loop E rest s1))"
      by (simp only: q)
    with adm False show ?thesis
      by (simp add: s1_def [symmetric] Let_def pool_steps_first)
  qed
qed

lemma wake_refines:
  assumes "tracks s" "no_rejected s" "length (promises s) < cap E"
  shows "pool_steps (cap E) (pool_of s) (pool_of (wake E s))"
proof -
  have "(pool_of s)\<lparr>queue := todo s\<rparr> = pool_of s" by (simp add: pool_of_def)
  with loop_refines [OF assms, of "todo s"]
  have "pool_steps (cap E) (pool_of s) (pool_of (loop E (todo s) s))" by simp
  then show ?thesis
    by (simp add: wake_def split: main_pc.splits settlement.splits)
qed

lemma finish_then_callback:
  assumes "j \<in> set (promises s)"
  shows "pool_step permits (pool_of s) (pool_of (then_callback j s))"
  using pool_step.finish [of j "pool_of s" permits] assms by (simp add: pool_of_def)

lemma job_event_refines:
  assumes inv: "sched_inv E s" and j: "j < length (jobs s)"
    and un: "\<not> settled (phase (jobs s ! j))" and nf: "\<not> failed (pc s)"
  shows "pool_steps (cap E) (pool_of s) (pool_of (job_event E j s))"
proof -
  obtain ph eff where step:
    "job_step (page_of E (htmlPath (jobs s ! j))) (phase (jobs s ! j)) = (ph, eff)"
    by (cases "job_step (page_of E (htmlPath (jobs s ! j))) (phase (jobs s ! j))")
  from un have nF: "phase (jobs s ! j) \<noteq> Fulfilled" by (simp add: settled_iff)
  show ?thesis
  proof (cases ph)
    case Fulfilled
    from active_pc [OF inv j nF nf] have nr: "no_rejected s" by simp
    note s2 = fulfil_state [OF inv j nF nr step [unfolded Fulfilled]]
    from inv j nF have "j \<in> set (promises (advance j Fulfilled eff s))"
      by (auto simp: sched_inv_def intro: tracks_mem)
    then have "pool_step (cap E) (pool_of s) (pool_of (then_callback j (advance j Fulfilled eff s)))"
      using finish_then_callback [of j "advance j Fulfilled eff s" "cap E"] by simp
    with wake_refines [OF s2(1,3,5)] Fulfilled step show ?thesis
      by (simp add: job_event_def Let_def pool_steps_first)
  next
    case (Rejected e)
    with step show ?thesis
      by (simp add: job_event_def Let_def rejected_wake [OF inv j un nf])
  qed (use step in \<open>simp_all add: job_event_def Let_def\<close>)
qed

lemma step_refines:
  assumes "step E s t" and "sched_inv E s"
  shows "pool_steps (cap E) (pool_of s) (pool_of t)"
  using assms
proof (induction rule: step.induct)
  case (launch_answer s)
  then have e: "tracks s" "jobs s = []" by (simp_all add: sched_inv_def pc_ok_def)
  then have "promises s = []" by (simp add: tracks_def)
  with e cap_pos [of E]
  have "pool_steps (cap E) ((pool_of (s\<lparr>browser_open := True\<rparr>))\<lparr>queue := todo s\<rparr>)
      (pool_of (loop E (todo s) (s\<lparr>browser_open := True\<rparr>)))"
    by (intro loop_refines) (simp_all add: no_rejected_def)
  then show ?case
    by (simp add: launched_def) (simp add: pool_of_def)
next
  case (job_answer j s)
  then show ?case by (simp add: job_event_refines)
qed (simp_all add: browser_closed_def removed_def)

lemma pool_inv_init: "pool_inv permits (pool_of (init E files))"
  by (simp add: pool_inv_def pool_of_def init_def)

section \<open>What one run of the loop does\<close>

lemma admits_Nil [simp]: "admits E s [] = 0"
  by (simp add: admits_def)

lemma admits_full:
  assumes "concurrency (conf E) \<le> int (Suc (length (promises s)))" "length (promises s) < cap E"
  shows "admits E s (n # rest) = 1"
  using assms by (auto simp: admits_def cap_def max_def split: if_splits)

lemma admits_Suc:
  assumes "\<not> concurrency (conf E) \<le> int (Suc (length (promises s)))"
  shows "admits E s (n # rest) = Suc (admits E ((launch E n s)\<lparr>todo := rest\<rparr>) rest)"
  using assms by (auto simp: admits_def max_def min_def)

lemma loop_admits:
  assumes "tracks s" "no_rejected s" "length (promises s) < cap E"
  shows "promises (loop E rest s)
       = promises s @ [length (jobs s) ..< length (jobs s) + admits E s rest]
     \<and> todo (loop E rest s) = drop (admits E s rest) rest
     \<and> map sheetName (jobs (loop E rest s)) = map sheetName (jobs s) @ take (admits E s rest) rest"
  using assms
proof (induction rest arbitrary: s)
  case Nil
  show ?case by (simp add: await_all_def split: settlement.splits)
next
  case (Cons n rest)
  define s1 where "s1 = (launch E n s)\<lparr>todo := rest\<rparr>"
  have s1: "tracks s1" "no_rejected s1"
    using Cons.prems by (simp_all add: s1_def tracks_launch no_rejected_launch)
  have f1: "promises s1 = promises s @ [length (jobs s)]" "length (jobs s1) = Suc (length (jobs s))"
    "todo s1 = rest" "map sheetName (jobs s1) = map sheetName (jobs s) @ [n]"
    by (simp_all add: s1_def)
  have pend: "race_outcome (jobs s1) (promises s1) = Pending"
    using s1 by (intro race_outcome_unsettled tracks_unsettled)
  show ?case
  proof (cases "concurrency (conf E) \<le> int (length (promises s1))")
    case True
    then have "admits E s (n # rest) = 1"
      using Cons.prems(3) by (intro admits_full) (simp_all add: f1)
    with True pend f1 show ?thesis
      by (simp add: s1_def [symmetric] Let_def)
  next
    case False
    then have less: "length (promises s1) < cap E" by (simp add: cap_def)
    from False have k: "admits E s (n # rest) = Suc (admits E s1 rest)"
      unfolding s1_def by (intro admits_Suc) simp
    from Cons.IH [OF s1 less] False f1 show ?thesis
      by (simp add: s1_def [symmetric] Let_def k upt_conv_Cons)
  qed
qed

lemma reachable_refines:
  "reachable E files s \<Longrightarrow> pool_steps (cap E) (pool_of (init E files)) (pool_of s)"
proof (induction rule: reachable.induct)
  case start
  show ?case by simp
next
  case (next_step s t)
  from step_refines [OF next_step(2) reachable_inv [OF next_step(1)]] next_step(3)
  show ?case by (rule pool_steps_trans [rotated])
qed

section \<open>Properties of the pool and of its implementation\<close>

text \<open>
  C18. The array of promises implements a pool with \<open>cap\<close> permits: every step of
  the scheduler is a sequence of steps of the pool, each an admission of the next
  sheet while a permit is free, or the return of the permit of a job in the pool.
\<close>

theorem scheduler_refines_pool:
  assumes "reachable E files s" and "step E s t"
  shows "pool_steps (cap E) (pool_of s) (pool_of t)"
  using step_refines [OF assms(2) reachable_inv [OF assms(1)]] .

theorem scheduler_refines_pool_witness:
  "pool_steps (cap ex_env3) (pool_of (init ex_env3 ex_files))
     (pool_of (launched ex_env3 (init ex_env3 ex_files)))"
  using scheduler_refines_pool [OF reachable.start launch_answer, of ex_env3 ex_files]
  by (simp add: init_def)

text \<open>
  The bound follows from the contract alone: the pool never hands out more
  permits than it has, and so the pool read off any reachable state of the
  scheduler holds at most \<open>cap\<close> jobs, each once, and only jobs that were started.
\<close>

lemma pool_bound_by_refinement:
  assumes "reachable E files s"
  shows "pool_inv (cap E) (pool_of s)"
  using pool_steps_inv [OF reachable_refines [OF assms] pool_inv_init] .

lemma pool_bound_by_refinement_witness:
  "pool_inv (cap ex_env3) (pool_of (run ex_env3 [None] (init ex_env3 ex_files)))"
  using pool_bound_by_refinement [OF run_from_init] .

text \<open>
  C20. The pool is never idle while sheets wait: once the browser is launched and
  as long as the main function has not failed, either every sheet has been started
  or every permit is taken.
\<close>

theorem work_conserving:
  assumes "reachable E files s" and "todo s \<noteq> []" and "pc s \<noteq> AwaitLaunch"
    and "\<not> failed (pc s)"
  shows "length (promises s) = cap E"
proof -
  from reachable_inv [OF assms(1)] have ok: "pc_ok E s" and le: "length (promises s) \<le> cap E"
    by (simp_all add: sched_inv_def)
  from ok assms(2-4) have "promises s \<noteq> []" "concurrency (conf E) \<le> int (length (promises s))"
    by (cases "pc s"; simp add: pc_ok_def)+
  with le show ?thesis
    by (cases "promises s") (auto simp: cap_def max_def split: if_splits)
qed

theorem work_conserving_witness:
  "length (promises (run ex_env3 [None] (init ex_env3 ex_files))) = cap ex_env3"
proof -
  have "todo (run ex_env3 [None] (init ex_env3 ex_files)) \<noteq> []"
    and "pc (run ex_env3 [None] (init ex_env3 ex_files)) \<noteq> AwaitLaunch"
    and "\<not> failed (pc (run ex_env3 [None] (init ex_env3 ex_files)))"
    by code_simp+
  from work_conserving [OF run_from_init this] show ?thesis .
qed

text \<open>
  C19. What the loop does between two waits: from a state with a free permit it
  starts the next sheets in order, one for every free permit or all that are left,
  pushes their promises at the end of the array, and leaves the others to do.
\<close>

theorem loop_fills_pool:
  assumes "sched_inv E s" and "no_rejected s"
    and "length (promises s) < nat (max 1 (concurrency (conf E)))"
  shows "promises (loop E rest s)
       = promises s @ [length (jobs s) ..< length (jobs s) + admits E s rest]
     \<and> todo (loop E rest s) = drop (admits E s rest) rest
     \<and> map sheetName (jobs (loop E rest s)) = map sheetName (jobs s) @ take (admits E s rest) rest"
  using assms by (intro loop_admits) (simp_all add: sched_inv_def cap_def)

theorem loop_fills_pool_witness:
  "promises (loop ex_env3 (todo (init ex_env3 ex_files)) (init ex_env3 ex_files)) = [0, 1]
   \<and> todo (loop ex_env3 (todo (init ex_env3 ex_files)) (init ex_env3 ex_files)) = [''D'', ''E'']"
proof -
  have "admits ex_env3 (init ex_env3 ex_files) (todo (init ex_env3 ex_files)) = 2"
    and "todo (init ex_env3 ex_files) = [''A'', ''B'', ''D'', ''E'']"
    and "length (promises (init ex_env3 ex_files)) < nat (max 1 (concurrency (conf ex_env3)))"
    by code_simp+
  with loop_fills_pool [OF init_inv, of ex_env3 ex_files "todo (init ex_env3 ex_files)"]
  show ?thesis by (simp add: init_def no_rejected_def upt_rec)
qed

end
