(* ===== verification/Spec2Isabelle.thy ===== *)
theory Spec2Isabelle
  imports GS_Main GS_Pool
begin

text \<open>
  \<^bold>\<open>gsheets2img: a verification development for \<^verbatim>\<open>src/index.js\<close>.\<close>

  \<^bold>\<open>The program.\<close> \<^verbatim>\<open>src/index.js\<close> downloads a spreadsheet as a zip archive of one
  HTML page per sheet (\<^verbatim>\<open>download\<close>, lines 12 to 18), extracts it into a temporary
  directory (\<^verbatim>\<open>unzip\<close>, lines 20 to 43), selects the sheets to render from the names
  of the extracted files and the configuration (lines 77 to 88), and renders each
  selected sheet in a headless browser (\<^verbatim>\<open>screenshot\<close>, lines 45 to 72) under a
  bound on the number of pages open at once (the loop of lines 89 to 104). The
  bound is kept with an array of promises: a job is pushed when it starts, removes
  itself in its \<^verbatim>\<open>then\<close> callback, and the loop waits in \<^verbatim>\<open>Promise.race\<close> while the
  array is full.

  \<^bold>\<open>The theories.\<close>

  \<^item> \<open>GS_Prelude\<close>: the fact collections, JavaScript values (\<open>jsval\<close>, numbers as
    rationals), and the built-ins the program calls: \<open>indexOf\<close>, \<open>array_splice\<close>,
    \<open>slice_to\<close>, \<open>array_includes\<close>, \<open>isArray\<close>, with their lemmas (a splice at the
    index of a present element is \<open>remove1\<close>; at the index \<^verbatim>\<open>-1\<close> of an absent one it
    removes the last element).
  \<^item> \<open>GS_Path\<close>: \<^verbatim>\<open>basename\<close>, \<^verbatim>\<open>extname\<close>, \<^verbatim>\<open>dirname\<close>, \<^verbatim>\<open>normalize\<close> and \<^verbatim>\<open>join\<close> of
    \<^verbatim>\<open>node:path\<close> (POSIX), written from their documented behaviour since the library
    is not part of the repository; the lemmas characterise the names with extension
    \<^verbatim>\<open>.html\<close>, the paths of files in a directory in normal form (\<open>normal_dir\<close>), the
    names that stay below the directory they are joined to (\<open>safe_name\<close>), and the
    names that start with \<^verbatim>\<open>../\<close> and do not.
  \<^item> \<open>GS_Files\<close>: the file system as the list of the stored paths (\<open>fs\<close>, \<open>node\<close>)
    with the operations of \<^verbatim>\<open>node:fs\<close> the program calls (\<open>mkdtemp\<close>, \<open>mkdir_p\<close>,
    \<open>write_file\<close>, \<open>rm_rf\<close> and \<open>rm_rf_stopped\<close> for a removal that fails on its
    way, \<open>readdir\<close>), also from their documented behaviour; the invariant \<open>fs_wf\<close>
    (the list is a tree), which the operations keep by their own guards, the relation
    \<open>persists\<close> between a file system and a later one, and the lemmas that say which
    paths an operation leaves as they are.
  \<^item> \<open>GS_Archive\<close>: \<^verbatim>\<open>download\<close> (\<open>download\<close>, lines 12 to 18) and \<^verbatim>\<open>unzip\<close>
    (\<open>unzip_entry\<close> for the body of the loop, \<open>unzip_entries\<close> for the loop,
    \<open>unzip\<close> with the \<^verbatim>\<open>finally\<close> of lines 37 to 39 and the removal of line 41) as
    functions on the file system, and \<open>fetch_archive\<close>, the two in sequence. The
    lemmas show what the file system is after the fetch of a flat archive, that
    extracted files hold the data of their entries, that the extraction of entries
    with safe names changes nothing outside the extracted directory, that a failed
    fetch leaves the archive and the temporary directories behind, and what a name
    of the spreadsheet that starts with \<^verbatim>\<open>../\<close> leads to.
  \<^item> \<open>GS_Selector\<close>: the record \<open>config\<close> and the chain \<open>sheetNames\<close> of lines 83 to
    88 (\<open>is_html\<close>, \<open>sheet_of\<close>, \<open>selected\<close>), with the contract \<open>select_spec\<close> of
    the tab selector and the proof that the chain implements it.
  \<^item> \<open>GS_Region\<close>: \<open>clipArea\<close> (lines 54 to 59), \<open>viewportSize\<close> (lines 61 to 64)
    and \<open>locate\<close> (lines 50 to 59, with the \<^verbatim>\<open>TypeError\<close> on a missing element or
    box); where the rectangle lies in the body of the table (\<open>right_edge\<close>,
    \<open>bottom_edge\<close>, \<open>lies_in\<close>), bounds on the viewport, and when the rectangle lies
    inside the viewport and when it does not.
  \<^item> \<open>GS_Screenshot\<close>: \<^verbatim>\<open>screenshot\<close> as a machine with one \<open>phase\<close> per \<^verbatim>\<open>await\<close>;
    \<open>job_step\<close> is the code between two suspensions, with the \<^verbatim>\<open>try\<close>, \<^verbatim>\<open>catch\<close>
    and \<^verbatim>\<open>finally\<close> of lines 49 to 71. \<open>run_job\<close> iterates it; \<open>job_outcome\<close> and
    \<open>job_effects\<close> say what a whole job does, and the lemmas prove the two agree.
  \<^item> \<open>GS_Scheduler\<close>: the state \<open>sched\<close> shared by the main function and the jobs,
    the main function between its awaits (\<open>launched\<close>, \<open>loop\<close>, \<open>await_all\<close>,
    \<open>browser_closed\<close>, \<open>removed\<close>), the \<^verbatim>\<open>then\<close> callback (\<open>then_callback\<close>), the
    event of a job (\<open>job_event\<close>, with \<open>wake\<close> for the continuation of the main
    function), and the relation \<open>step\<close> with its closure \<open>reachable\<close>. \<open>run\<close>
    executes a given order of answers.
  \<^item> \<open>GS_Invariant\<close>: the invariant \<open>sched_inv\<close> and its preservation by every
    step; from it the bound on the jobs in flight, the exactness of the array of
    promises and the state at the end of a run.
  \<^item> \<open>GS_Pool\<close>: the contract of the scheduler, a pool with a fixed number of
    permits (\<open>pool_step\<close>), the abstraction \<open>pool_of\<close> and the proof that every
    step of the scheduler is a sequence of steps of the pool.
  \<^item> \<open>GS_Progress\<close>: the accounting of sheets and jobs (\<open>accounted\<close>), the measure
    \<open>weight\<close> that every step decreases, absence of deadlock, the runs in which
    the browser answers every call (\<open>benign\<close>) or rejects one, and \<open>drive\<close>, the
    run that always answers the oldest running job.
  \<^item> \<open>GS_Output\<close>: the invariant \<open>output_inv\<close> that ties the pictures written
    and the errors logged to the jobs; from it, that every picture shows the region
    of its sheet and that a run leaves one picture or one logged error per sheet.
  \<^item> \<open>GS_Main\<close>: the promise chain of lines 74 to 80 on the file system
    (\<open>main_start\<close>: fetch, \<^verbatim>\<open>mkdir\<close> of the output directory, \<^verbatim>\<open>readdir\<close>), which
    hands the listing to the render loop; \<open>final_fs\<close>, the file system after line
    104; and \<open>run_program\<close>, the whole program along an order of answers.
  \<^item> This theory: properties that span the archive, the selection, the jobs and the
    loop, and runs of the whole program.

  \<^bold>\<open>How the model corresponds to the code.\<close> JavaScript runs one piece of code at a
  time, from one \<^verbatim>\<open>await\<close> to the next; which suspended function continues next is
  decided by the order in which the browser answers. So the code between two awaits
  is a function on the state, and the order of the answers is the only source of
  nondeterminism: \<open>step E s t\<close> holds when some pending call is answered in \<open>s\<close> and
  the code it resumes leads to \<open>t\<close>. What is answered is read from the environment
  \<open>E\<close> (\<open>env\<close>, and \<open>page_env\<close> for every page): whether a call succeeds, and what
  the page contains. A promise is named by the index of its job in \<open>jobs\<close>. When a
  job settles, its \<^verbatim>\<open>then\<close> callback and the continuation of a main function that
  waited for it run in the same step, since no other code of the program can run
  between them. A main function whose await is rejected ends (\<open>Failed\<close>): the
  promise chain of line 74 has no handler, the process ends with the error, and no
  further step is taken.

  \<^bold>\<open>Bounds.\<close> A job has nine awaits, so \<open>rank\<close> is at most nine and \<open>run_job 9\<close>
  settles every job (\<open>run_job_settles\<close>); a run has at most nine steps for every
  selected sheet and three more (\<open>weight\<close>: the start of a job is part of the step
  that launches the browser or wakes the main function), a run in which every page
  renders takes exactly that many, and with that many steps \<open>drive\<close> reaches the end
  of the main function when the browser answers every call (\<open>drive_completes\<close>). Numbers are rationals: the arithmetic
  of lines 55 to 63 is exact on them, and the model leaves out rounding of doubles,
  \<^verbatim>\<open>NaN\<close> and infinities. The concurrency is an integer of the configuration; a
  value below one behaves as one (\<open>cap\<close>). A configuration in which it is not a
  number, or in which a key is missing, is outside the model. The browser answers
  one call at a time; the queries \<^verbatim>\<open>page.$\<close> and \<^verbatim>\<open>boundingBox\<close> answer with a value or
  with \<^verbatim>\<open>null\<close> and do not throw. The loops of the archive stages are structural
  recursions over the directories of a path (\<open>mkdirs\<close>) and over the entries of the
  archive (\<open>unzip_entries\<close>), and need no fuel.

  The archive stages do not interleave with other code of the program: they run
  before the browser is launched. So \<open>download\<close> and \<open>unzip\<close> are functions from
  the file system to a result and the file system left behind, with the answers of
  the network and of the zip library read from the environment \<open>net\<close>. The names
  \<^verbatim>\<open>mkdtemp\<close> chooses are part of that environment; \<^verbatim>\<open>mkdtemp\<close> fails when the name
  is taken. \<^verbatim>\<open>readdir\<close> lists a directory in the order of creation; the program does
  not depend on the order beyond the order of its jobs. The removal of line 41 can
  fail like every other call: \<open>rm_zip\<close> is \<open>None\<close> when it succeeds and else names
  the paths it has left of those it was to remove, so that \<^verbatim>\<open>unzip\<close> then fails with
  part of the directory removed (\<open>unzip_rm_fails\<close>). An archive is \<open>flat\<close> when its
  entries are files with distinct names and no directory. \<open>extracted_file_holds_data\<close>,
  \<open>failed_fetch_leaves_files\<close> and \<open>loaded_page_is_extracted\<close> hold for every
  archive, \<open>extraction_stays_inside\<close> for every archive whose entry names consist of
  ordinary segments (\<open>safe_name\<close>); the description of the file system after a fetch
  and the properties of the whole run are proved for flat archives, and
  \<open>program_example\<close> runs an archive with a directory.

  \<^bold>\<open>Not modelled.\<close> The content of the network answer and of the archive file beyond
  the entries the zip library finds in it; the status of the HTTP response, which
  the code does not look at (a rejected \<^verbatim>\<open>fetch\<close> and a response without a body are
  one case, \<open>fetch_body\<close> being \<open>None\<close>); streams that fail after part of a file is written, and
  an archive whose iteration fails between two entries; permissions and links of
  the file system. The zip library refuses entry names that leave the extracted
  directory; the model takes the entries as the library delivers them, and
  \<open>unsafe_entry_example\<close> shows what the program would do with such a name. The
  root directory cannot be removed in the model (\<open>rm_rf\<close> compares paths by their
  prefix), so the lemmas about removals are stated for directories in normal form.
  A removal of line 104 that fails is recorded by the scheduler (\<open>Failed\<close>, the
  directory counted as still there); what it has removed by then is not modelled,
  and \<open>final_fs\<close> is meant for runs that reach their end. The browser
  is the environment: what a page looks like and what a picture contains is outside
  the model, which records that a capture of a given rectangle was written to a
  given path (\<open>written\<close>) and does not store the pictures in the file system.
\<close>

section \<open>Only selected sheets are rendered\<close>

text \<open>
  C34. The render loop starts jobs for selected sheets only: the sheet of every job
  passes the allow-list and the deny-list of the configuration and has its page in
  the extracted directory.
\<close>

theorem jobs_only_for_selected:
  assumes "reachable E files s" and "jb \<in> set (jobs s)"
  shows "passes (criteria (includeSheets (conf E))) (criteria (excludeSheets (conf E)))
           (sheetName jb)
     \<and> (\<exists>f \<in> set files. is_html f \<and> sheet_of f = sheetName jb)"
proof -
  from reachable_accounted [OF assms(1)]
  have "map sheetName (jobs s) @ todo s = sheetNames (conf E) files"
    by (simp add: accounted_def sheets_of_def)
  with assms(2) have "sheetName jb \<in> set (sheetNames (conf E) files)"
    by (metis Un_iff image_eqI set_append set_map)
  then show ?thesis
    by (auto simp: sheetNames_def selected_passes)
qed

theorem jobs_only_for_selected_witness:
  "passes (criteria (includeSheets (conf ex_env))) (criteria (excludeSheets (conf ex_env)))
     (sheetName (hd (jobs (run ex_env [None] (init ex_env ex_files)))))"
proof -
  have "hd (jobs (run ex_env [None] (init ex_env ex_files)))
      \<in> set (jobs (run ex_env [None] (init ex_env ex_files)))"
    by code_simp
  from jobs_only_for_selected [OF run_from_init this] show ?thesis by blast
qed

text \<open>
  C35. A run that reaches its end has rendered the selection: the jobs are, in
  order, those of the selected sheets, and all of them are fulfilled.
\<close>

theorem completed_run_renders_selection:
  assumes "reachable E files s" and "pc s = Done"
  shows "map sheetName (jobs s) = sheetNames (conf E) files
     \<and> list_all (\<lambda>jb. phase jb = Fulfilled) (jobs s)"
proof -
  from reachable_inv [OF assms(1)] assms(2)
  have t: "tracks s" and e: "todo s = []" "promises s = []"
    by (simp_all add: sched_inv_def pc_ok_def)
  from reachable_accounted [OF assms(1)] e(1)
  have "map sheetName (jobs s) = sheetNames (conf E) files"
    by (simp add: accounted_def sheets_of_def)
  moreover from t e(2) have "list_all (\<lambda>jb. phase jb = Fulfilled) (jobs s)"
    by (auto simp: tracks_def list_all_length)
  ultimately show ?thesis ..
qed

theorem completed_run_renders_selection_witness:
  "map sheetName (jobs (run ex_env ex_schedule (init ex_env ex_files)))
     = sheetNames (conf ex_env) ex_files
   \<and> list_all (\<lambda>jb. phase jb = Fulfilled) (jobs (run ex_env ex_schedule (init ex_env ex_files)))"
  using completed_run_renders_selection [OF run_from_init, of ex_env ex_schedule ex_files]
  by (simp add: ex_run_done)

section \<open>From the archive to the pictures\<close>

text \<open>
  C10. Every page a job loads is a file of the archive: when a flat archive has been
  fetched and the output directory is not inside the extracted directory, the sheet
  of every job of the render loop is the stem of an entry of the archive with the
  extension \<^verbatim>\<open>.html\<close>, and the path the job navigates to holds the data of that entry.
\<close>

theorem job_pages_are_extracted:
  assumes "fetch_ready N (sheetID (conf E)) t es"
    and "apart (normalize_path (outputDir (conf E))) (extract_dir N)"
    and "main_start N E t = (Inr (E', s0), t')"
    and "reachable E' (map filename es) s" and "jb \<in> set (jobs s)"
  shows "\<exists>e \<in> set es. filename e = sheetName jb @ ''.html''
     \<and> lookup t' (htmlPath jb) = Some (File (the (data e)))"
proof -
  let ?x = "extract_dir N"
  from assms(1) have x: "normal_dir ?x" "vacant t ?x" "flat es"
    by (simp_all add: fetch_ready_def)
  note start = main_start_flat [OF assms(1-3)]
  from start(1) have dir: "extractedDir E' = ?x" by simp
  from job_of_sheet(1) [OF assms(4,5)]
  obtain e where e: "e \<in> set es" and h: "is_html (filename e)" "sheet_of (filename e) = sheetName jb"
    by (auto simp: sheetNames_def)
  define f where "f = filename e"
  with e h have e: "e \<in> set es" "filename e = f" and f: "f \<in> set (map filename es)" "is_html f"
    "sheet_of f = sheetName jb"
    by simp_all
  with x(3) have o: "ordinary f" by (auto simp: flat_def list_all_iff)
  with f(2,3) have name: "f = sheetName jb @ ''.html''"
    using is_html_plain [of f] by (simp add: ordinary_def)
  from job_of_sheet(2) [OF assms(4,5)] o have path: "htmlPath jb = ?x @ CHR ''/'' # f"
    by (simp add: dir name [symmetric] join_normal [OF x(1)])
  from start(3) obtain u
    where t': "t' = (t @ (?x, Dir) # extracted_files ?x es) @ u" by blast
  have "prefix (t @ (?x, Dir) # extracted_files ?x es) t'"
    unfolding t' by (rule prefixI) (rule refl)
  moreover have "lookup (t @ (?x, Dir) # extracted_files ?x es) (?x @ CHR ''/'' # f)
      = Some (File (the (data e)))"
    using vacant_child [OF x(2)] lookup_extracted [OF x(3) e(1), of ?x] e(2)
    by (simp add: lookup_append)
  ultimately have "lookup t' (htmlPath jb) = Some (File (the (data e)))"
    unfolding path by (rule lookup_prefix)
  with e name show ?thesis by blast
qed

theorem job_pages_are_extracted_witness:
  "map_option is_dir
     (lookup ex_fs_x (htmlPath (hd (jobs (run ex_env_x [None] (init ex_env_x (map filename ex_flat)))))))
   = Some False"
proof -
  let ?s = "run ex_env_x [None] (init ex_env_x (map filename ex_flat))"
  have "hd (jobs ?s) \<in> set (jobs ?s)" by code_simp
  from job_pages_are_extracted [OF ex_ready ex_main_start run_from_init this]
  show ?thesis by auto
qed

text \<open>
  C11. A run that reaches its end leaves no temporary files: when a flat archive has
  been fetched, the output directory is not inside the extracted directory, and the
  main function has reached its end, the file system is the one before the run
  followed by directories of the output path; the two temporary directories and
  all that was in them are gone.
\<close>

theorem clean_run_restores_files:
  assumes "fetch_ready N (sheetID (conf E)) t es"
    and "apart (normalize_path (outputDir (conf E))) (extract_dir N)"
    and "main_start N E t = (Inr (E', s0), t')"
    and "reachable E' (map filename es) s" and "pc s = Done"
  shows "\<exists>u. final_fs E' s t' = t @ u
     \<and> list_all (\<lambda>(q, n). n = Dir \<and> q \<in> set (chain (normalize_path (outputDir (conf E))))) u"
proof -
  let ?x = "extract_dir N"
  from assms(1) have x: "normal_dir ?x" "vacant t ?x"
    by (simp_all add: fetch_ready_def)
  note start = main_start_flat [OF assms(1-3)]
  from start(3) obtain u
    where t': "t' = (t @ (?x, Dir) # extracted_files ?x es) @ u"
      and u: "list_all (\<lambda>(q, n). n = Dir \<and> q \<in> set (chain (normalize_path (outputDir (conf E))))) u"
    by blast
  from reachable_inv [OF assms(4)] assms(5) have "\<not> extracted s"
    by (simp add: sched_inv_def pc_ok_def)
  moreover have "rm_rf ?x ((?x, Dir) # extracted_files ?x es) = []"
    by (auto simp: rm_rf_def extracted_files_def filter_empty_conv)
  moreover have "rm_rf ?x u = u"
    using apart_adds(2) [OF assms(2) normal_dir_not_top [OF x(1)] u] by (rule vacant_filter)
  ultimately have "final_fs E' s t' = t @ u"
    using start(1) vacant_filter [OF x(2)]
      rm_rf_append [of ?x "(?x, Dir) # extracted_files ?x es" u]
    by (simp add: final_fs_def t' rm_rf_append [of ?x t])
  with u show ?thesis by blast
qed

theorem clean_run_restores_files_witness:
  "\<exists>u. final_fs ex_env_x (run ex_env_x ex_schedule (init ex_env_x (map filename ex_flat))) ex_fs_x
         = ex_fs @ u
     \<and> list_all (\<lambda>(q, n). n = Dir \<and> q \<in> set (chain (normalize_path (outputDir (conf ex_env))))) u"
proof -
  have "pc (run ex_env_x ex_schedule (init ex_env_x (map filename ex_flat))) = Done"
    by code_simp
  from clean_run_restores_files [OF ex_ready ex_main_start run_from_init this]
  show ?thesis .
qed

text \<open>
  Whatever the archive holds, a page a job loads was extracted from it: when the program
  starts on a tidy file system with nothing at the extracted directory, the path a
  job of the render loop navigates to is stored, either as the file of an entry of
  the archive, holding the data of that entry, or as a directory the archive
  created under a name ending in \<^verbatim>\<open>.html\<close>. This holds for every archive, with or
  without directories.
\<close>

lemma loaded_page_is_extracted:
  assumes "start_ok N (sheetID (conf E)) t" and "serves N es"
    and "main_start N E t = (Inr (E', s0), t')"
    and "readdir t' (extractedDir E') = Inr files"
    and "reachable E' files s" and "jb \<in> set (jobs s)"
  shows "lookup t' (htmlPath jb) = Some Dir
     \<or> (\<exists>e \<in> set es. is_file e \<and> targetPath (extractedDir E') e = htmlPath jb
           \<and> lookup t' (htmlPath jb) = Some (File (the (data e))))"
proof -
  from assms(1) have x: "normal_dir (extract_dir N)" by (simp add: start_ok_def)
  from assms(3) obtain dir t1 where "fetch_archive N (sheetID (conf E)) t = (Inr dir, t1)"
    and "E' = E\<lparr>extractedDir := dir\<rparr>"
    by (rule main_start_success)
  with assms(1,2) have dir: "extractedDir E' = extract_dir N"
    using fetch_archive_origin(1) [of N "sheetID (conf E)" t dir t1 es] by (simp add: start_ok_def)
  from job_of_sheet(1) [OF assms(5,6)]
  obtain f where f: "f \<in> set files" "is_html f" "sheet_of f = sheetName jb"
    by (auto simp: sheetNames_def)
  note listed = listed_is_extracted [OF assms(1-4) f(1)]
  from listed(2) f(2,3) have name: "f = sheetName jb @ ''.html''"
    using is_html_plain [of f] by simp
  have "ordinary (sheetName jb @ ''.html'')"
    using sheet_of_plain [of f] f(3) by simp
  with job_of_sheet(2) [OF assms(5,6)] x
  have "htmlPath jb = extractedDir E' @ CHR ''/'' # f"
    by (simp add: dir name join_normal)
  with listed(1) show ?thesis by simp
qed

lemma loaded_page_example:
  "lookup ex_fs_x (htmlPath (hd (jobs (run ex_env_x [None] (init ex_env_x (map filename ex_flat))))))
   = Some (File ''<a>'')"
proof -
  let ?s = "run ex_env_x [None] (init ex_env_x (map filename ex_flat))"
  have j: "hd (jobs ?s) \<in> set (jobs ?s)" by code_simp
  have s: "start_ok ex_net_flat (sheetID (conf ex_env)) ex_fs" "serves ex_net_flat ex_flat"
    by code_simp+
  have r: "readdir ex_fs_x (extractedDir ex_env_x) = Inr (map filename ex_flat)" by code_simp
  have d: "lookup ex_fs_x (htmlPath (hd (jobs ?s))) = Some (File ''<a>'')
      \<or> lookup ex_fs_x (htmlPath (hd (jobs ?s))) \<noteq> Some Dir"
    by code_simp
  have e: "\<forall>e \<in> set ex_flat. the (data e) = ''<a>'' \<or> targetPath (extractedDir ex_env_x) e \<noteq> htmlPath (hd (jobs ?s))"
    by code_simp
  from loaded_page_is_extracted [OF s ex_main_start r run_from_init j] d e
  show ?thesis by auto
qed

section \<open>Two runs of the program\<close>

text \<open>
  The run on the archive with a directory of resources: of the two pages of the
  archive one is selected; its page is loaded from the extracted directory, the body
  of its table without the row header is captured into \<^verbatim>\<open>out/A.jpg\<close>, the page and
  the browser are closed, and at the end the file system holds the output directory
  and neither temporary directory.
\<close>

lemma program_example:
  "run_program ex_net ex_env ex_schedule ex_fs =
     (Inr \<lparr> todo = [], promises = [],
            jobs = [\<lparr>sheetName = ''A'', htmlPath = ''/tmp/gs2imgx-x1/A.html'',
                     pngPath = ''out/A.jpg'', phase = Fulfilled\<rparr>],
            pc = Done, browser_open = False, pages = [], console = [],
            written = [(''out/A.jpg'', ex_clip)], extracted = False \<rparr>,
      [(''/'', Dir), (''/tmp'', Dir), (''out'', Dir)])"
  by code_simp

text \<open>
  C40. The name of the spreadsheet is used as a file name without a check. With a
  name that starts with \<^verbatim>\<open>../\<close> the archive is written beside its temporary directory,
  into the directory of all temporary files; when the fetch succeeds, \<^verbatim>\<open>unzip\<close> has
  removed the directory of the archive, which is that directory, with everything
  in it, and with it the directory it has just extracted to. The chain then fails
  in \<^verbatim>\<open>readdir\<close> (or before it in \<^verbatim>\<open>mkdir\<close>), and nothing is rendered.
\<close>

theorem unchecked_sheetID_wipes_tmpdir:
  assumes "normal_dir (tmpdir N)" and "plain_name (suffix_z N)" and "plain_name (suffix_x N)"
    and "sheetID (conf E) = ''../'' @ x" and "ordinary (x @ ''.zip'')"
    and "fetch_archive N (sheetID (conf E)) t = (Inr dir, t1)"
    and "apart (normalize_path (outputDir (conf E))) dir"
  shows "vacant t1 (tmpdir N) \<and> lookup t1 dir = None
     \<and> (\<exists>e t'. main_start N E t = (Inl e, t') \<and> (e = ReaddirError \<or> e = MkdirError))"
proof -
  note gone = fetch_archive_dotdot [OF assms(1-3,5) assms(6) [unfolded assms(4)]]
  from assms(6) gone(3) assms(7)
  have "\<exists>e t'. main_start N E t = (Inl e, t') \<and> (e = ReaddirError \<or> e = MkdirError)"
    by (rule main_start_no_dir)
  with gone(2,3) show ?thesis by simp
qed

theorem unchecked_sheetID_wipes_tmpdir_witness:
  "fetch_archive ex_net ''../doc'' ex_fs = (Inr ''/tmp/gs2imgx-x1'', [(''/'', Dir)])
   \<and> vacant [(''/'', Dir)] ''/tmp'' \<and> lookup [(''/'', Dir)] ''/tmp/gs2imgx-x1'' = None
   \<and> (\<exists>e t'. main_start ex_net (ex_env\<lparr>conf := ex_conf\<lparr>sheetID := ''../doc''\<rparr>\<rparr>) ex_fs = (Inl e, t')
          \<and> (e = ReaddirError \<or> e = MkdirError))"
proof -
  let ?E = "ex_env\<lparr>conf := ex_conf\<lparr>sheetID := ''../doc''\<rparr>\<rparr>"
  have f: "fetch_archive ex_net ''../doc'' ex_fs = (Inr ''/tmp/gs2imgx-x1'', [(''/'', Dir)])"
    by code_simp
  have n: "normal_dir (tmpdir ex_net)" "plain_name (suffix_z ex_net)" "plain_name (suffix_x ex_net)"
    "ordinary (''doc'' @ ''.zip'')" "apart (normalize_path (outputDir (conf ?E))) ''/tmp/gs2imgx-x1''"
    by code_simp+
  have s: "sheetID (conf ?E) = ''../'' @ ''doc''" by simp
  have t: "tmpdir ex_net = ''/tmp''" by (simp add: ex_net_def)
  from f have f': "fetch_archive ex_net (sheetID (conf ?E)) ex_fs = (Inr ''/tmp/gs2imgx-x1'', [(''/'', Dir)])"
    by simp
  from unchecked_sheetID_wipes_tmpdir [OF n(1-3) s n(4) f' n(5)] f show ?thesis
    by (simp only: t)
qed

text \<open>
  The same run as a whole: the listing of the extracted directory fails, and of the
  files of the run the output directory alone is left.
\<close>

lemma unchecked_sheetID_example:
  "run_program ex_net (ex_env\<lparr>conf := ex_conf\<lparr>sheetID := ''../doc''\<rparr>\<rparr>) ex_schedule ex_fs
     = (Inl ReaddirError, [(''/'', Dir), (''out'', Dir)])"
  by code_simp

text \<open>
  A run in which one page cannot be loaded: of four sheets rendered two at a
  time, the navigation to the page of the second fails. The main function fails
  with the error of the navigation while the first job is still running; the page
  of the failed job and the browser stay open, the extracted directory is not
  removed, and the two sheets that were not started are never rendered.
\<close>

lemma goto_failure_example:
  "(let s = run ex_env_goto [None, Some 1, Some 1] (init ex_env_goto ex_files)
    in (pc s, pages s, browser_open s, extracted s, todo s, written s, map phase (jobs s)))
   = (Failed GotoFailed, [1], True, True, [''D'', ''E''], [], [NewPage, Rejected GotoFailed])"
  by code_simp

end
